(* ===== verification/Prelude.thy ===== *)
theory Prelude
  imports Main "HOL-Library.Word"
begin

unbundle bit_operations_syntax

text \<open>
  Shared vocabulary of the development.

  The Rust crate \<^verbatim>\<open>rust_kernel/kolibri_utils\<close> is compiled for
  \<^verbatim>\<open>i686-kolibri-none\<close>: pointers and \<^verbatim>\<open>usize\<close> are 32 bits wide. Every Rust
  integer is a word of its own width, so that \<open>+\<close>, \<open>-\<close> and \<open>*\<close> are the
  \<^verbatim>\<open>wrapping_*\<close> operations of the source, \<open>drop_bit\<close> is \<^verbatim>\<open>>>\<close>, \<open>push_bit\<close> is
  \<^verbatim>\<open><<\<close> and \<open>ucast\<close> is \<^verbatim>\<open>as\<close>. Raw-pointer code runs over a flat memory: a function
  from 32-bit addresses to bytes.
\<close>

section \<open>Types\<close>

type_synonym u8 = "8 word"
type_synonym u16 = "16 word"
type_synonym u32 = "32 word"
type_synonym u64 = "64 word"

text \<open>The flat byte memory of the target. A pointer is a \<^typ>\<open>u32\<close>; \<^verbatim>\<open>p.add(n)\<close> is \<open>p + n\<close>.\<close>

type_synonym mem = "u32 \<Rightarrow> u8"

named_theorems mem_simps
named_theorems byte_simps

section \<open>Bounds and counters on words\<close>

lemma unat_u8 [simp]: "unat (x :: u8) < 256"
  using unsigned_less [of x] by simp

lemma unat_u16 [simp]: "unat (x :: u16) < 65536"
  using unsigned_less [of x] by simp

lemma unat_u32 [simp]: "unat (x :: u32) < 4294967296"
  using unsigned_less [of x] by simp

lemma less_unat_u32: "n < unat x \<Longrightarrow> n < 2 ^ 32" for x :: u32
  using less_trans [OF _ unat_u32, of n x] by simp

lemma unat_inc_less: "unat (i + 1) = Suc (unat i)" if "i < n" for i n :: "'a::len word"
proof -
  from that have "Suc (unat i) \<le> unat n" by (simp add: word_less_nat_alt)
  also have "unat n < 2 ^ LENGTH('a)" by simp
  finally have "unat i + unat (1 :: 'a word) < 2 ^ LENGTH('a)" by simp
  then show ?thesis using unat_add_lem [of i 1] by simp
qed

lemma unat_gap_less: "i < n \<Longrightarrow> unat n - unat (i + 1) < unat n - unat i" for i n :: "'a::len word"
  by (simp add: unat_inc_less word_less_nat_alt diff_less_mono2)

lemma unat_dec: "n \<noteq> 0 \<Longrightarrow> unat (n - 1) = unat n - 1" for n :: "'a::len word"
  by (simp add: unat_minus_one)

lemma unat_dec_less [simp]: "n \<noteq> 0 \<Longrightarrow> unat (n - 1) < unat n" for n :: "'a::len word"
  by (simp add: unat_minus_one unat_gt_0)

lemma unat_dec2_less: "unat (n - 2) < unat (n - 1)" if "n \<noteq> 1" for n :: "'a::len word"
  using unat_dec_less [of "n - 1"] that by simp

lemma unat_drop: "unat (drop_bit k x) = unat x div 2 ^ k" for x :: "'a::len word"
  unfolding unat_drop_bit_eq by (simp add: drop_bit_eq_div)

lemma unat_and_mask: "unat (x AND mask k) = unat x mod 2 ^ k" for x :: "'a::len word"
  by (simp add: take_bit_eq_mask [symmetric] unsigned_take_bit_eq) (simp add: take_bit_eq_mod)

lemma unat_plus_simple_le: "unat (a + b) \<le> unat a + unat b" for a b :: "'a::len word"
  by (simp add: unat_word_ariths)

lemma unat_add_u32: "unat a + unat b < 2 ^ 32 \<Longrightarrow> unat (a + b) = unat a + unat b" for a b :: u32
  by (simp add: unat_word_ariths)

lemma unat_sub_inc_less: "i \<noteq> n \<Longrightarrow> unat (n - (i + 1)) < unat (n - i)" for i n :: "'a::len word"
proof -
  assume "i \<noteq> n"
  then have "n - i \<noteq> 0" by simp
  then have "unat ((n - i) - 1) < unat (n - i)" by (rule unat_dec_less)
  then show ?thesis by (simp add: diff_diff_eq)
qed

lemma and_not_3: "x AND NOT 3 = push_bit 2 (drop_bit 2 x)" for x :: "'a::len word"
proof (rule bit_word_eqI)
  fix n
  have "bit (3 :: 'a word) n \<longleftrightarrow> n < LENGTH('a) \<and> n < 2"
    using bit_mask_iff [where 'a = "'a word" and m = 2 and n = n] by (simp add: mask_eq_exp_minus_1)
  then show "n < LENGTH('a) \<Longrightarrow> bit (x AND NOT 3) n = bit (push_bit 2 (drop_bit 2 x)) n"
    by (auto simp: bit_simps not_less le_iff_add)
qed

lemma sint_u32_small:
  fixes x :: u32
  assumes "unat x < 2 ^ 31"
  shows "sint x = int (unat x)"
proof -
  have "int (unat x) < int (2 ^ 31)" using assms by (simp only: of_nat_less_iff)
  then have "uint x < 2 ^ 31" by simp
  moreover have "- (2 ^ 31) \<le> uint x" by (rule order_trans [of _ 0]) simp_all
  ultimately have "sint x = uint x"
    unfolding sint_uint by (intro signed_take_bit_int_eq_self) simp_all
  then show ?thesis by simp
qed

lemma bit_imp_exp_le: "bit w n \<Longrightarrow> 2 ^ n \<le> unat w" for w :: "'a::len word"
proof -
  assume "bit w n"
  then have "bit (unat w) n" by (simp add: bit_unsigned_iff)
  then have "odd (unat w div 2 ^ n)" by (simp add: bit_iff_odd)
  then have "unat w div 2 ^ n \<noteq> 0" by (intro notI) simp
  then show ?thesis by (simp add: div_eq_0_iff)
qed

lemma bit_below: "bit w n \<Longrightarrow> unat w < 2 ^ k \<Longrightarrow> n < k" for w :: "'a::len word"
  using bit_imp_exp_le [of w n] by (meson leD le_less_trans linorder_not_le nat_power_less_imp_less one_less_numeral_iff power_increasing semiring_norm(76) zero_less_numeral)

lemma sint_less_0_iff: "sint x < 0 \<longleftrightarrow> 2 ^ (LENGTH('a) - 1) \<le> unat x" for x :: "'a::len word"
proof -
  have len: "(2 :: nat) ^ LENGTH('a) = 2 * 2 ^ (LENGTH('a) - 1)" by (simp flip: power_Suc)
  have "sint x < 0 \<longleftrightarrow> bit (unat x) (LENGTH('a) - 1)"
    using bit_last_iff [of x] by (simp add: bit_unsigned_iff)
  also have "\<dots> \<longleftrightarrow> odd (unat x div 2 ^ (LENGTH('a) - 1))" by (rule bit_iff_odd)
  also have "\<dots> \<longleftrightarrow> 2 ^ (LENGTH('a) - 1) \<le> unat x"
  proof (cases "2 ^ (LENGTH('a) - 1) \<le> unat x")
    case True
    moreover have "unat x < 2 * 2 ^ (LENGTH('a) - 1)" unfolding len [symmetric] by (rule unsigned_less)
    ultimately have "unat x div 2 ^ (LENGTH('a) - 1) = 1"
      by (intro div_nat_eqI) simp_all
    with True show ?thesis by simp
  qed simp
  finally show ?thesis .
qed

lemma sint_neg_iff: "sint x < 0 \<longleftrightarrow> 2 ^ 31 \<le> unat x" for x :: u32
  using sint_less_0_iff [of x] by simp

lemma sint_u32_eq: "sint x = (if 2 ^ 31 \<le> unat x then int (unat x) - 2 ^ 32 else int (unat x))" for x :: u32
proof -
  have "sint x = take_bit 32 (uint x) - 2 ^ 32 * of_bool (bit (uint x) 31)"
    using signed_take_bit_eq_take_bit_minus [of 31 "uint x"] by (simp add: sint_uint)
  moreover have "take_bit 32 (uint x) = uint x" using take_bit_length_eq [of x] by (simp add: unsigned_take_bit_eq [symmetric])
  moreover have "bit (uint x) 31 \<longleftrightarrow> 2 ^ 31 \<le> unat x"
    using sint_neg_iff [of x] bit_last_iff [of x] by (simp add: bit_uint_iff)
  ultimately show ?thesis by simp
qed

section \<open>First match in an index range\<close>

lemma find_upt_Some:
  "find P [lo..<hi] = Some p \<longleftrightarrow> lo \<le> p \<and> p < hi \<and> P p \<and> (\<forall>n. lo \<le> n \<and> n < p \<longrightarrow> \<not> P n)"
proof
  assume "find P [lo..<hi] = Some p"
  then obtain i where i: "i < hi - lo" "P (lo + i)" "p = lo + i" and before: "\<forall>j<i. \<not> P (lo + j)"
    by (auto simp: find_Some_iff)
  have "\<not> P n" if "lo \<le> n" "n < p" for n
    using before [rule_format, of "n - lo"] that i(3) by simp
  with i show "lo \<le> p \<and> p < hi \<and> P p \<and> (\<forall>n. lo \<le> n \<and> n < p \<longrightarrow> \<not> P n)" by simp
next
  assume "lo \<le> p \<and> p < hi \<and> P p \<and> (\<forall>n. lo \<le> n \<and> n < p \<longrightarrow> \<not> P n)"
  then show "find P [lo..<hi] = Some p"
    unfolding find_Some_iff by (intro exI [of _ "p - lo"]) auto
qed

lemma find_upt_skip:
  assumes "lo \<le> lo'" and "\<forall>n. lo \<le> n \<and> n < lo' \<longrightarrow> \<not> P n"
  shows "find P [lo..<hi] = find P [lo'..<hi]"
proof (cases "find P [lo'..<hi]")
  case None
  then have "find P [lo..<hi] = None"
    using assms(2) unfolding find_None_iff by (auto simp: not_le)
  with None show ?thesis by simp
next
  case (Some p)
  then have "find P [lo..<hi] = Some p"
    using assms unfolding find_upt_Some by (meson not_le order_trans)
  with Some show ?thesis by simp
qed

section \<open>Words bit by bit\<close>

lemma bit_u8_high: "8 \<le> n \<Longrightarrow> \<not> bit (x :: u8) n"
  by (auto dest: bit_imp_le_length)

lemma bit_u16_high: "16 \<le> n \<Longrightarrow> \<not> bit (x :: u16) n"
  by (auto dest: bit_imp_le_length)

lemma bit_u32_high: "32 \<le> n \<Longrightarrow> \<not> bit (x :: u32) n"
  by (auto dest: bit_imp_le_length)

lemma u32_eq_listI:
  "list_all (\<lambda>n. bit x n = bit y n)
     [0, 1, 2, 3, 4, 5, 6, 7, 8, 9, 10, 11, 12, 13, 14, 15, 16, 17, 18, 19, 20, 21, 22, 23, 24, 25, 26, 27, 28, 29, 30, 31]
   \<Longrightarrow> x = y" for x y :: u32
proof (rule bit_word_eqI)
  fix n assume l: "list_all (\<lambda>n. bit x n = bit y n)
     [0, 1, 2, 3, 4, 5, 6, 7, 8, 9, 10, 11, 12, 13, 14, 15, 16, 17, 18, 19, 20, 21, 22, 23, 24, 25, 26, 27, 28, 29, 30, 31]"
    and "n < LENGTH(32)"
  then have "n \<in> set [0..<32]" by simp
  also have "[0..<32] = [0, 1, 2, 3, 4, 5, 6, 7, 8, 9, 10, 11, 12, 13, 14, 15, 16, 17, 18, 19, 20, 21, 22, 23, 24, 25, 26, 27, 28, 29, 30, 31]"
    by (simp add: upt_conv_Cons [of 0] upt_conv_Cons [of "Suc 0"] upt_rec_numeral numeral_2_eq_2 [symmetric])
  finally show "bit x n = bit y n" using l unfolding list_all_iff by blast
qed

lemma u16_eq_listI:
  "list_all (\<lambda>n. bit x n = bit y n) [0, 1, 2, 3, 4, 5, 6, 7, 8, 9, 10, 11, 12, 13, 14, 15] \<Longrightarrow> x = y" for x y :: u16
proof -
  assume l: "list_all (\<lambda>n. bit x n = bit y n) [0, 1, 2, 3, 4, 5, 6, 7, 8, 9, 10, 11, 12, 13, 14, 15]"
  have "(ucast x :: u32) = ucast y"
    by (rule u32_eq_listI) (use l in \<open>simp add: bit_ucast_iff bit_u16_high\<close>)
  then have e: "bit (ucast x :: u32) n = bit (ucast y :: u32) n" for n by simp
  show "x = y"
  proof (rule bit_word_eqI)
    fix n assume "n < LENGTH(16)"
    then show "bit x n = bit y n" using e [of n] by (simp add: bit_ucast_iff)
  qed
qed

lemma u8_eq_listI: "list_all (\<lambda>n. bit x n = bit y n) [0, 1, 2, 3, 4, 5, 6, 7] \<Longrightarrow> x = y" for x y :: u8
proof (rule bit_word_eqI)
  fix n assume l: "list_all (\<lambda>n. bit x n = bit y n) [0, 1, 2, 3, 4, 5, 6, 7]" and "n < LENGTH(8)"
  then have "n < 8" by simp
  then consider "n = 0" | "n = 1" | "n = 2" | "n = 3" | "n = 4" | "n = 5" | "n = 6" | "n = 7" by linarith
  then show "bit x n = bit y n" using l by cases simp_all
qed

text \<open>Bytes one by one.\<close>

lemma u8_allI: "list_all P (map of_nat [0..<256]) \<Longrightarrow> P b" for b :: u8
proof -
  assume "list_all P (map of_nat [0..<256])"
  moreover have "of_nat (unat b) \<in> set (map (of_nat :: nat \<Rightarrow> u8) [0..<256])"
    unfolding set_map set_upt using unat_u8 [of b] by (intro imageI) simp
  ultimately have "P (of_nat (unat b))" by (simp only: list_all_iff)
  then show "P b" by simp
qed

section \<open>Bytes and multi-byte values\<close>

text \<open>
  \<open>byte k v\<close> is byte number \<open>k\<close> of \<open>v\<close>, least significant first
  (\<^verbatim>\<open>v.to_le_bytes()[k]\<close>); \<open>le16\<close>, \<open>le32\<close>, \<open>be32\<close> are \<^verbatim>\<open>from_le_bytes\<close> and
  \<^verbatim>\<open>from_be_bytes\<close>.
\<close>

definition byte :: "nat \<Rightarrow> 'a::len word \<Rightarrow> u8" where
  "byte k v = ucast (drop_bit (8 * k) v)"

definition le16 :: "u8 \<Rightarrow> u8 \<Rightarrow> u16" where
  "le16 b0 b1 = ucast b0 OR push_bit 8 (ucast b1)"

definition le32 :: "u8 \<Rightarrow> u8 \<Rightarrow> u8 \<Rightarrow> u8 \<Rightarrow> u32" where
  "le32 b0 b1 b2 b3 =
     ucast b0 OR push_bit 8 (ucast b1) OR push_bit 16 (ucast b2) OR push_bit 24 (ucast b3)"

definition be32 :: "u8 \<Rightarrow> u8 \<Rightarrow> u8 \<Rightarrow> u8 \<Rightarrow> u32" where
  "be32 b0 b1 b2 b3 = le32 b3 b2 b1 b0"

lemma bit_byte [bit_simps]: "bit (byte k v) n \<longleftrightarrow> n < 8 \<and> bit v (8 * k + n)"
  by (auto simp: byte_def bit_simps dest: bit_imp_le_length)

lemma bit_le16 [bit_simps]:
  "bit (le16 b0 b1) n \<longleftrightarrow> (if n < 8 then bit b0 n else n < 16 \<and> bit b1 (n - 8))"
  by (auto simp: le16_def bit_simps dest: bit_imp_le_length)

lemma bit_le32 [bit_simps]:
  "bit (le32 b0 b1 b2 b3) n \<longleftrightarrow>
     (if n < 8 then bit b0 n else if n < 16 then bit b1 (n - 8)
      else if n < 24 then bit b2 (n - 16) else n < 32 \<and> bit b3 (n - 24))"
  by (auto simp: le32_def bit_simps dest: bit_imp_le_length)

lemma le16_bytes [byte_simps]: "le16 (byte 0 v) (byte (Suc 0) v) = v"
  by (rule bit_word_eqI) (auto simp: bit_simps)

lemma le32_bytes [byte_simps]: "le32 (byte 0 v) (byte (Suc 0) v) (byte 2 v) (byte 3 v) = v"
  by (rule bit_word_eqI) (auto simp: bit_simps)

lemma byte_le16 [byte_simps]:
  "byte 0 (le16 b0 b1) = b0" "byte (Suc 0) (le16 b0 b1) = b1"
  by (rule bit_word_eqI; auto simp: bit_simps)+

lemma byte_le32 [byte_simps]:
  "byte 0 (le32 b0 b1 b2 b3) = b0" "byte (Suc 0) (le32 b0 b1 b2 b3) = b1"
  "byte 2 (le32 b0 b1 b2 b3) = b2" "byte 3 (le32 b0 b1 b2 b3) = b3"
  by (rule bit_word_eqI; auto simp: bit_simps)+

lemma le32_inject [simp]:
  "le32 a0 a1 a2 a3 = le32 b0 b1 b2 b3 \<longleftrightarrow> a0 = b0 \<and> a1 = b1 \<and> a2 = b2 \<and> a3 = b3"
  by (metis byte_le32)

text \<open>The numeric value of a little-endian group.\<close>

lemma le16_eq_plus: "le16 b0 b1 = ucast b0 + push_bit 8 (ucast b1)"
  unfolding le16_def
  by (rule disjunctive_add [symmetric]) (auto simp: bit_simps dest: bit_imp_le_length)

lemma ucast_of_nat_down:
  "LENGTH('b) \<le> LENGTH('a) \<Longrightarrow> (ucast (of_nat n :: 'a::len word) :: 'b::len word) = of_nat n"
  by (rule bit_word_eqI) (auto simp: bit_ucast_iff bit_of_nat_iff)

lemma unat_ucast_up: "LENGTH('a) \<le> LENGTH('b) \<Longrightarrow> unat (ucast (x :: 'a::len word) :: 'b::len word) = unat x"
  by (simp add: unsigned_ucast_eq take_bit_nat_eq_self_iff) (meson less_le_trans one_le_numeral power_increasing unsigned_less)

lemma unat_of_nat_u8: "n < 256 \<Longrightarrow> unat (of_nat n :: u8) = n"
  by (simp add: unat_of_nat)

lemma unat_of_nat_u16: "n < 65536 \<Longrightarrow> unat (of_nat n :: u16) = n"
  by (simp add: unat_of_nat)

lemma unat_le16: "unat (le16 b0 b1) = unat b0 + 256 * unat b1"
proof -
  have "(push_bit 8 (ucast b1) :: u16) = of_nat (256 * unat b1)"
    by (simp add: push_bit_eq_mult)
  then have "le16 b0 b1 = of_nat (unat b0 + 256 * unat b1)" by (simp add: le16_eq_plus)
  moreover have "unat b0 + 256 * unat b1 < 65536" using unat_u8 [of b0] unat_u8 [of b1] by linarith
  ultimately show ?thesis by (simp only: unat_of_nat_u16)
qed

lemma le32_eq_le16: "le32 b0 b1 b2 b3 = ucast (le16 b0 b1) + push_bit 16 (ucast (le16 b2 b3))"
proof -
  have "ucast (le16 b0 b1) + push_bit 16 (ucast (le16 b2 b3)) = (ucast (le16 b0 b1) OR push_bit 16 (ucast (le16 b2 b3)) :: u32)"
    by (rule disjunctive_add) (auto simp: bit_simps dest: bit_imp_le_length)
  also have "\<dots> = le32 b0 b1 b2 b3"
    by (rule u32_eq_listI) (simp add: bit_simps)
  finally show ?thesis by simp
qed

lemma unat_le32: "unat (le32 b0 b1 b2 b3) = unat b0 + 256 * unat b1 + 65536 * unat b2 + 16777216 * unat b3"
proof -
  have "le32 b0 b1 b2 b3 = of_nat (unat (le16 b0 b1) + 65536 * unat (le16 b2 b3))"
    by (simp add: le32_eq_le16 push_bit_eq_mult)
  moreover have "unat (le16 b0 b1) + 65536 * unat (le16 b2 b3) < 4294967296"
    using unat_u16 [of "le16 b0 b1"] unat_u16 [of "le16 b2 b3"] by linarith
  ultimately have "unat (le32 b0 b1 b2 b3) = unat (le16 b0 b1) + 65536 * unat (le16 b2 b3)"
    by (simp only: unat_of_nat) simp
  then show ?thesis by (simp add: unat_le16)
qed

text \<open>The value of a high and a low dword joined into a quad word.\<close>

lemma join_dwords_plus: "push_bit 32 (ucast hi :: u64) OR ucast lo = ucast hi * 2 ^ 32 + ucast lo" for hi lo :: u32
proof -
  have "push_bit 32 (ucast hi :: u64) OR ucast lo = push_bit 32 (ucast hi) + ucast lo"
    by (rule disjunctive_add [symmetric]) (auto simp: bit_simps dest: bit_imp_le_length)
  then show ?thesis by (simp add: push_bit_eq_mult mult.commute)
qed

lemma unat_join_dwords: "unat (push_bit 32 (ucast hi :: u64) OR ucast lo) = 2 ^ 32 * unat hi + unat lo" for hi lo :: u32
proof -
  have "push_bit 32 (ucast hi :: u64) OR ucast lo = of_nat (2 ^ 32 * unat hi + unat lo)"
    by (simp add: join_dwords_plus mult.commute)
  moreover have "4294967296 * unat hi + unat lo < 18446744073709551616"
    using unat_u32 [of hi] unat_u32 [of lo] by linarith
  ultimately show ?thesis by (simp only: unat_of_nat) simp
qed

lemma le32_cases:
  obtains b0 b1 b2 b3 where "x = le32 b0 b1 b2 b3"
  using le32_bytes [of x] by metis

section \<open>Typed access to the flat memory\<close>

definition load_u16 :: "mem \<Rightarrow> u32 \<Rightarrow> u16" where
  "load_u16 m a = le16 (m a) (m (a + 1))"

definition load_u32 :: "mem \<Rightarrow> u32 \<Rightarrow> u32" where
  "load_u32 m a = le32 (m a) (m (a + 1)) (m (a + 2)) (m (a + 3))"

definition load_be_u32 :: "mem \<Rightarrow> u32 \<Rightarrow> u32" where
  "load_be_u32 m a = be32 (m a) (m (a + 1)) (m (a + 2)) (m (a + 3))"

definition store_u16 :: "u32 \<Rightarrow> u16 \<Rightarrow> mem \<Rightarrow> mem" where
  "store_u16 a v m = m(a := byte 0 v, a + 1 := byte 1 v)"

definition store_u32 :: "u32 \<Rightarrow> u32 \<Rightarrow> mem \<Rightarrow> mem" where
  "store_u32 a v m = m(a := byte 0 v, a + 1 := byte 1 v, a + 2 := byte 2 v, a + 3 := byte 3 v)"

lemma load_store_u16 [mem_simps]: "load_u16 (store_u16 a v m) a = v"
  by (simp add: load_u16_def store_u16_def byte_simps)

lemma load_store_u32 [mem_simps]: "load_u32 (store_u32 a v m) a = v"
  by (simp add: load_u32_def store_u32_def byte_simps)

lemma store_u16_other: "x \<noteq> a \<Longrightarrow> x \<noteq> a + 1 \<Longrightarrow> store_u16 a v m x = m x"
  by (simp add: store_u16_def)

lemma store_u32_other: "4 \<le> x - a \<Longrightarrow> store_u32 a v m x = m x"
  by (auto simp: store_u32_def word_le_nat_alt)

lemma load_store_u32_other [mem_simps]:
  assumes "4 \<le> b - a" and "4 \<le> a - b"
  shows "load_u32 (store_u32 a v m) b = load_u32 m b"
proof -
  have "b + k \<noteq> a + l" if "k < 4" "l < 4" for k l :: u32
  proof
    assume "b + k = a + l"
    then have ba: "b - a = l - k" and ab: "a - b = k - l" by (simp_all add: algebra_simps)
    show False
    proof (cases "k \<le> l")
      case True
      then have "l - k \<le> l" by (simp add: word_le_sub1 word_sub_le)
      with ba assms(1) that show False by (simp add: word_le_nat_alt word_less_nat_alt)
    next
      case False
      then have "k - l \<le> k" by (simp add: word_sub_le)
      with ab assms(2) that show False by (simp add: word_le_nat_alt word_less_nat_alt)
    qed
  qed
  from this [of 0 0] this [of 0 1] this [of 0 2] this [of 0 3]
    this [of 1 0] this [of 1 1] this [of 1 2] this [of 1 3]
    this [of 2 0] this [of 2 1] this [of 2 2] this [of 2 3]
    this [of 3 0] this [of 3 1] this [of 3 2] this [of 3 3]
  show ?thesis by (simp add: load_u32_def store_u32_def)
qed

text \<open>Accesses through a base pointer and a natural-number offset.\<close>

lemma unat_of_nat_u32: "n < 2 ^ 32 \<Longrightarrow> unat (of_nat n :: u32) = n"
  by (simp add: unat_of_nat)

lemma of_nat_u32_eq_iff: "n < 2 ^ 32 \<Longrightarrow> k < 2 ^ 32 \<Longrightarrow> (of_nat n = (of_nat k :: u32)) \<longleftrightarrow> n = k"
  by (metis unat_of_nat_u32)

lemma minus_of_nat_u32:
  assumes "n \<le> 2 ^ 32"
  shows "- (of_nat n :: u32) = of_nat (2 ^ 32 - n)"
proof -
  have "of_nat n + (of_nat (2 ^ 32 - n) :: u32) = of_nat (n + (2 ^ 32 - n))" by (simp only: of_nat_add)
  also have "\<dots> = 0" using assms by simp
  finally show ?thesis by (rule minus_unique)
qed

lemma unat_minus_of_nat_u32:
  assumes "0 < n" and "n \<le> 2 ^ 32"
  shows "unat (- (of_nat n :: u32)) = 2 ^ 32 - n"
  unfolding minus_of_nat_u32 [OF assms(2)] using assms(1) by (intro unat_of_nat_u32) simp

lemma drop_bit_of_nat_u32:
  assumes "n < 2 ^ 32"
  shows "drop_bit k (of_nat n :: u32) = of_nat (n div 2 ^ k)"
proof -
  have "unat (drop_bit k (of_nat n :: u32)) = n div 2 ^ k"
    using assms by (simp only: unat_drop_bit_eq unat_of_nat_u32) (simp only: drop_bit_eq_div)
  moreover have "n div 2 ^ k < 2 ^ 32" using assms by (rule le_less_trans [OF div_le_dividend])
  ultimately show ?thesis by (simp only: word_unat_eq_iff unat_of_nat_u32)
qed

lemma of_nat_div_u32:
  assumes "n < 2 ^ 32" and "k < 2 ^ 32"
  shows "(of_nat n :: u32) div of_nat k = of_nat (n div k)"
proof -
  have "unat ((of_nat n :: u32) div of_nat k) = n div k"
    using assms by (simp only: unat_div unat_of_nat_u32)
  moreover have "n div k < 2 ^ 32" using assms(1) by (rule le_less_trans [OF div_le_dividend])
  ultimately show ?thesis by (simp only: word_unat_eq_iff unat_of_nat_u32)
qed

lemma of_nat_mod_u32:
  assumes "n < 2 ^ 32" and "k < 2 ^ 32"
  shows "(of_nat n :: u32) mod of_nat k = of_nat (n mod k)"
proof -
  have "unat ((of_nat n :: u32) mod of_nat k) = n mod k"
    using assms by (simp only: unat_mod unat_of_nat_u32)
  moreover have "n mod k < 2 ^ 32" using assms(1) by (rule le_less_trans [OF mod_less_eq_dividend])
  ultimately show ?thesis by (simp only: word_unat_eq_iff unat_of_nat_u32)
qed

lemma of_nat_and_3: "(of_nat n :: u32) AND 3 = of_nat (n mod 4)"
proof -
  have "(of_nat n :: u32) AND 3 = take_bit 2 (of_nat n)"
    by (simp add: take_bit_eq_mask mask_eq_exp_minus_1)
  also have "\<dots> = of_nat (take_bit 2 n)" by (rule take_bit_of_nat)
  also have "take_bit 2 n = n mod 4" by (simp add: take_bit_eq_mod)
  finally show ?thesis .
qed

lemma load_u32_cong:
  assumes "\<And>k. k < 4 \<Longrightarrow> m' (a + k) = m (a + k)"
  shows "load_u32 m' a = load_u32 m a"
  using assms [of 0] assms [of 1] assms [of 2] assms [of 3] by (simp add: load_u32_def)

lemma load_store_u32_off:
  assumes "n + 4 \<le> k \<or> k + 4 \<le> n" and "n < 2 ^ 31" and "k < 2 ^ 31"
  shows "load_u32 (store_u32 (a + of_nat n) v m) (a + of_nat k) = load_u32 m (a + of_nat k)"
proof -
  have "of_nat k + of_nat i \<noteq> (of_nat n + of_nat j :: u32)" if "i < 4" "j < 4" for i j :: nat
    using of_nat_u32_eq_iff [of "k + i" "n + j"] assms that by auto
  from this [of 0 0] this [of 0 1] this [of 0 2] this [of 0 3]
    this [of 1 0] this [of 1 1] this [of 1 2] this [of 1 3]
    this [of 2 0] this [of 2 1] this [of 2 2] this [of 2 3]
    this [of 3 0] this [of 3 1] this [of 3 2] this [of 3 3]
  show ?thesis by (simp add: load_u32_def store_u32_def add.assoc)
qed

lemma load_store_u32_above: "n + 4 \<le> k \<Longrightarrow> k < 2 ^ 31 \<Longrightarrow>
    load_u32 (store_u32 (a + of_nat n) v m) (a + of_nat k) = load_u32 m (a + of_nat k)"
  by (rule load_store_u32_off) auto

lemma load_store_u32_below: "k + 4 \<le> n \<Longrightarrow> n < 2 ^ 31 \<Longrightarrow>
    load_u32 (store_u32 (a + of_nat n) v m) (a + of_nat k) = load_u32 m (a + of_nat k)"
  by (rule load_store_u32_off) auto

lemma load_store_u32_base:
  "4 \<le> n \<Longrightarrow> n < 2 ^ 31 \<Longrightarrow> load_u32 (store_u32 (a + of_nat n) v m) a = load_u32 m a"
  "4 \<le> n \<Longrightarrow> n < 2 ^ 31 \<Longrightarrow> load_u32 (store_u32 a v m) (a + of_nat n) = load_u32 m (a + of_nat n)"
  using load_store_u32_off [of n 0 a v m] load_store_u32_off [of 0 n a v m] by simp_all

lemma store_u32_at_off:
  assumes "\<And>k. k < 4 \<Longrightarrow> x \<noteq> a + of_nat (n + k)"
  shows "store_u32 (a + of_nat n) v m x = m x"
  using assms [of 0] assms [of 1] assms [of 2] assms [of 3]
  by (simp add: store_u32_def add.assoc add.commute [of "of_nat n"])

text \<open>Two address ranges without a common address.\<close>

definition apart :: "u32 \<Rightarrow> nat \<Rightarrow> u32 \<Rightarrow> nat \<Rightarrow> bool" where
  "apart a n b k \<longleftrightarrow> (\<forall>i < n. \<forall>j < k. a + of_nat i \<noteq> b + of_nat j)"

lemma apartI:
  assumes "unat a + n \<le> unat b" and "unat b + k \<le> 2 ^ 32"
  shows "apart a n b k"
  unfolding apart_def
proof (intro allI impI notI)
  fix i j assume ij: "i < n" "j < k" and e: "a + of_nat i = b + of_nat j"
  have "of_nat (unat a + i) = (of_nat (unat b + j) :: u32)" using e by simp
  moreover have "unat a + i < 2 ^ 32" "unat b + j < 2 ^ 32" using assms ij by linarith+
  ultimately have "unat a + i = unat b + j" using of_nat_u32_eq_iff by blast
  with assms ij show False by linarith
qed

lemma apart_sym: "apart a n b k \<Longrightarrow> apart b k a n"
  unfolding apart_def by metis

lemma apart_sub:
  assumes "apart a n b k" and "i + n' \<le> n" and "j + k' \<le> k"
  shows "apart (a + of_nat i) n' (b + of_nat j) k'"
  unfolding apart_def
proof (intro allI impI)
  fix x y assume "x < n'" "y < k'"
  then have "a + of_nat (i + x) \<noteq> b + of_nat (j + y)" using assms unfolding apart_def by (meson add_strict_left_mono less_le_trans)
  then show "a + of_nat i + of_nat x \<noteq> b + of_nat j + of_nat y" by (simp add: add.assoc)
qed

lemma load_u32_apart:
  assumes "apart a n b k" and "i + 4 \<le> n" and "j + 4 \<le> k"
  shows "load_u32 (store_u32 (b + of_nat j) v m) (a + of_nat i) = load_u32 m (a + of_nat i)"
proof (rule load_u32_cong)
  fix x :: u32 assume "x < 4"
  then have x: "x = of_nat (unat x)" "unat x < 4" by (simp_all add: word_less_nat_alt)
  have "a + of_nat (i + unat x) \<noteq> b + of_nat (j + l)" if "l < 4" for l
    using assms(1) [unfolded apart_def, rule_format, of "i + unat x" "j + l"] assms(2,3) x(2) that by linarith
  then have "a + of_nat i + x \<noteq> b + of_nat (j + l)" if "l < 4" for l
    using that x(1) by (simp add: add.assoc)
  then show "store_u32 (b + of_nat j) v m (a + of_nat i + x) = m (a + of_nat i + x)"
    by (rule store_u32_at_off)
qed

lemma store_u32_outside:
  assumes "\<And>j. j < k \<Longrightarrow> x \<noteq> b + of_nat j" and "j + 4 \<le> k"
  shows "store_u32 (b + of_nat j) v m x = m x"
  by (rule store_u32_at_off, rule assms(1)) (use assms(2) in simp)

text \<open>The bytes of a buffer: \<open>mem_bytes m a n\<close> is the \<open>n\<close>-byte slice at \<open>a\<close>.\<close>

primrec mem_bytes :: "mem \<Rightarrow> u32 \<Rightarrow> nat \<Rightarrow> u8 list" where
  "mem_bytes m a 0 = []"
| "mem_bytes m a (Suc n) = m a # mem_bytes m (a + 1) n"

lemma length_mem_bytes [simp]: "length (mem_bytes m a n) = n"
  by (induction n arbitrary: a) auto

lemma nth_mem_bytes: "i < n \<Longrightarrow> mem_bytes m a n ! i = m (a + of_nat i)"
proof (induction n arbitrary: a i)
  case 0
  then show ?case by simp
next
  case (Suc n)
  then show ?case by (cases i) (simp_all add: algebra_simps)
qed

lemma mem_bytes_snoc: "mem_bytes m a (Suc n) = mem_bytes m a n @ [m (a + of_nat n)]"
proof (induction n arbitrary: a)
  case 0
  show ?case by simp
next
  case (Suc n)
  have "mem_bytes m a (Suc (Suc n)) = m a # mem_bytes m (a + 1) (Suc n)" by simp
  also have "\<dots> = m a # mem_bytes m (a + 1) n @ [m (a + 1 + of_nat n)]" by (simp only: Suc.IH)
  finally show ?case by (simp add: algebra_simps)
qed

lemma mem_bytes_append: "mem_bytes m p (i + j) = mem_bytes m p i @ mem_bytes m (p + of_nat i) j"
  by (induction i arbitrary: p) (simp_all add: algebra_simps)

lemma mem_bytes_cong: "(\<And>i. i < n \<Longrightarrow> m (a + of_nat i) = m' (a + of_nat i)) \<Longrightarrow> mem_bytes m a n = mem_bytes m' a n"
  by (rule nth_equalityI) (simp_all add: nth_mem_bytes)

text \<open>A byte list laid out at an address.\<close>

primrec put_bytes :: "u32 \<Rightarrow> u8 list \<Rightarrow> mem \<Rightarrow> mem" where
  "put_bytes a [] m = m"
| "put_bytes a (x # xs) m = put_bytes (a + 1) xs (m(a := x))"

lemma put_bytes_other: "(\<And>i. i < length bs \<Longrightarrow> x \<noteq> a + of_nat i) \<Longrightarrow> put_bytes a bs m x = m x"
proof (induction bs arbitrary: a m)
  case (Cons b bs)
  have "x \<noteq> a + 1 + of_nat i" if "i < length bs" for i
    using Cons.prems [of "Suc i"] that by (simp add: algebra_simps)
  then have "put_bytes (a + 1) bs (m(a := b)) x = (m(a := b)) x" by (rule Cons.IH)
  then show ?case using Cons.prems [of 0] by simp
qed simp

lemma put_bytes_nth:
  "length bs \<le> 2 ^ 32 \<Longrightarrow> i < length bs \<Longrightarrow> put_bytes a bs m (a + of_nat i) = bs ! i"
proof (induction bs arbitrary: a m i)
  case (Cons b bs)
  show ?case
  proof (cases i)
    case 0
    have "a \<noteq> a + 1 + of_nat j" if "j < length bs" for j
    proof
      assume "a = a + 1 + of_nat j"
      then have "(of_nat (Suc j) :: u32) = of_nat 0" by (simp add: algebra_simps)
      moreover have "Suc j < 2 ^ 32" using that Cons.prems(1) by simp
      ultimately show False using of_nat_u32_eq_iff [of "Suc j" 0] by (simp del: of_nat_Suc)
    qed
    then have "put_bytes (a + 1) bs (m(a := b)) a = (m(a := b)) a" by (rule put_bytes_other)
    with 0 show ?thesis by simp
  next
    case (Suc j)
    have "put_bytes a (b # bs) m (a + of_nat i) = put_bytes (a + 1) bs (m(a := b)) (a + 1 + of_nat j)"
      by (simp add: Suc add.assoc)
    also have "\<dots> = bs ! j" using Cons.prems Suc by (intro Cons.IH) simp_all
    finally show ?thesis by (simp add: Suc)
  qed
qed simp

lemma mem_bytes_put_bytes: "length bs \<le> 2 ^ 32 \<Longrightarrow> mem_bytes (put_bytes a bs m) a (length bs) = bs"
  by (rule nth_equalityI) (simp_all add: nth_mem_bytes put_bytes_nth)

lemma put_bytes_at:
  assumes "length bs \<le> 2 ^ 32"
  shows "put_bytes a bs m x = (if unat (x - a) < length bs then bs ! unat (x - a) else m x)"
proof (cases "unat (x - a) < length bs")
  case True
  then show ?thesis using put_bytes_nth [OF assms True, of a m] by simp
next
  case False
  have "x \<noteq> a + of_nat i" if "i < length bs" for i
  proof
    assume "x = a + of_nat i"
    then have "unat (x - a) = i" using that assms by (simp add: unat_of_nat_u32)
    with that False show False by simp
  qed
  with False show ?thesis by (simp add: put_bytes_other)
qed

lemma put_bytes_append: "put_bytes a (xs @ ys) m = put_bytes (a + of_nat (length xs)) ys (put_bytes a xs m)"
  by (induction xs arbitrary: a m) (simp_all add: algebra_simps)

lemma load_u32_put_bytes:
  assumes "\<And>i k. i < length bs \<Longrightarrow> k < 4 \<Longrightarrow> b + of_nat k \<noteq> a + of_nat i"
  shows "load_u32 (put_bytes a bs m) b = load_u32 m b"
proof -
  have "put_bytes a bs m (b + of_nat k) = m (b + of_nat k)" if "k < 4" for k
    using assms that by (intro put_bytes_other) blast
  from this [of 0] this [of 1] this [of 2] this [of 3] show ?thesis by (simp add: load_u32_def)
qed

end
