(* ===== verification/Scan.thy ===== *)
theory Scan
  imports Prelude
begin

text \<open>
  The two shapes of search loop the kernel leaves use, as contracts. \<open>indexed_scan\<close> is a
  \<^verbatim>\<open>while i < n\<close> loop that leaves at the first hit: it equals the library's \<open>find\<close> over the index
  range. \<open>list_walk\<close> is a loop that follows a next pointer until it may stop, and which need not return
  on a cyclic list.
\<close>

locale indexed_scan =
  fixes scan :: "u32 \<Rightarrow> 'r"
    and hit :: "u32 \<Rightarrow> bool"
    and found :: "u32 \<Rightarrow> 'r"
    and missed :: 'r
    and bound :: u32
  assumes step: "scan i = (if i < bound then if hit i then found i else scan (i + 1) else missed)"
begin

lemma scan_from:
  "scan i = (case find (\<lambda>n. hit (of_nat n)) [unat i..<unat bound] of Some n \<Rightarrow> found (of_nat n) | None \<Rightarrow> missed)"
proof (induction "unat bound - unat i" arbitrary: i)
  case 0
  then have "\<not> i < bound" by (simp add: word_less_nat_alt)
  with 0 show ?case by (subst step) simp
next
  case (Suc k)
  then have lt: "i < bound" by (simp add: word_less_nat_alt)
  have up: "[unat i..<unat bound] = unat i # [unat (i + 1)..<unat bound]"
    using lt by (simp add: upt_conv_Cons unat_inc_less word_less_nat_alt)
  show ?case
  proof (cases "hit i")
    case True
    with lt show ?thesis by (subst step) (simp add: up)
  next
    case False
    have "k = unat bound - unat (i + 1)" using Suc.hyps(2) lt by (simp add: unat_inc_less)
    from Suc.hyps(1) [OF this] False lt show ?thesis by (subst step) (simp add: up)
  qed
qed

lemma scan_all:
  "scan 0 = (case find (\<lambda>n. hit (of_nat n)) [0..<unat bound] of Some n \<Rightarrow> found (of_nat n) | None \<Rightarrow> missed)"
  using scan_from [of 0] by simp

lemma scan_first:
  assumes "unat i < unat bound" and "hit i" and "\<And>j. j < i \<Longrightarrow> \<not> hit j"
  shows "scan 0 = found i"
proof -
  have "\<not> hit (of_nat n)" if "n < unat i" for n
    using that less_unat_u32 [OF that] by (intro assms(3)) (simp add: word_less_nat_alt unat_of_nat_u32)
  then have "find (\<lambda>n. hit (of_nat n)) [0..<unat bound] = Some (unat i)"
    using assms(1,2) by (simp add: find_upt_Some)
  then show ?thesis by (simp add: scan_all)
qed

lemma scan_missed:
  assumes "\<And>j. j < bound \<Longrightarrow> \<not> hit j"
  shows "scan 0 = missed"
proof -
  have "\<not> hit (of_nat n)" if "n < unat bound" for n
    using that less_unat_u32 [OF that] by (intro assms) (simp add: word_less_nat_alt unat_of_nat_u32)
  then have "find (\<lambda>n. hit (of_nat n)) [0..<unat bound] = None" by (simp add: find_None_iff)
  then show ?thesis by (simp add: scan_all)
qed

end

locale list_walk =
  fixes walk :: "'a \<Rightarrow> 'r option"
    and next_of :: "'a \<Rightarrow> 'a"
    and stop :: "'a \<Rightarrow> bool"
    and result :: "'a \<Rightarrow> 'r"
  assumes step: "walk n = (if stop n then Some (result n) else walk (next_of n))"
    and returns: "walk n = Some r \<Longrightarrow> \<exists>k. stop ((next_of ^^ k) n)"
begin

lemma walk_reaches:
  assumes "stop ((next_of ^^ k) n)" and "\<And>j. j < k \<Longrightarrow> \<not> stop ((next_of ^^ j) n)"
  shows "walk n = Some (result ((next_of ^^ k) n))"
  using assms
proof (induction k arbitrary: n)
  case 0
  then show ?case by (subst step) simp
next
  case (Suc k)
  have "\<not> stop n" using Suc.prems(2) [of 0] by simp
  moreover have "walk (next_of n) = Some (result ((next_of ^^ k) (next_of n)))"
    using Suc.prems(1) Suc.prems(2) [of "Suc j" for j] by (intro Suc.IH) (simp_all only: funpow_Suc_right o_apply, blast)
  ultimately show ?case by (subst step) (simp only: funpow_Suc_right o_apply if_False)
qed

lemma walk_returns_iff: "(\<exists>r. walk n = Some r) \<longleftrightarrow> (\<exists>k. stop ((next_of ^^ k) n))"
proof
  assume "\<exists>k. stop ((next_of ^^ k) n)"
  then have "stop ((next_of ^^ (LEAST k. stop ((next_of ^^ k) n))) n)" by (rule LeastI_ex)
  then have "walk n = Some (result ((next_of ^^ (LEAST k. stop ((next_of ^^ k) n))) n))"
    by (rule walk_reaches) (rule not_less_Least)
  then show "\<exists>r. walk n = Some r" by blast
qed (use returns in blast)

text \<open>On a list laid out as \<open>n # ns\<close> and ended by a stopping value \<open>e\<close>, the walk stops at the first stopping element.\<close>

fun linked :: "'a list \<Rightarrow> 'a \<Rightarrow> bool" where
  "linked [] e \<longleftrightarrow> True"
| "linked [n] e \<longleftrightarrow> next_of n = e"
| "linked (n # n' # ns) e \<longleftrightarrow> next_of n = n' \<and> linked (n' # ns) e"

lemma walk_linked:
  "linked ns e \<Longrightarrow> stop e \<Longrightarrow>
   walk (hd (ns @ [e])) = Some (result (case find stop ns of Some n \<Rightarrow> n | None \<Rightarrow> e))"
proof (induction ns)
  case Nil
  then show ?case by (subst step) simp
next
  case (Cons n ns)
  have nx: "next_of n = hd (ns @ [e])" and l: "linked ns e" using Cons.prems(1) by (cases ns; simp)+
  show ?case
  proof (cases "stop n")
    case True
    then show ?thesis by (subst step) simp
  next
    case False
    with Cons.IH [OF l Cons.prems(2)] nx show ?thesis by (subst step) simp
  qed
qed

end

end
