(* ===== verification/Cstrings.thy ===== *)
theory Cstrings
  imports Scan
begin

text \<open>
  The string and block leaves of \<^verbatim>\<open>string.rs\<close> and \<^verbatim>\<open>memmove.rs\<close>. A scan for a terminator is a partial
  function, since it runs for ever in a memory without a zero byte; the others are total. The scans are
  instances of the walk contract of the search theory. The lemmas relate them to the list of bytes of
  the string, \<open>strncmp\<close> to the lexicographic order, and the forward copy to the bytes of its source.
\<close>

unbundle bit_operations_syntax

partial_function (option) strlen_loop :: "mem \<Rightarrow> u32 \<Rightarrow> u32 \<Rightarrow> u32 option" where
  "strlen_loop m edi ecx =
     (let b = m edi; edi = edi + 1; ecx = ecx - 1
      in if b = 0 then Some ecx else strlen_loop m edi ecx)"

definition strlen :: "mem \<Rightarrow> u32 \<Rightarrow> u32 option" where
  "strlen m s = map_option (\<lambda>ecx. NOT (ecx + 1)) (strlen_loop m s (0 - 1))"

function strncpy_loop :: "u32 \<Rightarrow> u32 \<Rightarrow> u32 \<Rightarrow> u32 \<Rightarrow> bool \<Rightarrow> mem \<Rightarrow> mem" where
  "strncpy_loop s1 s2 n i saw_nul m =
     (if i < n then
        let (b, saw_nul) = (if saw_nul then (0, saw_nul) else let c = m (s2 + i) in (c, if c = 0 then True else saw_nul))
        in strncpy_loop s1 s2 n (i + 1) saw_nul (m(s1 + i := b))
      else m)"
  by pat_completeness auto
termination
  by (relation "measure (\<lambda>(_, _, n, i, _, _). unat n - unat i)") (simp_all add: unat_gap_less)

declare strncpy_loop.simps [simp del]

definition strncpy :: "u32 \<Rightarrow> u32 \<Rightarrow> u32 \<Rightarrow> mem \<Rightarrow> u32 \<times> mem" where
  "strncpy s1 s2 n m = (s1, strncpy_loop s1 s2 n 0 False m)"

partial_function (option) strrchr_end :: "mem \<Rightarrow> u32 \<Rightarrow> u32 \<Rightarrow> (u32 \<times> u32) option" where
  "strrchr_end m p len =
     (let b = m p; p = p + 1; len = len + 1
      in if b = 0 then Some (p, len) else strrchr_end m p len)"

function strrchr_back :: "mem \<Rightarrow> u8 \<Rightarrow> u32 \<Rightarrow> u32 \<Rightarrow> u32" where
  "strrchr_back m needle p ecx =
     (if ecx = 0 then 0
      else if m p = needle then p
      else if ecx - 1 = 0 then 0
      else strrchr_back m needle (p - 1) (ecx - 1))"
  by pat_completeness auto
termination
  by (relation "measure (\<lambda>(_, _, _, ecx). unat ecx)") simp_all

declare strrchr_back.simps [simp del]

definition strrchr :: "mem \<Rightarrow> u32 \<Rightarrow> u32 \<Rightarrow> u32 option" where
  "strrchr m s c = map_option (\<lambda>(p, len). strrchr_back m (ucast c) (p - 1) len) (strrchr_end m s 0)"

partial_function (option) strchr_loop :: "mem \<Rightarrow> u8 \<Rightarrow> u32 \<Rightarrow> u32 option" where
  "strchr_loop m needle p =
     (let b = m p
      in if b = needle then Some p else if b = 0 then Some 0 else strchr_loop m needle (p + 1))"

definition strchr :: "mem \<Rightarrow> u32 \<Rightarrow> u32 \<Rightarrow> u32 option" where
  "strchr m s c = strchr_loop m (ucast c) s"

function strncmp_loop :: "mem \<Rightarrow> u32 \<Rightarrow> u32 \<Rightarrow> u32 \<Rightarrow> int" where
  "strncmp_loop m p1 p2 n =
     (let a = m p1; b = m p2
      in if a \<noteq> b then (if a > b then 1 else - 1)
         else if a = 0 then 0
         else if n - 1 = 0 then 0
         else strncmp_loop m (p1 + 1) (p2 + 1) (n - 1))"
  by pat_completeness auto
termination
  by (relation "measure (\<lambda>(_, _, _, n). unat (n - 1))") (auto intro!: unat_dec2_less)

declare strncmp_loop.simps [simp del]

definition strncmp :: "mem \<Rightarrow> u32 \<Rightarrow> u32 \<Rightarrow> u32 \<Rightarrow> int" where
  "strncmp m s1 s2 n = (if n = 0 then 0 else strncmp_loop m s1 s2 n)"

function memmove_dwords :: "u32 \<Rightarrow> u32 \<Rightarrow> u32 \<Rightarrow> mem \<Rightarrow> u32 \<times> u32 \<times> mem" where
  "memmove_dwords esi edi n_dwords m =
     (if n_dwords \<noteq> 0 then
        let v = load_u32 m esi
        in memmove_dwords (esi + 4) (edi + 4) (n_dwords - 1) (store_u32 edi v m)
      else (esi, edi, m))"
  by pat_completeness auto
termination
  by (relation "measure (\<lambda>(_, _, n, _). unat n)") simp_all

declare memmove_dwords.simps [simp del]

function memmove_bytes :: "u32 \<Rightarrow> u32 \<Rightarrow> u32 \<Rightarrow> mem \<Rightarrow> mem" where
  "memmove_bytes esi edi ecx m =
     (if ecx \<noteq> 0 then memmove_bytes (esi + 1) (edi + 1) (ecx - 1) (m(edi := m esi)) else m)"
  by pat_completeness auto
termination
  by (relation "measure (\<lambda>(_, _, n, _). unat n)") simp_all

declare memmove_bytes.simps [simp del]

definition memmove :: "u32 \<Rightarrow> u32 \<Rightarrow> u32 \<Rightarrow> mem \<Rightarrow> mem" where
  "memmove from to nbytes m =
     (if sint nbytes \<le> 0 then m
      else if nbytes AND NOT 3 \<noteq> 0 then
        let (esi, edi, m) = memmove_dwords from to (drop_bit 2 nbytes) m;
            ecx = nbytes AND 3
        in if ecx = 0 then m else memmove_bytes esi edi ecx m
      else memmove_bytes from to nbytes m)"

definition memmove_ptr :: "u32 \<Rightarrow> u32 \<Rightarrow> u32 \<Rightarrow> mem \<Rightarrow> mem" where
  "memmove_ptr from to nbytes m = memmove from to nbytes m"

section \<open>Scans\<close>

lemma strlen_returns:
  assumes "strlen_loop m edi ecx = Some r"
  shows "\<exists>k. m (edi + of_nat k) = 0"
  using assms
proof (rule strlen_loop.raw_induct [where P = "\<lambda>m edi ecx r. \<exists>k. m (edi + of_nat k) = 0", rotated])
  fix scan :: "mem \<Rightarrow> u32 \<Rightarrow> u32 \<Rightarrow> u32 option" and m edi ecx r
  assume ih: "\<And>m edi ecx r. scan m edi ecx = Some r \<Longrightarrow> \<exists>k. m (edi + of_nat k) = 0"
    and body: "(let b = m edi; edi = edi + 1; ecx = ecx - 1 in if b = 0 then Some ecx else scan m edi ecx) = Some r"
  show "\<exists>k. m (edi + of_nat k) = 0"
  proof (cases "m edi = 0")
    case True
    then show ?thesis by (intro exI [of _ 0]) simp
  next
    case False
    with body have "scan m (edi + 1) (ecx - 1) = Some r" by (simp add: Let_def)
    from ih [OF this] obtain k where "m (edi + 1 + of_nat k) = 0" ..
    then show ?thesis by (intro exI [of _ "Suc k"]) (simp add: add.assoc)
  qed
qed

lemma strrchr_end_returns:
  assumes "strrchr_end m p len = Some r"
  shows "\<exists>k. m (p + of_nat k) = 0"
  using assms
proof (rule strrchr_end.raw_induct [where P = "\<lambda>m p len r. \<exists>k. m (p + of_nat k) = 0", rotated])
  fix scan :: "mem \<Rightarrow> u32 \<Rightarrow> u32 \<Rightarrow> (u32 \<times> u32) option" and m p len r
  assume ih: "\<And>m p len r. scan m p len = Some r \<Longrightarrow> \<exists>k. m (p + of_nat k) = 0"
    and body: "(let b = m p; p = p + 1; len = len + 1 in if b = 0 then Some (p, len) else scan m p len) = Some r"
  show "\<exists>k. m (p + of_nat k) = 0"
  proof (cases "m p = 0")
    case True
    then show ?thesis by (intro exI [of _ 0]) simp
  next
    case False
    with body have "scan m (p + 1) (len + 1) = Some r" by (simp add: Let_def)
    from ih [OF this] obtain k where "m (p + 1 + of_nat k) = 0" ..
    then show ?thesis by (intro exI [of _ "Suc k"]) (simp add: add.assoc)
  qed
qed

lemma strchr_returns:
  assumes "strchr_loop m needle p = Some r"
  shows "\<exists>k. m (p + of_nat k) = needle \<or> m (p + of_nat k) = 0"
  using assms
proof (rule strchr_loop.raw_induct [where P = "\<lambda>m needle p r. \<exists>k. m (p + of_nat k) = needle \<or> m (p + of_nat k) = 0", rotated])
  fix scan :: "mem \<Rightarrow> u8 \<Rightarrow> u32 \<Rightarrow> u32 option" and m needle p r
  assume ih: "\<And>m needle p r. scan m needle p = Some r \<Longrightarrow> \<exists>k. m (p + of_nat k) = needle \<or> m (p + of_nat k) = 0"
    and body: "(let b = m p in if b = needle then Some p else if b = 0 then Some 0 else scan m needle (p + 1)) = Some r"
  show "\<exists>k. m (p + of_nat k) = needle \<or> m (p + of_nat k) = 0"
  proof (cases "m p = needle \<or> m p = 0")
    case True
    then show ?thesis by (intro exI [of _ 0]) simp
  next
    case False
    with body have "scan m needle (p + 1) = Some r" by (simp add: Let_def)
    from ih [OF this] obtain k where "m (p + 1 + of_nat k) = needle \<or> m (p + 1 + of_nat k) = 0" ..
    then show ?thesis by (intro exI [of _ "Suc k"]) (simp add: add.assoc)
  qed
qed

text \<open>All three step a pointer, two of them with a counter beside it.\<close>

lemma funpow_pointer: "((\<lambda>p. p + 1) ^^ k) p = p + of_nat k" for p :: u32
  by (induction k) (simp_all add: algebra_simps)

lemma funpow_counter: "((\<lambda>(p, c). (p + 1, c + d)) ^^ k) (p, c) = (p + of_nat k, c + of_nat k * d)" for p c d :: u32
  by (induction k) (simp_all add: algebra_simps)

interpretation length_walk: list_walk "\<lambda>(edi, ecx). strlen_loop m edi ecx" "\<lambda>(edi, ecx). (edi + 1, ecx + - 1)"
  "\<lambda>(edi, ecx). m edi = 0" "\<lambda>(edi, ecx). ecx - 1" for m
proof
  fix n :: "u32 \<times> u32" and r
  show "(case n of (edi, ecx) \<Rightarrow> strlen_loop m edi ecx) =
      (if case n of (edi, ecx) \<Rightarrow> m edi = 0 then Some (case n of (edi, ecx) \<Rightarrow> ecx - 1)
       else case case n of (edi, ecx) \<Rightarrow> (edi + 1, ecx + - 1) of (edi, ecx) \<Rightarrow> strlen_loop m edi ecx)"
    by (cases n) (subst strlen_loop.simps, simp add: Let_def)
  assume "(case n of (edi, ecx) \<Rightarrow> strlen_loop m edi ecx) = Some r"
  then have "\<exists>k. m (fst n + of_nat k) = 0" by (cases n) (auto dest: strlen_returns)
  then show "\<exists>k. case ((\<lambda>(edi, ecx). (edi + 1, ecx + - 1)) ^^ k) n of (edi, ecx) \<Rightarrow> m edi = 0"
    by (cases n) (simp only: funpow_counter prod.case fst_conv)
qed

interpretation end_walk: list_walk "\<lambda>(p, len). strrchr_end m p len" "\<lambda>(p, len). (p + 1, len + 1)"
  "\<lambda>(p, len). m p = 0" "\<lambda>(p, len). (p + 1, len + 1)" for m
proof
  fix n :: "u32 \<times> u32" and r
  show "(case n of (p, len) \<Rightarrow> strrchr_end m p len) =
      (if case n of (p, len) \<Rightarrow> m p = 0 then Some (case n of (p, len) \<Rightarrow> (p + 1, len + 1))
       else case case n of (p, len) \<Rightarrow> (p + 1, len + 1) of (p, len) \<Rightarrow> strrchr_end m p len)"
    by (cases n) (subst strrchr_end.simps, simp add: Let_def)
  assume "(case n of (p, len) \<Rightarrow> strrchr_end m p len) = Some r"
  then have "\<exists>k. m (fst n + of_nat k) = 0" by (cases n) (auto dest: strrchr_end_returns)
  then show "\<exists>k. case ((\<lambda>(p, len). (p + 1, len + 1)) ^^ k) n of (p, len) \<Rightarrow> m p = 0"
    by (cases n) (simp only: funpow_counter prod.case fst_conv)
qed

interpretation char_walk: list_walk "strchr_loop m needle" "\<lambda>p. p + 1" "\<lambda>p. m p = needle \<or> m p = 0"
  "\<lambda>p. if m p = needle then p else 0" for m needle
proof
  fix p r
  show "strchr_loop m needle p = (if m p = needle \<or> m p = 0 then Some (if m p = needle then p else 0) else strchr_loop m needle (p + 1))"
    by (subst strchr_loop.simps) (simp add: Let_def)
  assume "strchr_loop m needle p = Some r"
  then show "\<exists>k. m (((\<lambda>p. p + 1) ^^ k) p) = needle \<or> m (((\<lambda>p. p + 1) ^^ k) p) = 0"
    unfolding funpow_pointer by (rule strchr_returns)
qed

text \<open>A string of \<open>k\<close> bytes at \<open>s\<close>, ended by its first zero byte.\<close>

definition cstr :: "mem \<Rightarrow> u32 \<Rightarrow> nat \<Rightarrow> bool" where
  "cstr m s k \<longleftrightarrow> m (s + of_nat k) = 0 \<and> (\<forall>j < k. m (s + of_nat j) \<noteq> 0) \<and> Suc k < 2 ^ 32"

lemma strlen_eq:
  assumes "cstr m s k"
  shows "strlen m s = Some (of_nat k)"
proof -
  have "strlen_loop m s (0 - 1) = Some (- 1 + of_nat k * - 1 - 1)"
    using length_walk.walk_reaches [of m k "(s, 0 - 1)"] assms unfolding funpow_counter cstr_def by simp
  then show ?thesis by (simp add: strlen_def not_eq_complement)
qed

lemma strlen_returns_iff: "(\<exists>r. strlen m s = Some r) \<longleftrightarrow> (\<exists>x. m x = 0)"
proof -
  have "(\<exists>r. strlen m s = Some r) \<longleftrightarrow> (\<exists>k. m (s + of_nat k) = 0)"
    using length_walk.walk_returns_iff [of m "(s, 0 - 1)"] unfolding funpow_counter by (simp add: strlen_def)
  also have "\<dots> \<longleftrightarrow> (\<exists>x. m x = 0)"
  proof
    assume "\<exists>x. m x = 0"
    then obtain x where "m x = 0" ..
    then show "\<exists>k. m (s + of_nat k) = 0" by (intro exI [of _ "unat (x - s)"]) simp
  qed blast
  finally show ?thesis .
qed

lemma strchr_eq:
  assumes "cstr m s k"
  shows "strchr m s c = Some (case find (\<lambda>i. m (s + of_nat i) = ucast c) [0..<Suc k] of Some i \<Rightarrow> s + of_nat i | None \<Rightarrow> 0)"
proof (cases "find (\<lambda>i. m (s + of_nat i) = ucast c) [0..<Suc k]")
  case None
  then have none: "m (s + of_nat i) \<noteq> ucast c" if "i < Suc k" for i using that unfolding find_None_iff set_upt atLeastLessThan_iff by blast
  have "strchr_loop m (ucast c) s = Some (if m (s + of_nat k) = ucast c then s + of_nat k else 0)"
    using char_walk.walk_reaches [where m = m and needle = "ucast c" and k = k and n = s] none assms unfolding funpow_pointer cstr_def by simp
  with none [of k] None show ?thesis by (simp add: strchr_def)
next
  case (Some i)
  then have i: "i \<le> k" "m (s + of_nat i) = ucast c" "\<forall>j < i. m (s + of_nat j) \<noteq> ucast c"
    unfolding find_upt_Some by auto
  then have "strchr_loop m (ucast c) s = Some (if m (s + of_nat i) = ucast c then s + of_nat i else 0)"
    using char_walk.walk_reaches [where m = m and needle = "ucast c" and k = i and n = s] assms unfolding funpow_pointer cstr_def by simp
  with i(2) Some show ?thesis by (simp add: strchr_def)
qed

lemma strrchr_back_eq: "Suc k < 2 ^ 32 \<Longrightarrow> strrchr_back m needle (s + of_nat k) (of_nat (Suc k)) =
    (case find (\<lambda>i. m (s + of_nat i) = needle) (rev [0..<Suc k]) of Some i \<Rightarrow> s + of_nat i | None \<Rightarrow> 0)"
proof (induction k)
  case 0
  show ?case by (subst strrchr_back.simps) simp
next
  case (Suc k)
  have "unat (of_nat (Suc (Suc k)) :: u32) = Suc (Suc k)" "unat (of_nat (Suc k) :: u32) = Suc k"
    using Suc.prems by (simp_all add: unat_of_nat_u32 del: of_nat_Suc)
  then have "(of_nat (Suc (Suc k)) :: u32) \<noteq> 0" "(of_nat (Suc k) :: u32) \<noteq> 0" by (auto simp del: of_nat_Suc)
  moreover have "(of_nat (Suc (Suc k)) :: u32) - 1 = of_nat (Suc k)" "s + of_nat (Suc k) - 1 = s + of_nat k" by simp_all
  moreover have "Suc k < 2 ^ 32" using Suc.prems by simp
  note Suc.IH [OF this]
  moreover have "rev [0..<Suc (Suc k)] = Suc k # rev [0..<Suc k]" by simp
  ultimately show ?case
    by (subst strrchr_back.simps) (simp only: if_False find.simps option.case split: if_split, simp)
qed

lemma strrchr_eq:
  assumes "cstr m s k"
  shows "strrchr m s c = Some (case find (\<lambda>i. m (s + of_nat i) = ucast c) (rev [0..<Suc k]) of Some i \<Rightarrow> s + of_nat i | None \<Rightarrow> 0)"
proof -
  have "strrchr_end m s 0 = Some (s + of_nat k + 1, of_nat k + 1)"
    using end_walk.walk_reaches [of m k "(s, 0)"] assms unfolding funpow_counter cstr_def by simp
  moreover have "Suc k < 2 ^ 32" using assms by (simp add: cstr_def)
  note strrchr_back_eq [OF this, of m "ucast c" s]
  ultimately show ?thesis by (simp add: strrchr_def add.commute del: upt_Suc)
qed

text \<open>C31: The string scans against the bytes of the string. The length is the number of bytes before the first zero,
  the forward search returns the address of the first and the backward search that of the last byte
  equal to the low byte of the key, the terminator included, and zero when there is none. A scan
  returns from every memory that holds a zero byte at all.\<close>

theorem cstring_scans:
  "(\<exists>r. strlen m s = Some r) = (\<exists>x. m x = 0)
   \<and> (cstr m s k \<longrightarrow>
        strlen m s = Some (of_nat k)
        \<and> strchr m s c = Some (case find (\<lambda>i. m (s + of_nat i) = ucast c) [0..<Suc k] of Some i \<Rightarrow> s + of_nat i | None \<Rightarrow> 0)
        \<and> strrchr m s c = Some (case find (\<lambda>i. m (s + of_nat i) = ucast c) (rev [0..<Suc k]) of Some i \<Rightarrow> s + of_nat i | None \<Rightarrow> 0))"
  by (intro conjI impI strlen_returns_iff strlen_eq strchr_eq strrchr_eq)

theorem cstring_scans_witness: "strlen (put_bytes 0x100 [65, 66, 65, 0] (\<lambda>_. 1)) 0x100 = Some 3
    \<and> strchr (put_bytes 0x100 [65, 66, 65, 0] (\<lambda>_. 1)) 0x100 65 = Some 0x100
    \<and> strrchr (put_bytes 0x100 [65, 66, 65, 0] (\<lambda>_. 1)) 0x100 65 = Some 0x102"
proof -
  let ?m = "put_bytes 0x100 [65, 66, 65, 0] (\<lambda>_. 1)"
  have "?m (0x100 + of_nat i) = [65, 66, 65, 0] ! i" if "i < 4" for i
    using that by (intro put_bytes_nth) simp_all
  from this [of 0] this [of 1] this [of 2] this [of 3]
  have b: "?m 0x100 = 65" "?m 0x101 = 66" "?m 0x102 = 65" "?m 0x103 = 0" by simp_all
  then have "cstr ?m 0x100 3" by (simp add: cstr_def less_Suc_eq numeral_eq_Suc [of "num.One"] numeral_3_eq_3)
  moreover have "[0..<Suc 3] = [0, 1, 2, 3]" by (simp add: upt_rec)
  ultimately show ?thesis using cstring_scans [of ?m "0x100" 3 65] b by (simp del: put_bytes.simps)
qed

section \<open>Comparison\<close>

lemma strncmp_loop_eq:
  assumes "n \<noteq> 0"
  shows "strncmp_loop m p1 p2 n =
    (let xs = takeWhile (\<lambda>b. b \<noteq> 0) (mem_bytes m p1 (unat n)); ys = takeWhile (\<lambda>b. b \<noteq> 0) (mem_bytes m p2 (unat n))
     in if xs = ys then 0 else if ord_class.lexordp xs ys then - 1 else 1)"
  using assms
proof (induction m p1 p2 n rule: strncmp_loop.induct)
  case (1 m p1 p2 n)
  obtain k where k: "unat n = Suc k" using 1(2) by (metis not0_implies_Suc unat_eq_0)
  have k1: "unat (n - 1) = k" using unat_dec [OF 1(2)] k by simp
  show ?case
  proof (cases "m p1 = m p2 \<and> m p1 \<noteq> 0 \<and> n - 1 \<noteq> 0")
    case True
    with 1(1) [OF refl refl] k k1 show ?thesis
      by (subst strncmp_loop.simps) (simp add: Let_def)
  next
    case False
    then consider "m p1 \<noteq> m p2" | "m p1 = m p2" "m p1 = 0" | "m p1 = m p2" "m p1 \<noteq> 0" "n = 1" by fastforce
    then show ?thesis
    proof cases
      case 1
      then show ?thesis using word_neq_0_conv
        by (subst strncmp_loop.simps) (auto simp: Let_def k not_less word_gt_0)
    next
      case 2
      then show ?thesis by (subst strncmp_loop.simps) (simp add: Let_def k)
    next
      case 3
      then have "k = 0" using k1 by simp
      with 3 k show ?thesis by (subst strncmp_loop.simps) (simp add: Let_def)
    qed
  qed
qed

text \<open>C30: The bounded comparison is the lexicographic order on the two strings, each cut at its first zero byte and
  at \<open>n\<close> bytes, with bytes compared as unsigned numbers.\<close>

theorem strncmp_lexicographic:
  "strncmp m s1 s2 n =
    (let xs = takeWhile (\<lambda>b. b \<noteq> 0) (mem_bytes m s1 (unat n)); ys = takeWhile (\<lambda>b. b \<noteq> 0) (mem_bytes m s2 (unat n))
     in if xs = ys then 0 else if ord_class.lexordp xs ys then - 1 else 1)"
  by (simp add: strncmp_def strncmp_loop_eq)

section \<open>Copies\<close>

text \<open>A forward copy reads every byte before it is overwritten when the target does not start inside the source behind
  its first byte.\<close>

definition forward_ok :: "u32 \<Rightarrow> u32 \<Rightarrow> nat \<Rightarrow> bool" where
  "forward_ok from to n \<longleftrightarrow> to = from \<or> n \<le> unat (to - from)"

lemma forward_unread:
  assumes "forward_ok from to n" and "i < j" and "j < n" and "n \<le> 2 ^ 32"
  shows "from + of_nat j \<noteq> to + of_nat i"
proof
  assume "from + of_nat j = to + of_nat i"
  then have "to - from = of_nat j - of_nat i" by (simp add: algebra_simps)
  also have "\<dots> = of_nat (j - i)" using assms(2) by (simp add: of_nat_diff)
  finally have "unat (to - from) = unat (of_nat (j - i) :: u32)" by (simp only:)
  then have "unat (to - from) = j - i" using assms(2-4) by (simp only:) (rule unat_of_nat_u32, simp)
  moreover have "to = from \<Longrightarrow> unat (to - from) = 0" by simp
  ultimately show False using assms(1-3) unfolding forward_ok_def by linarith
qed

lemma forward_step: "forward_ok from to n \<Longrightarrow> k \<le> n \<Longrightarrow> forward_ok (from + d) (to + d) k"
  by (auto simp: forward_ok_def)

lemma forward_source_kept:
  assumes "forward_ok from to (length bs + n)" and "length bs + n \<le> 2 ^ 32"
  shows "mem_bytes (put_bytes to bs m) (from + of_nat (length bs)) n = mem_bytes m (from + of_nat (length bs)) n"
proof (rule mem_bytes_cong)
  fix i assume "i < n"
  have "from + of_nat (length bs + i) \<noteq> to + of_nat j" if "j < length bs" for j
    using that \<open>i < n\<close> assms by (intro forward_unread) simp_all
  then have "put_bytes to bs m (from + of_nat (length bs + i)) = m (from + of_nat (length bs + i))"
    by (intro put_bytes_other)
  then show "put_bytes to bs m (from + of_nat (length bs) + of_nat i) = m (from + of_nat (length bs) + of_nat i)"
    by (simp add: add.assoc)
qed

lemma copy_split:
  assumes "forward_ok from to (i + j)" and "i + j \<le> 2 ^ 32"
  shows "put_bytes (to + of_nat i) (mem_bytes (put_bytes to (mem_bytes m from i) m) (from + of_nat i) j) (put_bytes to (mem_bytes m from i) m)
    = put_bytes to (mem_bytes m from (i + j)) m"
  using forward_source_kept [of "from" to "mem_bytes m from i" j m] assms by (simp add: mem_bytes_append put_bytes_append)

lemma store_load_put: "store_u32 edi (load_u32 m esi) m = put_bytes edi (mem_bytes m esi 4) m"
proof -
  have "mem_bytes m esi (Suc (Suc (Suc (Suc 0)))) = [m esi, m (esi + 1), m (esi + 2), m (esi + 3)]" by (simp add: add.assoc)
  moreover have "Suc (Suc (Suc (Suc 0))) = 4" by simp
  ultimately have b: "mem_bytes m esi 4 = [m esi, m (esi + 1), m (esi + 2), m (esi + 3)]" by (simp only:)
  show ?thesis unfolding b store_u32_def load_u32_def by (simp add: byte_simps add.assoc)
qed

lemma memmove_bytes_eq: "forward_ok esi edi (unat ecx) \<Longrightarrow> memmove_bytes esi edi ecx m = put_bytes edi (mem_bytes m esi (unat ecx)) m"
proof (induction esi edi ecx m rule: memmove_bytes.induct)
  case (1 esi edi ecx m)
  show ?case
  proof (cases "ecx = 0")
    case True
    then show ?thesis by (subst memmove_bytes.simps) simp
  next
    case False
    then have k: "unat ecx = 1 + unat (ecx - 1)" using unat_dec [OF False] by (simp add: unat_gt_0)
    have "forward_ok (esi + 1) (edi + 1) (unat (ecx - 1))" by (rule forward_step [OF 1(2)]) (use k in linarith)
    then have "memmove_bytes esi edi ecx m = put_bytes (edi + 1) (mem_bytes (m(edi := m esi)) (esi + 1) (unat (ecx - 1))) (m(edi := m esi))"
      using 1(1) [OF False] False by (subst memmove_bytes.simps) (simp add: fun_upd_def)
    also have "\<dots> = put_bytes edi (mem_bytes m esi (1 + unat (ecx - 1))) m"
      using copy_split [of esi edi 1 "unat (ecx - 1)" m] 1(2) less_imp_le [OF unat_u32 [of ecx]] k by simp
    finally show ?thesis by (simp only: k)
  qed
qed

lemma memmove_dwords_eq:
  assumes "4 * unat n \<le> 2 ^ 32" and "forward_ok esi edi (4 * unat n)"
  shows "memmove_dwords esi edi n m = (esi + 4 * n, edi + 4 * n, put_bytes edi (mem_bytes m esi (4 * unat n)) m)"
  using assms
proof (induction esi edi n m rule: memmove_dwords.induct)
  case (1 esi edi n m)
  show ?case
  proof (cases "n = 0")
    case True
    then show ?thesis by (subst memmove_dwords.simps) simp
  next
    case False
    then have "unat n = Suc (unat (n - 1))" using unat_dec [OF False] by (simp add: unat_gt_0)
    then have k: "4 * unat n = 4 + 4 * unat (n - 1)" by simp
    have "forward_ok (esi + 4) (edi + 4) (4 * unat (n - 1))" by (rule forward_step [OF 1(3)]) (use k in linarith)
    then have "memmove_dwords esi edi n m = (esi + 4 + 4 * (n - 1), edi + 4 + 4 * (n - 1),
        put_bytes (edi + 4) (mem_bytes (put_bytes edi (mem_bytes m esi 4) m) (esi + 4) (4 * unat (n - 1))) (put_bytes edi (mem_bytes m esi 4) m))"
      using 1(1) [OF False] 1(2) k False by (subst memmove_dwords.simps) (simp add: store_load_put Let_def)
    moreover have "put_bytes (edi + 4) (mem_bytes (put_bytes edi (mem_bytes m esi 4) m) (esi + 4) (4 * unat (n - 1))) (put_bytes edi (mem_bytes m esi 4) m)
        = put_bytes edi (mem_bytes m esi (4 + 4 * unat (n - 1))) m"
      using copy_split [of esi edi 4 "4 * unat (n - 1)" m] 1(2,3) k by simp
    ultimately show ?thesis unfolding k by (simp add: right_diff_distrib)
  qed
qed

lemma memmove_eq:
  assumes "0 < sint n" and "forward_ok from to (unat n)"
  shows "memmove from to n m = put_bytes to (mem_bytes m from (unat n)) m"
proof (cases "n AND NOT 3 = 0")
  case True
  then show ?thesis using assms by (simp add: memmove_def memmove_bytes_eq)
next
  case False
  define q r where "q = drop_bit 2 n" and "r = n AND 3"
  have q: "unat q = unat n div 4" by (simp add: q_def unat_drop)
  have r: "unat r = unat n mod 4" using of_nat_and_3 [of "unat n"] by (simp add: r_def unat_of_nat)
  have n: "unat n = 4 * unat q + unat r" by (simp add: q r)
  have le: "4 * unat q + unat r \<le> 2 ^ 32" using unat_u32 [of n] unfolding n by simp
  have fq: "forward_ok from to (4 * unat q)" and fr: "forward_ok (from + 4 * q) (to + 4 * q) (unat r)"
    using forward_step [OF assms(2), of "4 * unat q" 0] forward_step [OF assms(2), of "unat r" "4 * q"] n by simp_all
  let ?m = "put_bytes to (mem_bytes m from (4 * unat q)) m"
  have d: "memmove_dwords from to q m = (from + 4 * q, to + 4 * q, ?m)"
    using le fq by (intro memmove_dwords_eq) simp_all
  have "memmove from to n m = (if r = 0 then ?m else memmove_bytes (from + 4 * q) (to + 4 * q) r ?m)"
    using assms(1) False d by (simp add: memmove_def q_def r_def)
  also have "\<dots> = put_bytes (to + 4 * q) (mem_bytes ?m (from + 4 * q) (unat r)) ?m"
    using memmove_bytes_eq [OF fr, of ?m] by simp
  also have "\<dots> = put_bytes to (mem_bytes m from (unat n)) m"
    using copy_split [of "from" to "4 * unat q" "unat r" m] assms(2) le unfolding n [symmetric] by simp
  finally show ?thesis .
qed

text \<open>C29: The forward block move copies like the C function whenever the target does not start inside the source behind its first
  byte, also when it overlaps the source from below by less than a dword: the target then holds the bytes the
  source had before, and no other byte changes. A count that is zero or negative as a signed
  number moves nothing.\<close>

theorem memmove_copies:
  "(sint n \<le> 0 \<longrightarrow> memmove from to n m = m)
   \<and> (0 < sint n \<longrightarrow> to = from \<or> unat n \<le> unat (to - from) \<longrightarrow>
        mem_bytes (memmove from to n m) to (unat n) = mem_bytes m from (unat n)
        \<and> {x. memmove from to n m x \<noteq> m x} \<subseteq> {x. unat (x - to) < unat n})"
proof (intro conjI impI)
  assume "sint n \<le> 0"
  then show "memmove from to n m = m" by (simp add: memmove_def)
next
  assume a: "0 < sint n" "to = from \<or> unat n \<le> unat (to - from)"
  have l: "length (mem_bytes m from (unat n)) \<le> 2 ^ 32" using unat_u32 [of n] by (simp add: less_imp_le)
  note e = memmove_eq [OF a(1), unfolded forward_ok_def, OF a(2), of m]
  show "mem_bytes (memmove from to n m) to (unat n) = mem_bytes m from (unat n)"
    unfolding e using mem_bytes_put_bytes [OF l, of to m] by simp
  show "{x. memmove from to n m x \<noteq> m x} \<subseteq> {x. unat (x - to) < unat n}"
    unfolding e put_bytes_at [OF l] by auto
qed

theorem memmove_copies_witness:
  "mem_bytes (memmove 0x1001 0x1000 7 (\<lambda>x. ucast x)) 0x1000 7 = mem_bytes (\<lambda>x. ucast x) 0x1001 7"
proof -
  have "0 < sint (7 :: u32)" "unat (7 :: u32) \<le> unat (0x1000 - 0x1001 :: u32)"
    by (simp_all add: unsigned_minus_1_eq_mask mask_eq_exp_minus_1)
  then show ?thesis using memmove_copies [of 7 "0x1001" "0x1000" "\<lambda>x. ucast x"] by simp
qed

text \<open>The bounded copy fills the whole window: the string, then zeros.\<close>

definition c_pad :: "u8 list \<Rightarrow> u8 list" where
  "c_pad bs = (let s = takeWhile (\<lambda>b. b \<noteq> 0) bs in s @ replicate (length bs - length s) 0)"

lemma c_pad_simps: "c_pad [] = []" "c_pad (b # bs) = (if b = 0 then replicate (Suc (length bs)) 0 else b # c_pad bs)"
  by (simp_all add: c_pad_def Let_def)

lemma strncpy_loop_eq:
  assumes "forward_ok s2 s1 (unat n)" and "i \<le> n"
  shows "strncpy_loop s1 s2 n i saw m = put_bytes (s1 + i)
    (if saw then replicate (unat n - unat i) 0 else c_pad (mem_bytes m (s2 + i) (unat n - unat i))) m"
  using assms
proof (induction s1 s2 n i saw m rule: strncpy_loop.induct)
  case (1 s1 s2 n i saw m)
  show ?case
  proof (cases "i < n")
    case False
    with 1(3) have "i = n" by simp
    then show ?thesis by (subst strncpy_loop.simps) (simp add: c_pad_simps)
  next
    case True
    have i: "unat (i + 1) = Suc (unat i)" by (rule unat_inc_less [OF True])
    then have k: "unat n - unat i = Suc (unat n - unat (i + 1))" using True by (simp add: word_less_nat_alt)
    have le: "i + 1 \<le> n" using True i by (simp add: word_le_nat_alt word_less_nat_alt)
    have "s2 + (i + 1) + of_nat j \<noteq> s1 + i" if "j < unat n - unat (i + 1)" for j
      using forward_unread [OF 1(2), of "unat i" "unat (i + 1) + j"] that i less_imp_le [OF unat_u32 [of n]] by (simp add: algebra_simps)
    then have kept: "mem_bytes (m(s1 + i := b)) (s2 + (i + 1)) (unat n - unat (i + 1)) = mem_bytes m (s2 + (i + 1)) (unat n - unat (i + 1))" for b
      by (intro mem_bytes_cong) simp
    define b where "b = (if saw then 0 else m (s2 + i))"
    have step: "strncpy_loop s1 s2 n i saw m = strncpy_loop s1 s2 n (i + 1) (saw \<or> b = 0) (m(s1 + i := b))"
      using True by (subst strncpy_loop.simps) (simp add: b_def Let_def)
    have ih: "strncpy_loop s1 s2 n (i + 1) (saw \<or> b = 0) (m(s1 + i := b)) = put_bytes (s1 + (i + 1))
        (if saw \<or> b = 0 then replicate (unat n - unat (i + 1)) 0 else c_pad (mem_bytes (m(s1 + i := b)) (s2 + (i + 1)) (unat n - unat (i + 1))))
        (m(s1 + i := b))"
      by (rule 1(1) [OF True _ refl 1(2) le]) (simp add: b_def Let_def)
    show ?thesis unfolding step ih kept k by (auto simp: b_def c_pad_simps add.assoc)
  qed
qed

lemma strncpy_fills:
  assumes "s1 = s2 \<or> unat n \<le> unat (s1 - s2)"
  shows "strncpy s1 s2 n m = (s1, put_bytes s1 (c_pad (mem_bytes m s2 (unat n))) m)"
  using strncpy_loop_eq [of s2 s1 n 0 False m] assms by (simp add: strncpy_def forward_ok_def)

end
