(* ===== verification/Coff.thy ===== *)
theory Coff
  imports Cstrings
begin

text \<open>
  The loader leaves for COFF libraries: \<^verbatim>\<open>coff_get_align.rs\<close>, \<^verbatim>\<open>get_coff_sym.rs\<close>, \<^verbatim>\<open>get_proc_ex.rs\<close>,
  \<^verbatim>\<open>fix_coff_symbols.rs\<close>, \<^verbatim>\<open>coff_reloc.rs\<close> and \<^verbatim>\<open>rebase_coff.rs\<close>. Pointers are 32-bit addresses of the flat memory and
  every address computation wraps. The two relocation passes share a contract, \<open>reloc_walk\<close>: a walk over
  sections and their relocations that adds a number to a dword per relocation. From it follows that
  the walk is the sum of its patches as long as no patch hits the tables it reads.
\<close>

unbundle bit_operations_syntax

section \<open>Sections and symbols\<close>

definition OFF_CHARACTERISTICS :: u32 where "OFF_CHARACTERISTICS = 36"
definition ALIGN_EXP_DEFAULT :: u32 where "ALIGN_EXP_DEFAULT = 12"

definition coff_get_align_from_characteristics :: "u32 \<Rightarrow> u32" where
  "coff_get_align_from_characteristics characteristics =
     (let cl = drop_bit 4 (drop_bit 16 characteristics AND 0xff);
          cl = (if cl = 0 then ALIGN_EXP_DEFAULT
                else let cl = cl - 1 in if cl > ALIGN_EXP_DEFAULT then ALIGN_EXP_DEFAULT else cl)
      in push_bit (unat cl) 1 - 1)"

definition coff_get_align_ptr :: "mem \<Rightarrow> u32 \<Rightarrow> u32" where
  "coff_get_align_ptr m section = coff_get_align_from_characteristics (load_u32 m (section + OFF_CHARACTERISTICS))"

definition COFF_SYM_SIZE :: u32 where "COFF_SYM_SIZE = 18"
definition COFF_SYM_NAME_LEN :: u32 where "COFF_SYM_NAME_LEN = 8"
definition OFF_SYM_VALUE :: u32 where "OFF_SYM_VALUE = 8"

function name_eq_loop :: "mem \<Rightarrow> u32 \<Rightarrow> u32 \<Rightarrow> u32 \<Rightarrow> u32 \<Rightarrow> bool" where
  "name_eq_loop m a b n i =
     (let ca = m (a + i); cb = m (b + i)
      in if ca \<noteq> cb then False
         else if ca = 0 then True
         else let i = i + 1 in if i = n then True else name_eq_loop m a b n i)"
  by pat_completeness auto
termination
proof (relation "measure (\<lambda>(_, _, _, n, i). unat (n - i - 1))")
  fix m a b n i and i' :: u32
  assume "i' = i + 1" "i' \<noteq> n"
  then have "n - i - 1 \<noteq> 0" by (auto simp: algebra_simps)
  then have "unat (n - i - 1 - 1) < unat (n - i - 1)" by (rule unat_dec_less)
  then show "((m, a, b, n, i'), (m, a, b, n, i)) \<in> measure (\<lambda>(_, _, _, n, i). unat (n - i - 1))"
    using \<open>i' = i + 1\<close> by (simp add: algebra_simps)
qed simp

declare name_eq_loop.simps [simp del]

definition name_eq_n_ptr :: "mem \<Rightarrow> u32 \<Rightarrow> u32 \<Rightarrow> u32 \<Rightarrow> bool" where
  "name_eq_n_ptr m a b n \<longleftrightarrow> n = 0 \<or> name_eq_loop m a b n 0"

function get_coff_sym :: "mem \<Rightarrow> u32 \<Rightarrow> u32 \<Rightarrow> u32 \<Rightarrow> u32" where
  "get_coff_sym m p_sym count sz_sym =
     (if name_eq_n_ptr m p_sym sz_sym COFF_SYM_NAME_LEN then load_u32 m (p_sym + OFF_SYM_VALUE)
      else if count - 1 = 0 then 0
      else get_coff_sym m (p_sym + COFF_SYM_SIZE) (count - 1) sz_sym)"
  by pat_completeness auto
termination
  by (relation "measure (\<lambda>(_, _, count, _). unat (count - 1))") (auto intro!: unat_dec2_less)

declare get_coff_sym.simps [simp del]

definition get_coff_sym_ptr :: "mem \<Rightarrow> u32 \<Rightarrow> u32 \<Rightarrow> u32 \<Rightarrow> u32" where
  "get_coff_sym_ptr m p_sym count sz_sym = get_coff_sym m p_sym count sz_sym"

section \<open>Exports\<close>

definition OS_BASE :: u32 where "OS_BASE = 0x80000000"
definition OFF_NUMBER_OF_NAMES :: u32 where "OFF_NUMBER_OF_NAMES = 24"
definition OFF_ADDRESS_OF_FUNCTIONS :: u32 where "OFF_ADDRESS_OF_FUNCTIONS = 28"
definition OFF_ADDRESS_OF_NAMES :: u32 where "OFF_ADDRESS_OF_NAMES = 32"
definition NAME_CMP_LEN :: u32 where "NAME_CMP_LEN = 256"

definition read_rva_entry :: "mem \<Rightarrow> u32 \<Rightarrow> u32 \<Rightarrow> u32 \<Rightarrow> u32" where
  "read_rva_entry m os_base table_rva index = load_u32 m (os_base + table_rva + index * 4)"

function get_proc_loop :: "mem \<Rightarrow> u32 \<Rightarrow> u32 \<Rightarrow> u32 \<Rightarrow> u32 \<Rightarrow> u32 \<Rightarrow> u32 \<Rightarrow> u32" where
  "get_proc_loop m proc_name os_base number_of_names names_rva funcs_rva esi =
     (let name_rva = read_rva_entry m os_base names_rva esi;
          name_ptr = os_base + name_rva
      in if name_eq_n_ptr m name_ptr proc_name NAME_CMP_LEN then
           os_base + read_rva_entry m os_base funcs_rva esi
         else let esi = esi + 1
              in if esi \<ge> number_of_names then 0
                 else get_proc_loop m proc_name os_base number_of_names names_rva funcs_rva esi)"
  by pat_completeness auto
termination
proof (relation "measure (\<lambda>(_, _, _, n, _, _, esi). unat (n - 1 - esi))")
  fix m proc_name os_base n names_rva funcs_rva and esi esi' :: u32
  assume "esi' = esi + 1" "\<not> esi' \<ge> n"
  then have "n - 1 - esi \<noteq> 0" by (auto simp: algebra_simps)
  then have "unat (n - 1 - esi - 1) < unat (n - 1 - esi)" by (rule unat_dec_less)
  then show "((m, proc_name, os_base, n, names_rva, funcs_rva, esi'), (m, proc_name, os_base, n, names_rva, funcs_rva, esi))
      \<in> measure (\<lambda>(_, _, _, n, _, _, esi). unat (n - 1 - esi))"
    using \<open>esi' = esi + 1\<close> by (simp add: algebra_simps)
qed simp

declare get_proc_loop.simps [simp del]

definition get_proc_ex_with_base :: "mem \<Rightarrow> u32 \<Rightarrow> u32 \<Rightarrow> u32 \<Rightarrow> u32" where
  "get_proc_ex_with_base m proc_name imports os_base =
     (if imports = 0 then 0
      else let number_of_names = load_u32 m (imports + OFF_NUMBER_OF_NAMES);
               names_rva = load_u32 m (imports + OFF_ADDRESS_OF_NAMES);
               funcs_rva = load_u32 m (imports + OFF_ADDRESS_OF_FUNCTIONS)
           in get_proc_loop m proc_name os_base number_of_names names_rva funcs_rva 0)"

definition get_proc_ex :: "mem \<Rightarrow> u32 \<Rightarrow> u32 \<Rightarrow> u32" where
  "get_proc_ex m proc_name imports = get_proc_ex_with_base m proc_name imports OS_BASE"

definition get_proc_ex_ptr :: "mem \<Rightarrow> u32 \<Rightarrow> u32 \<Rightarrow> u32" where
  "get_proc_ex_ptr m proc_name imports = get_proc_ex m proc_name imports"

section \<open>Symbol table\<close>

definition COFF_SECTION_SIZE :: u32 where "COFF_SECTION_SIZE = 40"
definition OFF_SEC_VIRTUAL_ADDRESS :: u32 where "OFF_SEC_VIRTUAL_ADDRESS = 12"
definition OFF_SYM_SECTION :: u32 where "OFF_SYM_SECTION = 12"

definition section_ptr :: "u32 \<Rightarrow> u16 \<Rightarrow> u32" where
  "section_ptr sec section_num = sec + (ucast section_num - 1) * COFF_SECTION_SIZE"

text \<open>The callback is an argument: it gets the memory, the name and the import table, and returns the address and the memory.\<close>

type_synonym GetProcExFn = "u32 \<Rightarrow> u32 \<Rightarrow> mem \<Rightarrow> u32 \<times> mem"

function fix_symbols_loop :: "GetProcExFn \<Rightarrow> u32 \<Rightarrow> u32 \<Rightarrow> u32 \<Rightarrow> u32 \<Rightarrow> u32 \<Rightarrow> u32 \<Rightarrow> mem \<Rightarrow> u32 \<times> mem" where
  "fix_symbols_loop resolve sec strings imports symbols sym_count retval m =
     (if sym_count \<noteq> 0 then
        let sym = symbols;
            section = load_u16 m (sym + OFF_SYM_SECTION);
            (retval, m) =
              (if section = 0 then
                 let name_dword = load_u32 m sym;
                     name_ptr = (if name_dword = 0 then strings + load_u32 m (sym + 4) else sym);
                     (resolved, m) = resolve name_ptr imports m;
                     retval = (if resolved = 0 then 0 else retval)
                 in (retval, store_u32 (sym + OFF_SYM_VALUE) resolved m)
               else if section \<noteq> 0xFFFF \<and> section \<noteq> 0xFFFE then
                 let sec_ptr = section_ptr sec section;
                     va = load_u32 m (sec_ptr + OFF_SEC_VIRTUAL_ADDRESS);
                     cur = load_u32 m (sym + OFF_SYM_VALUE)
                 in (retval, store_u32 (sym + OFF_SYM_VALUE) (cur + va) m)
               else (retval, m))
        in fix_symbols_loop resolve sec strings imports (symbols + COFF_SYM_SIZE) (sym_count - 1) retval m
      else (retval, m))"
  by pat_completeness auto
termination
  by (relation "measure (\<lambda>(_, _, _, _, _, sym_count, _, _). unat sym_count)") simp_all

declare fix_symbols_loop.simps [simp del]

definition fix_coff_symbols :: "u32 \<Rightarrow> u32 \<Rightarrow> u32 \<Rightarrow> u32 \<Rightarrow> u32 \<Rightarrow> GetProcExFn \<Rightarrow> mem \<Rightarrow> u32 \<times> mem" where
  "fix_coff_symbols sec symbols sym_count strings imports resolve m =
     fix_symbols_loop resolve sec strings imports symbols sym_count 1 m"

definition fix_coff_symbols_ptr :: "u32 \<Rightarrow> u32 \<Rightarrow> u32 \<Rightarrow> u32 \<Rightarrow> u32 \<Rightarrow> GetProcExFn \<Rightarrow> mem \<Rightarrow> u32 \<times> mem" where
  "fix_coff_symbols_ptr sec symbols sym_count strings imports resolve m =
     fix_coff_symbols sec symbols sym_count strings imports resolve m"

section \<open>Relocations\<close>

definition COFF_HEADER_SIZE :: u32 where "COFF_HEADER_SIZE = 20"
definition OFF_N_SECTIONS :: u32 where "OFF_N_SECTIONS = 2"
definition OFF_SEC_PTR_RELOC :: u32 where "OFF_SEC_PTR_RELOC = 24"
definition OFF_SEC_NUM_RELOC :: u32 where "OFF_SEC_NUM_RELOC = 32"
definition COFF_RELOC_SIZE :: u32 where "COFF_RELOC_SIZE = 10"
definition OFF_RELOC_VA :: u32 where "OFF_RELOC_VA = 0"
definition OFF_RELOC_SYM_INDEX :: u32 where "OFF_RELOC_SYM_INDEX = 4"
definition OFF_RELOC_TYPE :: u32 where "OFF_RELOC_TYPE = 8"
definition RELOC_TYPE_DIR32 :: u16 where "RELOC_TYPE_DIR32 = 6"
definition RELOC_TYPE_REL32 :: u16 where "RELOC_TYPE_REL32 = 20"

lemmas coff_consts = COFF_SYM_SIZE_def COFF_SYM_NAME_LEN_def OFF_SYM_VALUE_def COFF_SECTION_SIZE_def OFF_SEC_VIRTUAL_ADDRESS_def
  OFF_SYM_SECTION_def COFF_HEADER_SIZE_def OFF_N_SECTIONS_def OFF_SEC_PTR_RELOC_def OFF_SEC_NUM_RELOC_def COFF_RELOC_SIZE_def
  OFF_RELOC_VA_def OFF_RELOC_SYM_INDEX_def OFF_RELOC_TYPE_def RELOC_TYPE_DIR32_def RELOC_TYPE_REL32_def

definition patch_add_u32 :: "u32 \<Rightarrow> u32 \<Rightarrow> mem \<Rightarrow> mem" where
  "patch_add_u32 addr addend m = store_u32 addr (load_u32 m addr + addend) m"

function fix_reloc_loop :: "u32 \<Rightarrow> u32 \<Rightarrow> u32 \<Rightarrow> u32 \<Rightarrow> u32 \<Rightarrow> mem \<Rightarrow> mem" where
  "fix_reloc_loop syms delta sec_va reloc num_reloc m =
     (if num_reloc \<noteq> 0 then
        let sym_index = load_u32 m (reloc + OFF_RELOC_SYM_INDEX);
            sym_ptr = syms + sym_index * COFF_SYM_SIZE;
            value = load_u32 m (sym_ptr + OFF_SYM_VALUE);
            rtype = load_u16 m (reloc + OFF_RELOC_TYPE);
            m = (if rtype = RELOC_TYPE_DIR32 then
                   let eax = load_u32 m (reloc + OFF_RELOC_VA); eax = eax + sec_va; eax = eax + delta
                   in patch_add_u32 eax value m
                 else if rtype = RELOC_TYPE_REL32 then
                   let eax = load_u32 m (reloc + OFF_RELOC_VA); eax = eax + sec_va;
                       value = value - eax - 4; eax = eax + delta
                   in patch_add_u32 eax value m
                 else m)
        in fix_reloc_loop syms delta sec_va (reloc + COFF_RELOC_SIZE) (num_reloc - 1) m
      else m)"
  by pat_completeness auto
termination
  by (relation "measure (\<lambda>(_, _, _, _, n, _). unat n)") simp_all

declare fix_reloc_loop.simps [simp del]

function fix_section_loop :: "u32 \<Rightarrow> u32 \<Rightarrow> u32 \<Rightarrow> u32 \<Rightarrow> u32 \<Rightarrow> mem \<Rightarrow> mem" where
  "fix_section_loop coff syms delta sec n_sec m =
     (if n_sec \<noteq> 0 then
        let ptr_reloc = load_u32 m (sec + OFF_SEC_PTR_RELOC);
            reloc = coff + ptr_reloc;
            num_reloc = ucast (load_u16 m (sec + OFF_SEC_NUM_RELOC));
            sec_va = load_u32 m (sec + OFF_SEC_VIRTUAL_ADDRESS)
        in fix_section_loop coff syms delta (sec + COFF_SECTION_SIZE) (n_sec - 1) (fix_reloc_loop syms delta sec_va reloc num_reloc m)
      else m)"
  by pat_completeness auto
termination
  by (relation "measure (\<lambda>(_, _, _, _, n, _). unat n)") simp_all

declare fix_section_loop.simps [simp del]

definition fix_coff_relocs :: "u32 \<Rightarrow> u32 \<Rightarrow> u32 \<Rightarrow> mem \<Rightarrow> mem" where
  "fix_coff_relocs coff syms delta m =
     fix_section_loop coff syms delta (coff + COFF_HEADER_SIZE) (ucast (load_u16 m (coff + OFF_N_SECTIONS))) m"

definition fix_coff_relocs_ptr :: "u32 \<Rightarrow> u32 \<Rightarrow> u32 \<Rightarrow> mem \<Rightarrow> mem" where
  "fix_coff_relocs_ptr coff syms delta m = fix_coff_relocs coff syms delta m"

function rebase_reloc_loop :: "u32 \<Rightarrow> u32 \<Rightarrow> u32 \<Rightarrow> u32 \<Rightarrow> mem \<Rightarrow> mem" where
  "rebase_reloc_loop delta sec_va reloc num_reloc m =
     (if num_reloc \<noteq> 0 then
        let rtype = load_u16 m (reloc + OFF_RELOC_TYPE);
            m = (if rtype = RELOC_TYPE_DIR32 then
                   let eax = load_u32 m (reloc + OFF_RELOC_VA); eax = eax + sec_va
                   in patch_add_u32 (eax + delta) delta m
                 else m)
        in rebase_reloc_loop delta sec_va (reloc + COFF_RELOC_SIZE) (num_reloc - 1) m
      else m)"
  by pat_completeness auto
termination
  by (relation "measure (\<lambda>(_, _, _, n, _). unat n)") simp_all

declare rebase_reloc_loop.simps [simp del]

function rebase_section_loop :: "u32 \<Rightarrow> u32 \<Rightarrow> u32 \<Rightarrow> u32 \<Rightarrow> mem \<Rightarrow> mem" where
  "rebase_section_loop coff delta sec n_sec m =
     (if n_sec \<noteq> 0 then
        let ptr_reloc = load_u32 m (sec + OFF_SEC_PTR_RELOC);
            reloc = coff + ptr_reloc;
            num_reloc = ucast (load_u16 m (sec + OFF_SEC_NUM_RELOC));
            sec_va = load_u32 m (sec + OFF_SEC_VIRTUAL_ADDRESS)
        in rebase_section_loop coff delta (sec + COFF_SECTION_SIZE) (n_sec - 1) (rebase_reloc_loop delta sec_va reloc num_reloc m)
      else m)"
  by pat_completeness auto
termination
  by (relation "measure (\<lambda>(_, _, _, n, _). unat n)") simp_all

declare rebase_section_loop.simps [simp del]

definition rebase_coff :: "u32 \<Rightarrow> u32 \<Rightarrow> u32 \<Rightarrow> mem \<Rightarrow> mem" where
  "rebase_coff coff syms delta m =
     rebase_section_loop coff delta (coff + COFF_HEADER_SIZE) (ucast (load_u16 m (coff + OFF_N_SECTIONS))) m"

definition rebase_coff_ptr :: "u32 \<Rightarrow> u32 \<Rightarrow> u32 \<Rightarrow> mem \<Rightarrow> mem" where
  "rebase_coff_ptr coff syms delta m = rebase_coff coff syms delta m"

section \<open>Patches\<close>

text \<open>A patch is an address and a number to add to the dword there.\<close>

definition apply_patches :: "(u32 \<times> u32) list \<Rightarrow> mem \<Rightarrow> mem" where
  "apply_patches ps m = fold (\<lambda>(a, v). patch_add_u32 a v) ps m"

definition patched :: "(u32 \<times> u32) list \<Rightarrow> u32 set" where
  "patched ps = {x. \<exists>(a, v) \<in> set ps. unat (x - a) < 4}"

lemma apply_patches_simps [simp]:
  "apply_patches [] m = m" "apply_patches (ps @ qs) m = apply_patches qs (apply_patches ps m)"
  "apply_patches ((a, v) # ps) m = apply_patches ps (patch_add_u32 a v m)"
  by (simp_all add: apply_patches_def)

lemma patched_simps [simp]: "patched [] = {}" "patched (p # ps) = {x. unat (x - fst p) < 4} \<union> patched ps" "patched (ps @ qs) = patched ps \<union> patched qs"
  by (auto simp: patched_def case_prod_beta)

lemma patch_other: "\<not> unat (x - a) < 4 \<Longrightarrow> patch_add_u32 a v m x = m x"
  unfolding patch_add_u32_def by (rule store_u32_other) (simp add: word_le_nat_alt)

lemma apply_patches_other: "x \<notin> patched ps \<Longrightarrow> apply_patches ps m x = m x"
proof (induction ps arbitrary: m)
  case (Cons p ps)
  then show ?case using patch_other by (cases p) simp
qed simp

definition dwords_apart :: "u32 \<Rightarrow> u32 \<Rightarrow> bool" where
  "dwords_apart a b \<longleftrightarrow> 4 \<le> unat (a - b) \<and> 4 \<le> unat (b - a)"

lemma load_unpatched:
  assumes "\<And>k. k < 4 \<Longrightarrow> a + k \<notin> patched ps"
  shows "load_u32 (apply_patches ps m) a = load_u32 m a"
  by (rule load_u32_cong) (use assms apply_patches_other in blast)

lemma dwords_apart_bytes:
  assumes "dwords_apart a b" and "k < 4"
  shows "\<not> unat (a + k - b) < 4"
proof
  assume d: "unat (a + k - b) < 4"
  define d where "d = a + k - b"
  have s: "a - b = d - k" "b - a = k - d" by (simp_all add: d_def)
  have k: "unat k < 4" using assms(2) by (simp add: word_less_nat_alt)
  show False
  proof (cases "k \<le> d")
    case True
    then have "unat (a - b) = unat d - unat k" unfolding s by (rule unat_sub)
    then show False using d assms(1) unfolding d_def [symmetric] dwords_apart_def by linarith
  next
    case False
    then have "unat (b - a) = unat k - unat d" unfolding s by (intro unat_sub) simp
    then show False using k assms(1) unfolding dwords_apart_def by linarith
  qed
qed

lemma load_patched:
  assumes "(a, v) \<in> set ps" and "sorted_wrt (\<lambda>p q. dwords_apart (fst p) (fst q)) ps"
  shows "load_u32 (apply_patches ps m) a = load_u32 m a + v"
  using assms
proof (induction ps arbitrary: m)
  case (Cons p ps)
  have far: "dwords_apart a b" if "p = (a, v)" "(b, w) \<in> set ps" for b w using Cons.prems(2) that by force
  show ?case
  proof (cases "p = (a, v)")
    case True
    have "a + k \<notin> patched ps" if "k < 4" for k
      using dwords_apart_bytes [OF far [OF True] that] unfolding patched_def by auto
    then show ?thesis using True by (simp add: load_unpatched patch_add_u32_def load_store_u32)
  next
    case False
    then have mem: "(a, v) \<in> set ps" using Cons.prems(1) by auto
    obtain b w where p: "p = (b, w)" by (cases p)
    have "dwords_apart b a" using Cons.prems(2) mem p by force
    then have "dwords_apart a b" by (simp add: dwords_apart_def)
    then have "load_u32 (patch_add_u32 b w m) a = load_u32 m a"
      by (intro load_u32_cong patch_other dwords_apart_bytes)
    with Cons.IH [OF mem] Cons.prems(2) p show ?thesis by simp
  qed
qed simp

section \<open>The walk over sections and relocations\<close>

text \<open>The relocations of an image, in the order of the walk: the address of the section and that of the record.\<close>

definition section_relocs :: "mem \<Rightarrow> u32 \<Rightarrow> u32 \<Rightarrow> (u32 \<times> u32) list" where
  "section_relocs m coff s =
     map (\<lambda>j. (load_u32 m (s + 12), coff + load_u32 m (s + 24) + 10 * of_nat j)) [0..<unat (load_u16 m (s + 32))]"

definition sections_relocs :: "mem \<Rightarrow> u32 \<Rightarrow> u32 \<Rightarrow> nat \<Rightarrow> (u32 \<times> u32) list" where
  "sections_relocs m coff s n = concat (map (\<lambda>i. section_relocs m coff (s + 40 * of_nat i)) [0..<n])"

definition coff_relocs :: "mem \<Rightarrow> u32 \<Rightarrow> (u32 \<times> u32) list" where
  "coff_relocs m coff = sections_relocs m coff (coff + 20) (unat (load_u16 m (coff + 2)))"

lemma sections_relocs_Suc: "sections_relocs m coff s (Suc n) = section_relocs m coff s @ sections_relocs m coff (s + 40) n"
proof -
  have "[0..<Suc n] = 0 # map Suc [0..<n]" by (simp add: upt_conv_Cons map_Suc_upt del: upt_Suc)
  then show ?thesis by (simp add: sections_relocs_def comp_def algebra_simps del: upt_Suc)
qed

text \<open>The tables a pass reads: the section headers, the relocation records and, for the linking pass, the symbol values.\<close>

definition coff_tables :: "(u32 \<Rightarrow> mem \<Rightarrow> u32 set) \<Rightarrow> mem \<Rightarrow> u32 \<Rightarrow> u32 set" where
  "coff_tables reads m coff = {x. unat (x - (coff + 20)) < 40 * unat (load_u16 m (coff + 2))}
     \<union> (\<Union>(va, r) \<in> set (coff_relocs m coff). reads r m)"

definition coff_patches :: "(u32 \<Rightarrow> u32 \<Rightarrow> mem \<Rightarrow> (u32 \<times> u32) list) \<Rightarrow> mem \<Rightarrow> u32 \<Rightarrow> (u32 \<times> u32) list" where
  "coff_patches patch m coff = concat (map (\<lambda>(va, r). patch va r m) (coff_relocs m coff))"

lemma patched_part: "(va, r) \<in> set (coff_relocs m coff) \<Longrightarrow> patched (patch va r m) \<subseteq> patched (coff_patches patch m coff)"
  unfolding patched_def coff_patches_def by fastforce

locale reloc_walk =
  fixes relocs :: "u32 \<Rightarrow> u32 \<Rightarrow> u32 \<Rightarrow> mem \<Rightarrow> mem"
    and sections :: "u32 \<Rightarrow> u32 \<Rightarrow> u32 \<Rightarrow> mem \<Rightarrow> mem"
    and patch :: "u32 \<Rightarrow> u32 \<Rightarrow> mem \<Rightarrow> (u32 \<times> u32) list"
    and reads :: "u32 \<Rightarrow> mem \<Rightarrow> u32 set"
  assumes relocs_step: "relocs va r n m = (if n = 0 then m else relocs va (r + 10) (n - 1) (apply_patches (patch va r m) m))"
    and sections_step: "sections coff s n m =
      (if n = 0 then m
       else sections coff (s + 40) (n - 1)
         (relocs (load_u32 m (s + 12)) (coff + load_u32 m (s + 24)) (ucast (load_u16 m (s + 32))) m))"
    and patch_reads: "(\<And>x. x \<in> reads r m \<Longrightarrow> m' x = m x) \<Longrightarrow> patch va r m' = patch va r m"
begin

lemma relocs_run:
  assumes "n < 2 ^ 32" and "\<And>x. x \<in> tab \<Longrightarrow> m x = m0 x"
    and "\<And>j. j < n \<Longrightarrow> reads (r + 10 * of_nat j) m0 \<subseteq> tab \<and> patched (patch va (r + 10 * of_nat j) m0) \<inter> tab = {}"
  shows "relocs va r (of_nat n) m = apply_patches (concat (map (\<lambda>j. patch va (r + 10 * of_nat j) m0) [0..<n])) m"
  using assms
proof (induction n arbitrary: r m)
  case 0
  show ?case by (subst relocs_step) simp
next
  case (Suc n)
  let ?m = "apply_patches (patch va r m0) m"
  have "unat (of_nat (Suc n) :: u32) = Suc n" using Suc.prems(1) by (rule unat_of_nat_u32)
  then have nz: "(of_nat (Suc n) :: u32) \<noteq> 0" by auto
  have p: "patch va r m = patch va r m0" by (rule patch_reads) (use Suc.prems(2) Suc.prems(3) [of 0] in auto)
  have "relocs va (r + 10) (of_nat n) ?m = apply_patches (concat (map (\<lambda>j. patch va (r + 10 + 10 * of_nat j) m0) [0..<n])) ?m"
  proof (rule Suc.IH)
    show "n < 2 ^ 32" using Suc.prems(1) by simp
    fix x assume "x \<in> tab"
    then show "?m x = m0 x" using Suc.prems(2) Suc.prems(3) [of 0] by (subst apply_patches_other) auto
  next
    fix j assume "j < n"
    then show "reads (r + 10 + 10 * of_nat j) m0 \<subseteq> tab \<and> patched (patch va (r + 10 + 10 * of_nat j) m0) \<inter> tab = {}"
      using Suc.prems(3) [of "Suc j"] by (simp add: algebra_simps)
  qed
  moreover have "[0..<Suc n] = 0 # map Suc [0..<n]" by (simp add: upt_conv_Cons map_Suc_upt del: upt_Suc)
  moreover have "relocs va r (of_nat (Suc n)) m = relocs va (r + 10) (of_nat n) ?m"
    using nz p by (subst relocs_step) simp
  moreover have "r + 10 * of_nat (Suc j) = r + 10 + 10 * of_nat j" for j by (simp add: algebra_simps)
  ultimately show ?case by (simp add: comp_def add.assoc del: upt_Suc of_nat_Suc)
qed

lemma sections_run:
  assumes "n < 2 ^ 16" and "\<And>x. x \<in> tab \<Longrightarrow> m x = m0 x" and "{x. unat (x - s) < 40 * n} \<subseteq> tab"
    and "\<And>va r. (va, r) \<in> set (sections_relocs m0 coff s n) \<Longrightarrow> reads r m0 \<subseteq> tab \<and> patched (patch va r m0) \<inter> tab = {}"
  shows "sections coff s (of_nat n) m = apply_patches (concat (map (\<lambda>(va, r). patch va r m0) (sections_relocs m0 coff s n))) m"
  using assms
proof (induction n arbitrary: s m)
  case 0
  show ?case by (subst sections_step) (simp add: sections_relocs_def)
next
  case (Suc n)
  have "unat (of_nat (Suc n) :: u32) = Suc n" using Suc.prems(1) by (intro unat_of_nat_u32) simp
  then have nz: "(of_nat (Suc n) :: u32) \<noteq> 0" by auto
  have field: "m (s + k) = m0 (s + k)" if "k < 40" for k
  proof (rule Suc.prems(2))
    have "unat (s + k - s) < 40 * Suc n" using that by (simp add: word_less_nat_alt)
    then show "s + k \<in> tab" using Suc.prems(3) by blast
  qed
  have f: "load_u32 m (s + 12) = load_u32 m0 (s + 12)" "load_u32 m (s + 24) = load_u32 m0 (s + 24)" "load_u16 m (s + 32) = load_u16 m0 (s + 32)"
    using field [of 12] field [of 13] field [of 14] field [of 15] field [of 24] field [of 25] field [of 26] field [of 27] field [of 32] field [of 33]
    by (simp_all add: load_u32_def load_u16_def add.assoc)
  define va r0 c where "va = load_u32 m0 (s + 12)" and "r0 = coff + load_u32 m0 (s + 24)" and "c = unat (load_u16 m0 (s + 32))"
  let ?ps = "concat (map (\<lambda>(va, r). patch va r m0) (section_relocs m0 coff s))"
  have here: "reads (r0 + 10 * of_nat j) m0 \<subseteq> tab \<and> patched (patch va (r0 + 10 * of_nat j) m0) \<inter> tab = {}" if "j < c" for j
    using that by (intro Suc.prems(4)) (auto simp: sections_relocs_Suc section_relocs_def va_def r0_def c_def)
  have "relocs va r0 (of_nat c) m = apply_patches (concat (map (\<lambda>j. patch va (r0 + 10 * of_nat j) m0) [0..<c])) m"
    using Suc.prems(2) here less_trans [OF unat_u16 [of "load_u16 m0 (s + 32)"]] by (intro relocs_run [where tab = tab]) (auto simp: c_def)
  then have inner: "relocs va r0 (of_nat c) m = apply_patches ?ps m"
    by (simp add: section_relocs_def va_def r0_def c_def comp_def)
  have "patched ?ps \<inter> tab = {}" using Suc.prems(4) by (fastforce simp: sections_relocs_Suc patched_def)
  then have kept: "apply_patches ?ps m x = m0 x" if "x \<in> tab" for x
    using that Suc.prems(2) by (subst apply_patches_other) auto
  have sub: "unat (x - s) < 40 * Suc n" if "unat (x - (s + 40)) < 40 * n" for x
  proof -
    have "x - s = (x - (s + 40)) + 40" by simp
    then have "unat (x - s) \<le> unat (x - (s + 40)) + 40" using unat_plus_simple_le [of "x - (s + 40)" 40] by simp
    then show ?thesis using that by simp
  qed
  have "sections coff (s + 40) (of_nat n) (apply_patches ?ps m)
      = apply_patches (concat (map (\<lambda>(va, r). patch va r m0) (sections_relocs m0 coff (s + 40) n))) (apply_patches ?ps m)"
  proof (rule Suc.IH)
    show "{x. unat (x - (s + 40)) < 40 * n} \<subseteq> tab" using Suc.prems(3) sub by blast
    show "reads r m0 \<subseteq> tab \<and> patched (patch va r m0) \<inter> tab = {}" if "(va, r) \<in> set (sections_relocs m0 coff (s + 40) n)" for va r
      using that by (intro Suc.prems(4)) (simp add: sections_relocs_Suc)
  qed (use Suc.prems(1) kept in auto)
  moreover have "sections coff s (of_nat (Suc n)) m = sections coff (s + 40) (of_nat n) (relocs va r0 (of_nat c) m)"
    using nz f by (subst sections_step) (simp add: va_def r0_def c_def)
  ultimately show ?case by (simp add: inner sections_relocs_Suc)
qed

lemma image_run:
  assumes "patched (coff_patches patch m coff) \<inter> coff_tables reads m coff = {}"
  shows "sections coff (coff + 20) (ucast (load_u16 m (coff + 2))) m = apply_patches (coff_patches patch m coff) m"
proof -
  let ?n = "unat (load_u16 m (coff + 2))"
  have part: "reads r m \<subseteq> coff_tables reads m coff \<and> patched (patch va r m) \<inter> coff_tables reads m coff = {}"
    if "(va, r) \<in> set (sections_relocs m coff (coff + 20) ?n)" for va r
  proof -
    have r: "(va, r) \<in> set (coff_relocs m coff)" using that by (simp add: coff_relocs_def)
    then have "reads r m \<subseteq> coff_tables reads m coff" unfolding coff_tables_def by fastforce
    then show ?thesis using patched_part [OF r, of patch] assms by blast
  qed
  have "sections coff (coff + 20) (of_nat ?n) m = apply_patches (concat (map (\<lambda>(va, r). patch va r m) (sections_relocs m coff (coff + 20) ?n))) m"
  proof (rule sections_run [OF _ _ _ part])
    show "{x. unat (x - (coff + 20)) < 40 * ?n} \<subseteq> coff_tables reads m coff" unfolding coff_tables_def by blast
  qed simp_all
  then show ?thesis by (simp add: coff_patches_def coff_relocs_def)
qed

end

section \<open>The two passes\<close>

text \<open>The patch of one relocation and the bytes it is computed from.\<close>

definition fix_patch :: "u32 \<Rightarrow> u32 \<Rightarrow> u32 \<Rightarrow> u32 \<Rightarrow> mem \<Rightarrow> (u32 \<times> u32) list" where
  "fix_patch syms delta va r m =
     (let place = load_u32 m r + va; value = load_u32 m (syms + 18 * load_u32 m (r + 4) + 8); ty = load_u16 m (r + 8)
      in if ty = 6 then [(place + delta, value)] else if ty = 20 then [(place + delta, value - place - 4)] else [])"

definition fix_reads :: "u32 \<Rightarrow> u32 \<Rightarrow> mem \<Rightarrow> u32 set" where
  "fix_reads syms r m = {x. unat (x - r) < 10} \<union> {x. unat (x - (syms + 18 * load_u32 m (r + 4) + 8)) < 4}"

definition rebase_patch :: "u32 \<Rightarrow> u32 \<Rightarrow> u32 \<Rightarrow> mem \<Rightarrow> (u32 \<times> u32) list" where
  "rebase_patch delta va r m = (if load_u16 m (r + 8) = 6 then [(load_u32 m r + va + delta, delta)] else [])"

lemma reloc_fields:
  assumes "\<And>x. unat (x - r) < 10 \<Longrightarrow> m' x = m x"
  shows "load_u32 m' r = load_u32 m r" "load_u32 m' (r + 4) = load_u32 m (r + 4)" "load_u16 m' (r + 8) = load_u16 m (r + 8)"
proof -
  have f: "m' (r + k) = m (r + k)" if "k < 10" for k using assms [of "r + k"] that by (simp add: word_less_nat_alt)
  show "load_u32 m' r = load_u32 m r" by (rule load_u32_cong, rule f) (simp add: word_less_nat_alt)
  show "load_u32 m' (r + 4) = load_u32 m (r + 4)" "load_u16 m' (r + 8) = load_u16 m (r + 8)"
    using f [of 4] f [of 5] f [of 6] f [of 7] f [of 8] f [of 9] by (simp_all add: load_u32_def load_u16_def add.assoc)
qed

interpretation fixups: reloc_walk "fix_reloc_loop syms delta" "\<lambda>coff. fix_section_loop coff syms delta"
  "fix_patch syms delta" "fix_reads syms" for syms delta
proof
  fix va r n m
  show "fix_reloc_loop syms delta va r n m = (if n = 0 then m else fix_reloc_loop syms delta va (r + 10) (n - 1) (apply_patches (fix_patch syms delta va r m) m))"
    by (subst fix_reloc_loop.simps) (simp add: coff_consts fix_patch_def Let_def mult.commute)
next
  fix coff s n m
  show "fix_section_loop coff syms delta s n m = (if n = 0 then m else fix_section_loop coff syms delta (s + 40) (n - 1)
      (fix_reloc_loop syms delta (load_u32 m (s + 12)) (coff + load_u32 m (s + 24)) (ucast (load_u16 m (s + 32))) m))"
    by (subst fix_section_loop.simps) (simp add: coff_consts Let_def)
next
  fix r va :: u32 and m m' :: mem
  assume e: "\<And>x. x \<in> fix_reads syms r m \<Longrightarrow> m' x = m x"
  have "m' x = m x" if "unat (x - r) < 10" for x using e that by (simp add: fix_reads_def)
  note f = reloc_fields [of r m' m, OF this]
  have "load_u32 m' (syms + 18 * load_u32 m (r + 4) + 8) = load_u32 m (syms + 18 * load_u32 m (r + 4) + 8)"
    by (rule load_u32_cong, rule e) (simp add: fix_reads_def word_less_nat_alt)
  then show "fix_patch syms delta va r m' = fix_patch syms delta va r m" by (simp add: fix_patch_def f)
qed

interpretation rebases: reloc_walk "rebase_reloc_loop delta" "\<lambda>coff. rebase_section_loop coff delta"
  "rebase_patch delta" "\<lambda>r m. {x. unat (x - r) < 10}" for delta
proof
  fix va r n m
  show "rebase_reloc_loop delta va r n m = (if n = 0 then m else rebase_reloc_loop delta va (r + 10) (n - 1) (apply_patches (rebase_patch delta va r m) m))"
    by (subst rebase_reloc_loop.simps) (simp add: coff_consts rebase_patch_def Let_def)
next
  fix coff s n m
  show "rebase_section_loop coff delta s n m = (if n = 0 then m else rebase_section_loop coff delta (s + 40) (n - 1)
      (rebase_reloc_loop delta (load_u32 m (s + 12)) (coff + load_u32 m (s + 24)) (ucast (load_u16 m (s + 32))) m))"
    by (subst rebase_section_loop.simps) (simp add: coff_consts Let_def)
next
  fix r va :: u32 and m m' :: mem
  assume "\<And>x. x \<in> {x. unat (x - r) < 10} \<Longrightarrow> m' x = m x"
  then have "m' x = m x" if "unat (x - r) < 10" for x using that by blast
  note f = reloc_fields [of r m' m, OF this]
  show "rebase_patch delta va r m' = rebase_patch delta va r m" by (simp add: rebase_patch_def f)
qed

lemma fix_is_patches:
  "patched (coff_patches (fix_patch syms delta) m coff) \<inter> coff_tables (fix_reads syms) m coff = {} \<Longrightarrow>
   fix_coff_relocs coff syms delta m = apply_patches (coff_patches (fix_patch syms delta) m coff) m"
  unfolding fix_coff_relocs_def coff_consts by (rule fixups.image_run)

lemma rebase_is_patches:
  "patched (coff_patches (rebase_patch delta) m coff) \<inter> coff_tables (\<lambda>r m. {x. unat (x - r) < 10}) m coff = {} \<Longrightarrow>
   rebase_coff coff syms delta m = apply_patches (coff_patches (rebase_patch delta) m coff) m"
  unfolding rebase_coff_def coff_consts by (rule rebases.image_run)

definition targets_apart :: "(u32 \<times> u32) list \<Rightarrow> bool" where
  "targets_apart ps \<longleftrightarrow> sorted_wrt (\<lambda>p q. dwords_apart (fst p) (fst q)) ps"

lemma coff_patches_member: "(va, r) \<in> set (coff_relocs m coff) \<Longrightarrow> p \<in> set (patch va r m) \<Longrightarrow> p \<in> set (coff_patches patch m coff)"
  unfolding coff_patches_def by fastforce

text \<open>C26: Linking a library. When the dwords to be patched do not overlap each other nor the tables of the pass, every absolute
  relocation adds the value of its symbol to the dword it names, every relative one makes the dword, read as a
  displacement from the next instruction at the final address, point at what it held plus the value of the symbol,
  and no other byte of memory changes.\<close>

theorem coff_relocs_applied:
  assumes "patched (coff_patches (fix_patch syms delta) m coff) \<inter> coff_tables (fix_reads syms) m coff = {}"
    and "targets_apart (coff_patches (fix_patch syms delta) m coff)"
    and "(va, r) \<in> set (coff_relocs m coff)"
    and "place = load_u32 m r + va" and "value = load_u32 m (syms + 18 * load_u32 m (r + 4) + 8)"
  shows "(load_u16 m (r + 8) = 6 \<longrightarrow>
        load_u32 (fix_coff_relocs coff syms delta m) (place + delta) = load_u32 m (place + delta) + value)
    \<and> (load_u16 m (r + 8) = 20 \<longrightarrow>
        place + 4 + load_u32 (fix_coff_relocs coff syms delta m) (place + delta) = load_u32 m (place + delta) + value)
    \<and> {x. fix_coff_relocs coff syms delta m x \<noteq> m x} \<subseteq> patched (coff_patches (fix_patch syms delta) m coff)"
proof -
  let ?ps = "coff_patches (fix_patch syms delta) m coff"
  note e = fix_is_patches [OF assms(1)]
  have one: "load_u32 (apply_patches ?ps m) a = load_u32 m a + v" if "fix_patch syms delta va r m = [(a, v)]" for a v
    using coff_patches_member [OF assms(3), of "(a, v)" "fix_patch syms delta"] assms(2) that
    by (intro load_patched) (simp_all add: targets_apart_def)
  have "{x. apply_patches ?ps m x \<noteq> m x} \<subseteq> patched ?ps" using apply_patches_other by blast
  moreover have "load_u32 (apply_patches ?ps m) (place + delta) = load_u32 m (place + delta) + value" if "load_u16 m (r + 8) = 6"
    using that by (intro one) (simp add: fix_patch_def Let_def assms(4,5))
  moreover have "load_u32 (apply_patches ?ps m) (place + delta) = load_u32 m (place + delta) + (value - place - 4)" if "load_u16 m (r + 8) = 20"
    using that by (intro one) (simp add: fix_patch_def Let_def assms(4,5))
  ultimately show ?thesis unfolding e by (simp add: algebra_simps)
qed

text \<open>An image at \<open>0x1000\<close> with one section and one absolute relocation against the first symbol.\<close>

definition coff_example :: mem where
  "coff_example x = (if x = 0x1002 then 1 else if x = 0x102D then 1 else if x = 0x1034 then 1 else if x = 0x1101 then 0x20
     else if x = 0x1108 then 6 else if x = 0x3008 then 7 else 0)"

lemma coff_example_relocs: "coff_relocs coff_example 0x1000 = [(0, 0x1100)]"
  by (simp add: coff_relocs_def sections_relocs_def section_relocs_def load_u16_def load_u32_def coff_example_def le16_def le32_def)

lemma coff_example_patches: "coff_patches (fix_patch 0x3000 0) coff_example 0x1000 = [(0x2000, 7)]"
  by (simp add: coff_patches_def coff_example_relocs fix_patch_def Let_def load_u16_def load_u32_def coff_example_def le16_def le32_def)

theorem coff_relocs_applied_witness: "load_u32 (fix_coff_relocs 0x1000 0x3000 0 coff_example) 0x2000 = 7"
proof -
  have l: "load_u16 coff_example 0x1002 = 1" "load_u32 coff_example 0x1104 = 0" "load_u32 coff_example 0x1100 = 0x2000"
    "load_u16 coff_example 0x1108 = 6" "load_u32 coff_example 0x3008 = 7" "load_u32 coff_example 0x2000 = 0"
    by (simp_all add: load_u16_def load_u32_def coff_example_def le16_def le32_def)
  have far: "\<not> unat (x - b) < n" if "unat (x - 0x2000) < 4" "apart 0x2000 4 b n" for x b :: u32 and n
  proof
    assume "unat (x - b) < n"
    with that have "0x2000 + of_nat (unat (x - 0x2000)) \<noteq> b + of_nat (unat (x - b))" unfolding apart_def by blast
    then show False by simp
  qed
  have "apart 0x2000 4 0x1014 40" "apart 0x2000 4 0x1100 10" by (rule apart_sym, rule apartI; simp)+
  moreover have "apart 0x2000 4 0x3008 4" by (rule apartI; simp)
  ultimately have far: "\<not> unat (x - 0x1014) < 40" "\<not> unat (x - 0x1100) < 10" "\<not> unat (x - 0x3008) < 4" if "unat (x - 0x2000) < 4" for x :: u32
    using far [OF that] by blast+
  have tab: "patched (coff_patches (fix_patch 0x3000 0) coff_example 0x1000) \<inter> coff_tables (fix_reads 0x3000) coff_example 0x1000 = {}"
    unfolding coff_example_patches coff_tables_def coff_example_relocs fix_reads_def
    using l far by auto
  have ap: "targets_apart (coff_patches (fix_patch 0x3000 0) coff_example 0x1000)" unfolding coff_example_patches by (simp add: targets_apart_def)
  have mem: "(0, 0x1100) \<in> set (coff_relocs coff_example 0x1000)" by (simp add: coff_example_relocs)
  have ty: "load_u16 coff_example (0x1100 + 8) = 6" using l(4) by simp
  from coff_relocs_applied [OF tab ap mem refl refl, THEN conjunct1, THEN mp, OF ty] l show ?thesis by simp
qed

section \<open>Lookups by name\<close>

text \<open>The inlined name comparison agrees with the string compare of the kernel.\<close>

lemma name_eq_loop_strncmp: "n - i \<noteq> 0 \<Longrightarrow> name_eq_loop m a b n i \<longleftrightarrow> strncmp_loop m (a + i) (b + i) (n - i) = 0"
proof (induction m a b n i rule: name_eq_loop.induct)
  case (1 m a b n i)
  show ?case
  proof (cases "m (a + i) = m (b + i) \<and> m (a + i) \<noteq> 0 \<and> i + 1 \<noteq> n")
    case True
    then have nz: "n - (i + 1) \<noteq> 0" "n - i - 1 \<noteq> 0" by (auto simp: algebra_simps)
    then have "name_eq_loop m a b n (i + 1) \<longleftrightarrow> strncmp_loop m (a + (i + 1)) (b + (i + 1)) (n - (i + 1)) = 0"
      using True by (intro 1(1) [OF refl refl _ _ refl]) auto
    with True nz show ?thesis
      by (subst name_eq_loop.simps, subst strncmp_loop.simps) (simp add: Let_def algebra_simps)
  next
    case False
    then show ?thesis by (subst name_eq_loop.simps, subst strncmp_loop.simps) (auto simp: Let_def)
  qed
qed

definition name_at :: "mem \<Rightarrow> u32 \<Rightarrow> nat \<Rightarrow> u8 list" where
  "name_at m a n = takeWhile (\<lambda>b. b \<noteq> 0) (mem_bytes m a n)"

lemma name_eq_n_ptr_iff: "name_eq_n_ptr m a b n \<longleftrightarrow> name_at m a (unat n) = name_at m b (unat n)"
proof (cases "n = 0")
  case False
  then show ?thesis using name_eq_loop_strncmp [of n 0 m a b] strncmp_loop_eq [OF False, of m a b]
    by (simp add: name_eq_n_ptr_def name_at_def Let_def)
qed (simp add: name_eq_n_ptr_def name_at_def)

lemma find_upt_shift: "find P [0..<Suc n] = (if P 0 then Some 0 else map_option Suc (find (\<lambda>i. P (Suc i)) [0..<n]))"
proof -
  have "find P (map Suc xs) = map_option Suc (find (\<lambda>i. P (Suc i)) xs)" for xs by (induction xs) auto
  then show ?thesis by (simp add: upt_conv_Cons map_Suc_upt [symmetric] del: upt_Suc)
qed

lemma get_coff_sym_find: "get_coff_sym m p count sz =
    (case find (\<lambda>i. name_at m (p + 18 * of_nat i) 8 = name_at m sz 8) [0..<Suc (unat (count - 1))] of
       Some i \<Rightarrow> load_u32 m (p + 18 * of_nat i + 8) | None \<Rightarrow> 0)"
proof (induction m p count sz rule: get_coff_sym.induct)
  case (1 m p count sz)
  let ?P = "\<lambda>i. name_at m (p + 18 * of_nat i) 8 = name_at m sz 8"
  have eq: "name_eq_n_ptr m p sz COFF_SYM_NAME_LEN \<longleftrightarrow> ?P 0" by (simp add: name_eq_n_ptr_iff COFF_SYM_NAME_LEN_def)
  show ?case
  proof (cases "?P 0 \<or> count - 1 = 0")
    case True
    then show ?thesis unfolding upt_conv_Cons [OF zero_less_Suc]
      by (subst get_coff_sym.simps) (auto simp: eq OFF_SYM_VALUE_def)
  next
    case False
    then have k: "unat (count - 1) = Suc (unat (count - 1 - 1))" using unat_dec [of "count - 1"] by (simp add: unat_gt_0)
    have "get_coff_sym m (p + 18) (count - 1) sz = (case find (\<lambda>i. name_at m (p + 18 + 18 * of_nat i) 8 = name_at m sz 8) [0..<unat (count - 1)] of
        Some i \<Rightarrow> load_u32 m (p + 18 + 18 * of_nat i + 8) | None \<Rightarrow> 0)"
      using 1 [unfolded COFF_SYM_SIZE_def] False eq unfolding k by blast
    moreover have "find ?P [0..<Suc (unat (count - 1))] = map_option Suc (find (\<lambda>i. ?P (Suc i)) [0..<unat (count - 1)])"
      using False by (simp add: find_upt_shift del: upt_Suc)
    ultimately show ?thesis using False
      by (subst get_coff_sym.simps) (simp add: eq COFF_SYM_SIZE_def algebra_simps option.case_eq_if option.map_sel del: upt_Suc)
  qed
qed

text \<open>Name \<open>i\<close> and function \<open>i\<close> of an export directory.\<close>

definition export_name :: "mem \<Rightarrow> u32 \<Rightarrow> nat \<Rightarrow> u8 list" where
  "export_name m imports i = name_at m (0x80000000 + load_u32 m (0x80000000 + load_u32 m (imports + 32) + 4 * of_nat i)) 256"

definition export_address :: "mem \<Rightarrow> u32 \<Rightarrow> nat \<Rightarrow> u32" where
  "export_address m imports i = 0x80000000 + load_u32 m (0x80000000 + load_u32 m (imports + 28) + 4 * of_nat i)"

lemma get_proc_loop_find:
  assumes "esi = 0 \<or> esi < n" and "names = load_u32 m (imports + 32)" and "funcs = load_u32 m (imports + 28)"
  shows "get_proc_loop m proc OS_BASE n names funcs esi =
    (case find (\<lambda>i. export_name m imports i = name_at m proc 256) [unat esi..<max (Suc (unat esi)) (unat n)] of
       Some i \<Rightarrow> export_address m imports i | None \<Rightarrow> 0)"
  using assms
proof (induction m proc OS_BASE n names funcs esi rule: get_proc_loop.induct)
  case (1 m proc n names funcs esi)
  have hit: "name_eq_n_ptr m (OS_BASE + read_rva_entry m OS_BASE names esi) proc NAME_CMP_LEN
      \<longleftrightarrow> export_name m imports (unat esi) = name_at m proc 256"
    by (simp add: name_eq_n_ptr_iff NAME_CMP_LEN_def export_name_def read_rva_entry_def OS_BASE_def 1(3) mult.commute)
  have val: "OS_BASE + read_rva_entry m OS_BASE funcs esi = export_address m imports (unat esi)"
    by (simp add: export_address_def read_rva_entry_def OS_BASE_def 1(4) mult.commute)
  have up: "unat (esi + 1) = Suc (unat esi)" using 1(2) unat_inc_less [of esi n] by auto
  show ?case
  proof (cases "export_name m imports (unat esi) = name_at m proc 256")
    case True
    then show ?thesis unfolding upt_conv_Cons [OF less_max_iff_disj [THEN iffD2, OF disjI1, OF lessI]]
      by (subst get_proc_loop.simps) (simp add: Let_def hit val)
  next
    case False
    show ?thesis
    proof (cases "esi + 1 \<ge> n")
      case True
      then have "max (Suc (unat esi)) (unat n) = Suc (unat esi)" using up by (simp add: word_le_nat_alt)
      with False True show ?thesis by (subst get_proc_loop.simps) (simp add: Let_def hit)
    next
      case more: False
      then have "get_proc_loop m proc OS_BASE n names funcs (esi + 1) =
        (case find (\<lambda>i. export_name m imports i = name_at m proc 256) [unat (esi + 1)..<max (Suc (unat (esi + 1))) (unat n)] of
           Some i \<Rightarrow> export_address m imports i | None \<Rightarrow> 0)"
        using False hit 1(3,4) by (intro 1(1) [OF refl refl _ refl]) auto
      moreover have "[unat esi..<max (Suc (unat esi)) (unat n)] = unat esi # [unat (esi + 1)..<max (Suc (unat (esi + 1))) (unat n)]"
        using more up by (subst upt_conv_Cons) (simp_all add: word_le_nat_alt max_def)
      ultimately show ?thesis using False more by (subst get_proc_loop.simps) (simp add: Let_def hit)
    qed
  qed
qed

text \<open>C28: The two lookups by name return what the first entry with the wanted name holds, and zero when none has it. Names are compared
  up to their terminator, at most 8 bytes of a symbol and 256 of an export. Both compare one entry even when
  the count is zero; the symbol search then goes on through the whole address space.\<close>

theorem loader_lookups_first:
  "get_coff_sym_ptr m p count sz =
     (case find (\<lambda>i. name_at m (p + 18 * of_nat i) 8 = name_at m sz 8) [0..<(if count = 0 then 2 ^ 32 else unat count)] of
        Some i \<Rightarrow> load_u32 m (p + 18 * of_nat i + 8) | None \<Rightarrow> 0)
   \<and> get_proc_ex_ptr m proc imports =
     (if imports = 0 then 0
      else case find (\<lambda>i. export_name m imports i = name_at m proc 256) [0..<max 1 (unat (load_u32 m (imports + 24)))] of
        Some i \<Rightarrow> export_address m imports i | None \<Rightarrow> 0)"
proof -
  have "Suc (unat (count - 1)) = (if count = 0 then 2 ^ 32 else unat count)"
    using unat_dec [of count] by (auto simp: unat_gt_0 unsigned_minus_1_eq_mask mask_eq_exp_minus_1)
  moreover have "get_proc_ex_ptr m proc imports =
     (if imports = 0 then 0
      else case find (\<lambda>i. export_name m imports i = name_at m proc 256) [0..<max 1 (unat (load_u32 m (imports + 24)))] of
        Some i \<Rightarrow> export_address m imports i | None \<Rightarrow> 0)"
    using get_proc_loop_find [of 0 "load_u32 m (imports + 24)" _ m "imports", OF _ refl refl, of proc]
    by (simp add: get_proc_ex_ptr_def get_proc_ex_def get_proc_ex_with_base_def OFF_NUMBER_OF_NAMES_def OFF_ADDRESS_OF_NAMES_def
        OFF_ADDRESS_OF_FUNCTIONS_def)
  ultimately show ?thesis unfolding get_coff_sym_ptr_def get_coff_sym_find by (simp only:)
qed

section \<open>The symbol table after the fixup\<close>

definition sym_at :: "u32 \<Rightarrow> nat \<Rightarrow> u32" where
  "sym_at symbols i = symbols + 18 * of_nat i"

definition value_bytes :: "u32 \<Rightarrow> nat \<Rightarrow> u32 set" where
  "value_bytes symbols n = {x. \<exists>i < n. unat (x - (sym_at symbols i + 8)) < 4}"

definition is_external :: "mem \<Rightarrow> u32 \<Rightarrow> bool" where
  "is_external m s \<longleftrightarrow> load_u16 m (s + 12) = 0"

definition is_internal :: "mem \<Rightarrow> u32 \<Rightarrow> bool" where
  "is_internal m s \<longleftrightarrow> load_u16 m (s + 12) \<notin> {0, 0xFFFF, 0xFFFE}"

text \<open>The name of a record: in place, or in the string table when its first dword is zero.\<close>

definition sym_name :: "mem \<Rightarrow> u32 \<Rightarrow> u32 \<Rightarrow> u32" where
  "sym_name m strings s = (if load_u32 m s = 0 then strings + load_u32 m (s + 4) else s)"

definition sym_target :: "(u32 \<Rightarrow> u32) \<Rightarrow> mem \<Rightarrow> u32 \<Rightarrow> u32 \<Rightarrow> u32 \<Rightarrow> u32" where
  "sym_target f m sec strings s =
     (if is_external m s then f (sym_name m strings s)
      else if is_internal m s then load_u32 m (s + 8) + load_u32 m (section_ptr sec (load_u16 m (s + 12)) + 12)
      else load_u32 m (s + 8))"

lemma sym_distance:
  assumes "i < j" and "18 * j + c < 2 ^ 32" and "d \<le> 18 + c"
  shows "unat (sym_at symbols j + of_nat c - (sym_at symbols i + of_nat d)) = 18 * (j - i) + c - d"
proof -
  have "sym_at symbols j + of_nat c - (sym_at symbols i + of_nat d) = of_nat (18 * j + c) - of_nat (18 * i + d)"
    by (simp add: sym_at_def)
  also have "\<dots> = of_nat (18 * j + c - (18 * i + d))" using assms by (intro of_nat_diff [symmetric]) linarith
  finally have "unat (sym_at symbols j + of_nat c - (sym_at symbols i + of_nat d)) = 18 * j + c - (18 * i + d)"
    using assms(2) by (simp only:) (rule unat_of_nat_u32, linarith)
  then show ?thesis using assms(1) by (simp add: diff_mult_distrib2)
qed

lemma record_far:
  assumes "i < j" and "18 * j + 18 \<le> 2 ^ 32" and "k < 18"
  shows "\<not> unat (sym_at symbols j + of_nat k - (sym_at symbols i + 8)) < 4"
proof -
  have "unat (sym_at symbols j + of_nat k - (sym_at symbols i + of_nat 8)) = 18 * (j - i) + k - 8"
    using assms by (intro sym_distance) linarith+
  moreover have "18 \<le> 18 * (j - i)" using assms(1) by simp
  ultimately show ?thesis using assms(3) by simp
qed

lemma values_apart:
  assumes "i < j" and "18 * j + 18 \<le> 2 ^ 32"
  shows "dwords_apart (sym_at symbols j + 8) (sym_at symbols i + 8)"
proof -
  define d where "d = sym_at symbols j + 8 - (sym_at symbols i + 8)"
  have "unat (sym_at symbols j + of_nat 8 - (sym_at symbols i + of_nat 8)) = 18 * (j - i) + 8 - 8"
    using assms by (intro sym_distance) linarith+
  then have d: "unat d = 18 * (j - i)" by (simp add: d_def)
  then have "d \<noteq> 0" using assms(1) by auto
  then have "unat (- d) = 4294967296 - unat d" using unat_sub_if' [of 0 d] by (simp add: unat_gt_0 word_size)
  moreover have "18 * (j - i) + 18 \<le> 4294967296" using assms by simp
  moreover have "sym_at symbols i + 8 - (sym_at symbols j + 8) = - d" by (simp add: d_def)
  moreover have "1 \<le> j - i" using assms(1) by simp
  ultimately show ?thesis using d unfolding dwords_apart_def d_def [symmetric] by (simp only:) linarith
qed

lemma store_load_same: "store_u32 a (load_u32 m a) m = m"
  by (rule ext) (simp add: store_u32_def load_u32_def byte_simps)

lemma load_fold_stores:
  assumes "\<And>i j. i < j \<Longrightarrow> j < n \<Longrightarrow> dwords_apart (a j) (a i)" and "i < n"
  shows "load_u32 (fold (\<lambda>i. store_u32 (a i) (v i)) [0..<n] m) (a i) = v i"
  using assms
proof (induction n)
  case (Suc n)
  have other: "load_u32 (store_u32 (a n) w m') (a i) = load_u32 m' (a i)" if "i < n" for w m'
  proof (rule load_u32_cong)
    fix k :: u32 assume "k < 4"
    have "dwords_apart (a i) (a n)" using Suc.prems(1) [OF that] by (simp add: dwords_apart_def)
    from dwords_apart_bytes [OF this \<open>k < 4\<close>]
    show "store_u32 (a n) w m' (a i + k) = m' (a i + k)" by (intro store_u32_other) (simp add: word_le_nat_alt)
  qed
  show ?case
  proof (cases "i = n")
    case False
    with Suc show ?thesis by (simp add: other)
  qed (simp add: load_store_u32)
qed simp

lemma fold_stores_other:
  "(\<And>i. i \<in> set is \<Longrightarrow> \<not> unat (x - a i) < 4) \<Longrightarrow> fold (\<lambda>i. store_u32 (a i) (v i)) is m x = m x"
proof (induction "is" arbitrary: m)
  case (Cons i "is")
  have "store_u32 (a i) (v i) m x = m x" using Cons.prems [of i] by (intro store_u32_other) (simp add: word_le_nat_alt)
  with Cons show ?case by simp
qed simp

lemma fix_symbols_step:
  fixes resolve :: GetProcExFn
  assumes "c \<noteq> 0" and same: "\<And>k. k < 18 \<Longrightarrow> m1 (s + k) = m (s + k)"
    and res: "\<And>name. resolve name imp m1 = (f name, m1)"
    and va: "is_internal m s \<Longrightarrow>
      load_u32 m1 (section_ptr sec (load_u16 m (s + 12)) + 12) = load_u32 m (section_ptr sec (load_u16 m (s + 12)) + 12)"
  shows "fix_symbols_loop resolve sec strings imp s c ret m1 =
    fix_symbols_loop resolve sec strings imp (s + 18) (c - 1)
      (if is_external m s \<and> f (sym_name m strings s) = 0 then 0 else ret) (store_u32 (s + 8) (sym_target f m sec strings s) m1)"
proof -
  have fields: "load_u16 m1 (s + 12) = load_u16 m (s + 12)" "load_u32 m1 s = load_u32 m s" "load_u32 m1 (s + 4) = load_u32 m (s + 4)"
      "load_u32 m1 (s + 8) = load_u32 m (s + 8)"
    using same [of 0] same [of 1] same [of 2] same [of 3] same [of 4] same [of 5] same [of 6] same [of 7] same [of 8] same [of 9]
      same [of 10] same [of 11] same [of 12] same [of 13] by (simp_all add: load_u32_def load_u16_def add.assoc)
  consider "is_external m s" | "is_internal m s" | "load_u16 m (s + 12) \<in> {0xFFFF, 0xFFFE}"
    unfolding is_external_def is_internal_def by blast
  then show ?thesis
  proof cases
    case 1
    then show ?thesis using assms(1) fields res
      by (subst fix_symbols_loop.simps) (simp add: coff_consts Let_def sym_target_def is_external_def sym_name_def)
  next
    case 2
    then show ?thesis using assms(1) fields va
      by (subst fix_symbols_loop.simps) (simp add: coff_consts Let_def sym_target_def is_external_def is_internal_def)
  next
    case 3
    then have e: "\<not> is_external m s" "sym_target f m sec strings s = load_u32 m1 (s + 8)"
      using fields by (auto simp: sym_target_def is_external_def is_internal_def)
    have keep: "store_u32 (s + 8) (sym_target f m sec strings s) m1 = m1" unfolding e(2) by (rule store_load_same)
    show ?thesis unfolding keep using 3 e(1) assms(1) fields(1) by (subst fix_symbols_loop.simps) (auto simp: coff_consts Let_def)
  qed
qed

lemma fix_symbols_loop_eq:
  fixes resolve :: GetProcExFn
  assumes "18 * n \<le> 2 ^ 32" and "j \<le> n"
    and "\<And>name m'. (\<And>x. x \<notin> value_bytes symbols n \<Longrightarrow> m' x = m x) \<Longrightarrow> resolve name imp m' = (f name, m')"
    and "\<And>i k. i < n \<Longrightarrow> is_internal m (sym_at symbols i) \<Longrightarrow> k < 4 \<Longrightarrow>
      section_ptr sec (load_u16 m (sym_at symbols i + 12)) + 12 + k \<notin> value_bytes symbols n"
    and "\<And>x. (\<And>i. i < j \<Longrightarrow> \<not> unat (x - (sym_at symbols i + 8)) < 4) \<Longrightarrow> m1 x = m x"
  shows "fix_symbols_loop resolve sec strings imp (sym_at symbols j) (of_nat (n - j)) ret m1 =
    (if \<exists>i \<in> {j..<n}. is_external m (sym_at symbols i) \<and> f (sym_name m strings (sym_at symbols i)) = 0 then 0 else ret,
     fold (\<lambda>i. store_u32 (sym_at symbols i + 8) (sym_target f m sec strings (sym_at symbols i))) [j..<n] m1)"
  using assms(2,5)
proof (induction "n - j" arbitrary: j ret m1)
  case 0
  then show ?case by (subst fix_symbols_loop.simps) simp
next
  case (Suc d)
  let ?s = "sym_at symbols j" let ?v = "sym_target f m sec strings ?s"
  have jn: "j < n" using Suc.hyps(2) by simp
  have same: "m1 (?s + of_nat k) = m (?s + of_nat k)" if "k < 18" for k
    using that jn assms(1) by (intro Suc.prems(2) record_far) linarith+
  have same: "m1 (?s + k) = m (?s + k)" if "k < 18" for k
    using same [of "unat k"] that by (simp add: word_less_nat_alt)
  have outside: "m1 x = m x" if "x \<notin> value_bytes symbols n" for x
    using that jn by (intro Suc.prems(2)) (auto simp: value_bytes_def)
  have res: "resolve name imp m1 = (f name, m1)" for name by (rule assms(3)) (rule outside)
  have va: "load_u32 m1 (section_ptr sec (load_u16 m (?s + 12)) + 12) = load_u32 m (section_ptr sec (load_u16 m (?s + 12)) + 12)" if "is_internal m ?s"
    by (rule load_u32_cong, rule outside, rule assms(4) [OF jn that])
  let ?ret = "if is_external m ?s \<and> f (sym_name m strings ?s) = 0 then 0 else ret"
  have "unat (of_nat (n - j) :: u32) = n - j" using assms(1) by (intro unat_of_nat_u32) simp
  then have nz: "(of_nat (n - j) :: u32) \<noteq> 0" using jn by auto
  have "(of_nat (n - j) :: u32) = of_nat (Suc (n - Suc j))" using jn by (simp only: Suc_diff_Suc)
  then have nxt: "(of_nat (n - j) :: u32) - 1 = of_nat (n - Suc j)" "?s + 18 = sym_at symbols (Suc j)" by (simp_all add: sym_at_def algebra_simps)
  have step: "fix_symbols_loop resolve sec strings imp ?s (of_nat (n - j)) ret m1 =
      fix_symbols_loop resolve sec strings imp (sym_at symbols (Suc j)) (of_nat (n - Suc j)) ?ret (store_u32 (?s + 8) ?v m1)"
    unfolding nxt [symmetric] by (rule fix_symbols_step) (use nz same res va in auto)
  have "fix_symbols_loop resolve sec strings imp (sym_at symbols (Suc j)) (of_nat (n - Suc j)) ?ret (store_u32 (?s + 8) ?v m1) =
    (if \<exists>i \<in> {Suc j..<n}. is_external m (sym_at symbols i) \<and> f (sym_name m strings (sym_at symbols i)) = 0 then 0 else ?ret,
     fold (\<lambda>i. store_u32 (sym_at symbols i + 8) (sym_target f m sec strings (sym_at symbols i))) [Suc j..<n] (store_u32 (?s + 8) ?v m1))"
  proof (rule Suc.hyps(1))
    fix x assume far: "\<And>i. i < Suc j \<Longrightarrow> \<not> unat (x - (sym_at symbols i + 8)) < 4"
    have "\<not> unat (x - (?s + 8)) < 4" by (rule far) simp
    then have "store_u32 (?s + 8) ?v m1 x = m1 x" by (intro store_u32_other) (simp add: word_le_nat_alt)
    then show "store_u32 (?s + 8) ?v m1 x = m x" using Suc.prems(2) far by simp
  qed (use Suc.hyps(2) jn in auto)
  moreover have "{j..<n} = insert j {Suc j..<n}" using jn by auto
  moreover have "[j..<n] = j # [Suc j..<n]" using jn by (rule upt_conv_Cons)
  ultimately show ?case unfolding step by auto
qed



section \<open>Rebasing and alignment\<close>

lemma rebase_applied:
  assumes "patched (coff_patches (rebase_patch delta) m coff) \<inter> coff_tables (\<lambda>r m. {x. unat (x - r) < 10}) m coff = {}"
    and "targets_apart (coff_patches (rebase_patch delta) m coff)"
    and "(va, r) \<in> set (coff_relocs m coff)" and "load_u16 m (r + 8) = 6"
  shows "load_u32 (rebase_coff coff syms delta m) (load_u32 m r + va + delta) = load_u32 m (load_u32 m r + va + delta) + delta"
  unfolding rebase_is_patches [OF assms(1)]
  using coff_patches_member [OF assms(3), of "(load_u32 m r + va + delta, delta)" "rebase_patch delta"] assms(2,4)
  by (intro load_patched) (simp_all add: rebase_patch_def targets_apart_def)

lemma align_mask: "coff_get_align_from_characteristics c =
    (let field = unat c div 2 ^ 20 mod 16 in of_nat (2 ^ (if field = 0 \<or> 13 < field then 12 else field - 1) - 1))"
proof -
  define cl where "cl = drop_bit 4 (drop_bit 16 c AND 0xff)"
  have m: "(0xff :: u32) = mask 8" by (simp add: mask_eq_exp_minus_1)
  define f where "f = unat c div 2 ^ 20 mod 16"
  have d: "x mod 256 div 16 = x div 16 mod 16" for x :: nat using mod_mult2_eq [of x 16 16] by simp
  have "unat cl = unat c div 2 ^ 16 mod 2 ^ 8 div 2 ^ 4" unfolding cl_def m by (simp only: unat_drop unat_and_mask)
  also have "\<dots> = f" by (simp add: f_def d div_mult2_eq [symmetric])
  finally have f: "cl = of_nat f" by auto
  have "list_all (\<lambda>f. (let cl = of_nat f :: u32;
        cl = (if cl = 0 then 12 else let cl = cl - 1 in if cl > 12 then 12 else cl)
      in push_bit (unat cl) (1 :: u32) - 1) = of_nat (2 ^ (if f = 0 \<or> 13 < f then 12 else f - 1) - 1)) [0..<16]"
    by code_simp
  moreover have "f < 16" by (simp add: f_def)
  ultimately show ?thesis
    unfolding coff_get_align_from_characteristics_def Let_def cl_def [symmetric] f_def [symmetric] f ALIGN_EXP_DEFAULT_def
    by (simp only: list_all_iff set_upt atLeastLessThan_iff le0 simp_thms)
qed

end
