(* ===== verification/Xfs.thy ===== *)
theory Xfs
  imports Scan
begin

text \<open>
  The XFS leaves: \<^verbatim>\<open>xfs_extent.rs\<close> (one packed extent record), \<^verbatim>\<open>xfs_hash_lookup.rs\<close> (binary search of a
  directory leaf by name hash), \<^verbatim>\<open>xfs_node_hash.rs\<close> (linear search of an inner node),
  \<^verbatim>\<open>xfs_get_last_dirblock.rs\<close> and \<^verbatim>\<open>xfs_blkrel2sectabs.rs\<close>. A record of 16 bytes is a list of that
  length; on-disk tables are read from memory, big-endian. The lemmas relate the shifted words to the
  128-bit value of a record, and the searches to the table they run over.
\<close>

unbundle bit_operations_syntax

section \<open>Extent records\<close>

record XfsBmbtIrec =
  br_startoff :: u64
  br_startblock :: u64
  br_blockcount :: u32
  br_state :: u32

definition XFS_BMBT_IREC_SIZE :: nat where "XFS_BMBT_IREC_SIZE = 24"
definition OFF_STARTOFF_LO :: nat where "OFF_STARTOFF_LO = 0"
definition OFF_STARTOFF_HI :: nat where "OFF_STARTOFF_HI = 4"
definition OFF_STARTBLOCK_LO :: nat where "OFF_STARTBLOCK_LO = 8"
definition OFF_STARTBLOCK_HI :: nat where "OFF_STARTBLOCK_HI = 12"
definition OFF_BLOCKCOUNT :: nat where "OFF_BLOCKCOUNT = 16"
definition OFF_STATE :: nat where "OFF_STATE = 20"

lemmas irec_offsets = XFS_BMBT_IREC_SIZE_def OFF_STARTOFF_LO_def OFF_STARTOFF_HI_def OFF_STARTBLOCK_LO_def
  OFF_STARTBLOCK_HI_def OFF_BLOCKCOUNT_def OFF_STATE_def

definition xfs_extent_unpack :: "u8 list \<Rightarrow> XfsBmbtIrec" where
  "xfs_extent_unpack rec =
     (let edx = be32 (rec ! 0) (rec ! 1) (rec ! 2) (rec ! 3);
          state = (if edx AND 0x80000000 \<noteq> 0 then 1 else 0);
          edx = edx AND 0x7fffffff;
          eax = be32 (rec ! 4) (rec ! 5) (rec ! 6) (rec ! 7);
          startoff_lo = drop_bit 9 eax OR push_bit 23 edx;
          startoff_hi = drop_bit 9 edx;
          edx = be32 (rec ! 4) (rec ! 5) (rec ! 6) (rec ! 7);
          eax = be32 (rec ! 8) (rec ! 9) (rec ! 10) (rec ! 11);
          ecx = be32 (rec ! 12) (rec ! 13) (rec ! 14) (rec ! 15);
          edx = edx AND 0x1ff;
          startblock_lo = drop_bit 21 ecx OR push_bit 11 eax;
          startblock_hi = drop_bit 21 eax OR push_bit 11 edx;
          blockcount = ecx AND 0x1fffff
      in \<lparr>br_startoff = ucast startoff_lo OR push_bit 32 (ucast startoff_hi),
          br_startblock = ucast startblock_lo OR push_bit 32 (ucast startblock_hi),
          br_blockcount = blockcount,
          br_state = state\<rparr>)"

definition write_u32_le :: "u8 list \<Rightarrow> nat \<Rightarrow> u32 \<Rightarrow> u8 list" where
  "write_u32_le buf off v = buf [off := byte 0 v, off + 1 := byte 1 v, off + 2 := byte 2 v, off + 3 := byte 3 v]"

definition write_xfs_bmbt_irec :: "u8 list \<Rightarrow> XfsBmbtIrec \<Rightarrow> u8 list" where
  "write_xfs_bmbt_irec out irec =
     (let out = write_u32_le out OFF_STATE (br_state irec);
          out = write_u32_le out OFF_STARTOFF_LO (ucast (br_startoff irec));
          out = write_u32_le out OFF_STARTOFF_HI (ucast (drop_bit 32 (br_startoff irec)));
          out = write_u32_le out OFF_STARTBLOCK_LO (ucast (br_startblock irec));
          out = write_u32_le out OFF_STARTBLOCK_HI (ucast (drop_bit 32 (br_startblock irec)))
      in write_u32_le out OFF_BLOCKCOUNT (br_blockcount irec))"

definition xfs_extent_unpack_into :: "u8 list \<Rightarrow> u8 list \<Rightarrow> u8 list" where
  "xfs_extent_unpack_into rec out = write_xfs_bmbt_irec out (xfs_extent_unpack rec)"

function read_rec_loop :: "mem \<Rightarrow> u32 \<Rightarrow> nat \<Rightarrow> u8 list \<Rightarrow> u8 list" where
  "read_rec_loop m extent_data i rec =
     (if i < 16 then read_rec_loop m extent_data (i + 1) (rec [i := m (extent_data + of_nat i)]) else rec)"
  by pat_completeness auto
termination by (relation "measure (\<lambda>(_, _, i, _). 16 - i)") auto

declare read_rec_loop.simps [simp del]

definition write_u32_at :: "u32 \<Rightarrow> nat \<Rightarrow> u32 \<Rightarrow> mem \<Rightarrow> mem" where
  "write_u32_at base off v m = m
     (base + of_nat off := byte 0 v, base + of_nat (off + 1) := byte 1 v,
      base + of_nat (off + 2) := byte 2 v, base + of_nat (off + 3) := byte 3 v)"

definition xfs_extent_unpack_ptr :: "u32 \<Rightarrow> u32 \<Rightarrow> mem \<Rightarrow> mem" where
  "xfs_extent_unpack_ptr extent_data extent_out m =
     (let rec = read_rec_loop m extent_data 0 (replicate 16 0);
          irec = xfs_extent_unpack rec;
          m = write_u32_at extent_out OFF_STATE (br_state irec) m;
          m = write_u32_at extent_out OFF_STARTOFF_LO (ucast (br_startoff irec)) m;
          m = write_u32_at extent_out OFF_STARTOFF_HI (ucast (drop_bit 32 (br_startoff irec))) m;
          m = write_u32_at extent_out OFF_STARTBLOCK_LO (ucast (br_startblock irec)) m;
          m = write_u32_at extent_out OFF_STARTBLOCK_HI (ucast (drop_bit 32 (br_startblock irec))) m
      in write_u32_at extent_out OFF_BLOCKCOUNT (br_blockcount irec) m)"

definition read_xfs_bmbt_irec :: "u8 list \<Rightarrow> XfsBmbtIrec" where
  "read_xfs_bmbt_irec buf =
     (let lo = (\<lambda>off. le32 (buf ! off) (buf ! (off + 1)) (buf ! (off + 2)) (buf ! (off + 3)))
      in \<lparr>br_startoff = ucast (lo OFF_STARTOFF_LO) OR push_bit 32 (ucast (lo OFF_STARTOFF_HI)),
          br_startblock = ucast (lo OFF_STARTBLOCK_LO) OR push_bit 32 (ucast (lo OFF_STARTBLOCK_HI)),
          br_blockcount = lo OFF_BLOCKCOUNT,
          br_state = lo OFF_STATE\<rparr>)"

section \<open>Searches by name hash\<close>

definition XFS_DIR2_LEAF_ENTRY_SIZE :: u32 where "XFS_DIR2_LEAF_ENTRY_SIZE = 8"
definition ERROR_FILE_NOT_FOUND :: u32 where "ERROR_FILE_NOT_FOUND = 5"
definition OFF_HASHVAL :: u32 where "OFF_HASHVAL = 0"
definition OFF_ADDRESS :: u32 where "OFF_ADDRESS = 4"

record XfsHashLookupResult =
  lookup_eax :: u32
  lookup_zf :: u32

definition pack_eax_zf :: "u32 \<Rightarrow> u32 \<Rightarrow> u64" where
  "pack_eax_zf eax zf = push_bit 32 (ucast zf) OR ucast eax"

definition unpack_eax_zf :: "u64 \<Rightarrow> u32 \<times> u32" where
  "unpack_eax_zf packed = (ucast packed, ucast (drop_bit 32 packed))"

definition trampoline_zf_from_flag :: "u32 \<Rightarrow> bool" where
  "trampoline_zf_from_flag zf \<longleftrightarrow> zf = 1"

lemma unpack_pack_eax_zf: "unpack_eax_zf (pack_eax_zf eax zf) = (eax, zf)"
  unfolding unpack_eax_zf_def pack_eax_zf_def prod.inject
  by (intro conjI bit_word_eqI) (auto simp: bit_simps dest: bit_imp_le_length)

lemma half_less: "n \<noteq> 0 \<Longrightarrow> unat (drop_bit 1 n) < unat n" for n :: u32
  unfolding unat_drop by (rule div_less_dividend) (simp_all add: unat_gt_0)

lemma rest_less: "n \<noteq> 0 \<Longrightarrow> unat (n - drop_bit 1 n - 1) < unat n" for n :: u32
proof -
  assume n: "n \<noteq> 0"
  have lt: "drop_bit 1 n < n" using half_less [OF n] by (simp add: word_less_nat_alt)
  then have "unat (n - drop_bit 1 n) = unat n - unat (drop_bit 1 n)" by (simp add: unat_sub)
  moreover have "n - drop_bit 1 n \<noteq> 0" using lt by auto
  ultimately show ?thesis using unat_dec_less [of "n - drop_bit 1 n"] by linarith
qed

function xfs_get_addr_loop :: "mem \<Rightarrow> u32 \<Rightarrow> u32 \<Rightarrow> u32 \<Rightarrow> XfsHashLookupResult" where
  "xfs_get_addr_loop m hash cur remaining =
     (if remaining = 0 then \<lparr>lookup_eax = ERROR_FILE_NOT_FOUND, lookup_zf = 0\<rparr>
      else
        let mid = drop_bit 1 remaining;
            entry = cur + mid * XFS_DIR2_LEAF_ENTRY_SIZE;
            entry_hash = load_be_u32 m (entry + OFF_HASHVAL)
        in if hash < entry_hash then xfs_get_addr_loop m hash cur mid
           else if hash > entry_hash then
             xfs_get_addr_loop m hash (entry + XFS_DIR2_LEAF_ENTRY_SIZE) (remaining - mid - 1)
           else \<lparr>lookup_eax = load_be_u32 m (entry + OFF_ADDRESS), lookup_zf = 1\<rparr>)"
  by pat_completeness auto
termination
  by (relation "measure (\<lambda>(_, _, _, remaining). unat remaining)") (auto simp only: in_measure prod.case wf_measure intro: half_less rest_less)

declare xfs_get_addr_loop.simps [simp del]

definition xfs_get_addr_by_hash :: "u32 \<Rightarrow> u32 \<Rightarrow> u32 \<Rightarrow> mem \<Rightarrow> XfsHashLookupResult" where
  "xfs_get_addr_by_hash hash base len m = xfs_get_addr_loop m hash base len"

definition xfs_get_addr_by_hash_ptr :: "u32 \<Rightarrow> u32 \<Rightarrow> u32 \<Rightarrow> mem \<Rightarrow> XfsHashLookupResult" where
  "xfs_get_addr_by_hash_ptr hash base len m =
     (if len = 0 then \<lparr>lookup_eax = ERROR_FILE_NOT_FOUND, lookup_zf = 0\<rparr>
      else if base = 0 then \<lparr>lookup_eax = ERROR_FILE_NOT_FOUND, lookup_zf = 0\<rparr>
      else xfs_get_addr_by_hash hash base len m)"

definition XFS_DA_NODE_ENTRY_SIZE :: u32 where "XFS_DA_NODE_ENTRY_SIZE = 8"
definition OFF_V4_BTREE :: u32 where "OFF_V4_BTREE = 16"
definition OFF_V5_BTREE :: u32 where "OFF_V5_BTREE = 64"
definition BASE_TO_BTREE_DELTA :: u32 where "BASE_TO_BTREE_DELTA = XFS_DA_NODE_ENTRY_SIZE"
definition OFF_NODE_HASHVAL :: u32 where "OFF_NODE_HASHVAL = 0"
definition OFF_NODE_BEFORE :: u32 where "OFF_NODE_BEFORE = 4"

definition btree_off :: "u32 \<Rightarrow> u32" where
  "btree_off version = (if version = 5 then OFF_V5_BTREE else OFF_V4_BTREE)"

function xfs_get_before_loop :: "mem \<Rightarrow> u32 \<Rightarrow> u32 \<Rightarrow> u32 \<Rightarrow> u32 \<Rightarrow> XfsHashLookupResult" where
  "xfs_get_before_loop m entries count hash i =
     (if i < count then
        let entry = entries + i * XFS_DA_NODE_ENTRY_SIZE;
            entry_hash = load_be_u32 m (entry + OFF_NODE_HASHVAL)
        in if entry_hash \<ge> hash then \<lparr>lookup_eax = load_be_u32 m (entry + OFF_NODE_BEFORE), lookup_zf = 1\<rparr>
           else xfs_get_before_loop m entries count hash (i + 1)
      else \<lparr>lookup_eax = ERROR_FILE_NOT_FOUND, lookup_zf = 0\<rparr>)"
  by pat_completeness auto
termination
  by (relation "measure (\<lambda>(_, _, count, _, i). unat count - unat i)") (auto simp only: in_measure prod.case wf_measure unat_gap_less)

declare xfs_get_before_loop.simps [simp del]

definition xfs_get_before_by_hashval :: "u32 \<Rightarrow> u32 \<Rightarrow> u32 \<Rightarrow> mem \<Rightarrow> XfsHashLookupResult" where
  "xfs_get_before_by_hashval entries count hash m = xfs_get_before_loop m entries count hash 0"

definition xfs_get_before_by_hashval_ptr :: "u32 \<Rightarrow> u32 \<Rightarrow> u32 \<Rightarrow> mem \<Rightarrow> XfsHashLookupResult" where
  "xfs_get_before_by_hashval_ptr entries count hash m =
     (if count = 0 then \<lparr>lookup_eax = ERROR_FILE_NOT_FOUND, lookup_zf = 0\<rparr>
      else if entries = 0 then \<lparr>lookup_eax = ERROR_FILE_NOT_FOUND, lookup_zf = 0\<rparr>
      else xfs_get_before_by_hashval entries count hash m)"

definition entries_from_node :: "u32 \<Rightarrow> u32 \<Rightarrow> u32" where
  "entries_from_node node version = node + btree_off version"

definition entries_from_base :: "u32 \<Rightarrow> u32" where
  "entries_from_base base = base - BASE_TO_BTREE_DELTA"

section \<open>Block arithmetic\<close>

definition XFS_BMBT_REC_SIZE_SHIFT :: nat where "XFS_BMBT_REC_SIZE_SHIFT = 4"
definition XFS_BMBT_REC_SIZE :: u32 where "XFS_BMBT_REC_SIZE = push_bit XFS_BMBT_REC_SIZE_SHIFT 1"

definition xfs_get_last_dirblock_from_extent :: "u8 list \<Rightarrow> u32 \<Rightarrow> u32 \<times> u32" where
  "xfs_get_last_dirblock_from_extent rec dirblklog =
     (let edx = be32 (rec ! 0) (rec ! 1) (rec ! 2) (rec ! 3) AND 0x7fffffff;
          eax = be32 (rec ! 4) (rec ! 5) (rec ! 6) (rec ! 7);
          startoff_lo = drop_bit 9 eax OR push_bit 23 edx;
          edx = drop_bit 9 edx;
          startoff_hi = edx;
          blockcount = be32 (rec ! 12) (rec ! 13) (rec ! 14) (rec ! 15) AND 0x1fffff;
          last_in_extent = drop_bit (unat (dirblklog AND 31)) blockcount - 1;
          lo = startoff_lo + last_in_extent; carry = (lo < startoff_lo);
          hi = startoff_hi + (if carry then 1 else 0)
      in (lo, hi))"

definition xfs_get_last_dirblock :: "mem \<Rightarrow> u32 \<Rightarrow> u32 \<Rightarrow> u32 \<Rightarrow> u32 \<Rightarrow> u32 \<times> u32" where
  "xfs_get_last_dirblock m inode nextents_offset inode_core_size dirblklog =
     (let nextents = load_be_u32 m (inode + nextents_offset);
          rec_off = inode_core_size + push_bit XFS_BMBT_REC_SIZE_SHIFT nextents - XFS_BMBT_REC_SIZE;
          rec_ptr = inode + rec_off;
          rec = [m rec_ptr, m (rec_ptr + 1), m (rec_ptr + 2), m (rec_ptr + 3), m (rec_ptr + 4), m (rec_ptr + 5),
            m (rec_ptr + 6), m (rec_ptr + 7), m (rec_ptr + 8), m (rec_ptr + 9), m (rec_ptr + 10), m (rec_ptr + 11),
            m (rec_ptr + 12), m (rec_ptr + 13), m (rec_ptr + 14), m (rec_ptr + 15)]
      in xfs_get_last_dirblock_from_extent rec dirblklog)"

definition xfs_get_last_dirblock_ptr :: "u32 \<Rightarrow> u32 \<Rightarrow> u32 \<Rightarrow> u32 \<Rightarrow> u32 \<Rightarrow> mem \<Rightarrow> u32 \<times> mem" where
  "xfs_get_last_dirblock_ptr inode nextents_offset inode_core_size dirblklog out_hi m =
     (let (lo, hi) = xfs_get_last_dirblock m inode nextents_offset inode_core_size dirblklog
      in (lo, store_u32 out_hi hi m))"

definition xfs_blkrel2sectabs :: "u32 \<Rightarrow> u32 \<Rightarrow> u32 \<Rightarrow> u32 \<Rightarrow> u32 \<Rightarrow> u32 \<Rightarrow> u32 \<Rightarrow> u32 \<times> u32" where
  "xfs_blkrel2sectabs block_lo block_hi agblklog agblocks mask_lo mask_hi sectpblog =
     (let ag_shift = unat (agblklog AND 31);
          sect_shift = unat (sectpblog AND 31);
          block = push_bit 32 (ucast block_hi) OR ucast block_lo :: u64;
          ag_full = drop_bit ag_shift block;
          ag_lo = ucast ag_full :: u32;
          product = (ucast ag_lo :: u64) * ucast agblocks;
          masked = ucast (block_lo AND mask_lo) OR push_bit 32 (ucast (block_hi AND mask_hi));
          abs_block = product + masked;
          sector = push_bit sect_shift abs_block
      in (ucast sector, ucast (drop_bit 32 sector)))"

definition xfs_blkrel2sectabs_from_regs :: "u32 \<Rightarrow> u32 \<Rightarrow> u32 \<Rightarrow> u32 \<Rightarrow> u32 \<Rightarrow> u32 \<Rightarrow> u32 \<Rightarrow> u32 \<times> u32" where
  "xfs_blkrel2sectabs_from_regs block_lo block_hi agblklog agblocks mask_lo mask_hi sectpblog =
     xfs_blkrel2sectabs block_lo block_hi agblklog agblocks mask_lo mask_hi sectpblog"

definition xfs_blkrel2sectabs_ptr :: "u32 \<Rightarrow> u32 \<Rightarrow> u32 \<Rightarrow> u32 \<Rightarrow> u32 \<Rightarrow> u32 \<Rightarrow> u32 \<Rightarrow> u32 \<Rightarrow> mem \<Rightarrow> u32 \<times> mem" where
  "xfs_blkrel2sectabs_ptr block_lo block_hi agblklog agblocks mask_lo mask_hi sectpblog out_hi m =
     (let (lo, hi) = xfs_blkrel2sectabs block_lo block_hi agblklog agblocks mask_lo mask_hi sectpblog
      in (lo, store_u32 out_hi hi m))"

section \<open>Extents: the fields of the 128-bit record\<close>

definition be_value :: "u8 list \<Rightarrow> nat" where
  "be_value bs = foldl (\<lambda>v b. 256 * v + unat b) 0 bs"

lemma length_16_cases:
  assumes "length xs = 16"
  obtains a b c d e f g h i j k l m n p q where "xs = [a, b, c, d, e, f, g, h, i, j, k, l, m, n, p, q]"
  using assms by (auto simp: length_Suc_conv numeral_eq_Suc)

lemma be_value_words:
  assumes "length rec = 16"
  shows "be_value rec =
    2 ^ 96 * unat (be32 (rec ! 0) (rec ! 1) (rec ! 2) (rec ! 3)) + 2 ^ 64 * unat (be32 (rec ! 4) (rec ! 5) (rec ! 6) (rec ! 7))
    + 2 ^ 32 * unat (be32 (rec ! 8) (rec ! 9) (rec ! 10) (rec ! 11)) + unat (be32 (rec ! 12) (rec ! 13) (rec ! 14) (rec ! 15))"
  using assms by (elim length_16_cases) (simp add: be_value_def be32_def unat_le32)

lemma shrd_value:
  fixes x y :: u32
  assumes "k < 32"
  shows "unat (drop_bit k x OR push_bit (32 - k) y) = (unat x + 2 ^ 32 * unat y) div 2 ^ k mod 2 ^ 32"
proof -
  let ?w = "push_bit 32 (ucast y :: u64) OR ucast x"
  have "drop_bit k x OR push_bit (32 - k) y = ucast (drop_bit k ?w)"
    using assms by (intro bit_word_eqI) (auto simp: bit_simps add.commute dest: bit_imp_le_length)
  then have "unat (drop_bit k x OR push_bit (32 - k) y) = unat (drop_bit k ?w) mod 2 ^ 32"
    by (simp only: unsigned_ucast_eq) (simp add: take_bit_eq_mod)
  then show ?thesis by (simp only: unat_drop unat_join_dwords add.commute)
qed

lemma startoff_value:
  fixes a b :: u32
  shows "unat (ucast (drop_bit 9 b OR push_bit 23 a) OR push_bit 32 (ucast (drop_bit 9 a)) :: u64) = (unat b + 2 ^ 32 * unat a) div 512"
proof -
  define n where "n = unat b + 2 ^ 32 * unat a"
  have "unat (ucast (drop_bit 9 b OR push_bit 23 a) OR push_bit 32 (ucast (drop_bit 9 a)) :: u64)
      = 2 ^ 32 * (unat a div 512) + n div 512 mod 2 ^ 32"
    using shrd_value [of 9 b a] unat_join_dwords [of "drop_bit 9 a" "drop_bit 9 b OR push_bit 23 a"]
    by (simp add: or.commute unat_drop n_def)
  also have "unat a = n div 2 ^ 32" by (simp add: n_def)
  also have "n div 2 ^ 32 div 512 = n div 512 div 2 ^ 32" by (simp only: div_mult2_eq [symmetric] mult.commute)
  finally show ?thesis by (simp add: n_def)
qed

lemma startblock_nat: "(d + 2 ^ 32 * c) div 2 ^ 21 mod 2 ^ 32 + 2 ^ 32 * ((c + 2 ^ 32 * e) div 2 ^ 21)
    = (d + 2 ^ 32 * c + 2 ^ 64 * e) div 2 ^ 21" if "d < 2 ^ 32" for c d e :: nat
proof -
  define n where "n = d + 2 ^ 32 * (c + 2 ^ 32 * e)"
  have n: "n = (d + 2 ^ 32 * c) + e * 2 ^ 43 * 2 ^ 21" by (simp add: n_def)
  have "n div 2 ^ 21 = (d + 2 ^ 32 * c) div 2 ^ 21 + e * 2 ^ 43" unfolding n by (simp only: div_mult_self1 [of "2 ^ 21"] power_not_zero zero_neq_numeral not_False_eq_True add.commute)
  also have "\<dots> = (d + 2 ^ 32 * c) div 2 ^ 21 + 2 ^ 32 * (2 ^ 11 * e)" by simp
  finally have "n div 2 ^ 21 mod 2 ^ 32 = (d + 2 ^ 32 * c) div 2 ^ 21 mod 2 ^ 32" by (simp only: mod_mult_self2)
  moreover have "n div 2 ^ 21 div 2 ^ 32 = n div 2 ^ 32 div 2 ^ 21" by (simp only: div_mult2_eq [symmetric] mult.commute)
  moreover have "n div 2 ^ 32 = c + 2 ^ 32 * e" using that by (simp add: n_def)
  ultimately have "(d + 2 ^ 32 * c) div 2 ^ 21 mod 2 ^ 32 + 2 ^ 32 * ((c + 2 ^ 32 * e) div 2 ^ 21) = n div 2 ^ 21"
    using mod_mult_div_eq [of "n div 2 ^ 21" "2 ^ 32"] by simp
  then show ?thesis by (simp add: n_def)
qed

lemma startblock_value:
  fixes c d e :: u32
  assumes "unat e < 512"
  shows "unat (ucast (drop_bit 21 d OR push_bit 11 c) OR push_bit 32 (ucast (drop_bit 21 c OR push_bit 11 e)) :: u64)
    = (unat d + 2 ^ 32 * unat c + 2 ^ 64 * unat e) div 2 ^ 21"
proof -
  have "(unat c + 2 ^ 32 * unat e) div 2 ^ 21 < 2 ^ 32"
    using assms unat_u32 [of c] by (simp add: div_less_iff_less_mult del: unat_u32)
  then have "unat (drop_bit 21 c OR push_bit 11 e) = (unat c + 2 ^ 32 * unat e) div 2 ^ 21"
    using shrd_value [of 21 c e] by simp
  then show ?thesis
    using shrd_value [of 21 d c] startblock_nat [of "unat d" "unat c" "unat e"]
      unat_join_dwords [of "drop_bit 21 c OR push_bit 11 e" "drop_bit 21 d OR push_bit 11 c"] unat_u32 [of d]
    by (simp add: or.commute)
qed

lemma top_bit: "(if x AND 0x80000000 \<noteq> 0 then 1 else 0 :: u32) = drop_bit 31 x" for x :: u32
proof -
  define top :: u32 where "top = 0x80000000"
  have b: "bit top n \<longleftrightarrow> n = 31" for n
  proof -
    have e: "top = 2 ^ 31" by (simp add: top_def)
    show ?thesis unfolding e bit_exp_iff by auto
  qed
  have "x AND top = (if bit x 31 then top else 0)" by (rule bit_word_eqI) (auto simp: bit_and_iff b)
  moreover have "top \<noteq> 0" by (simp add: top_def)
  moreover have "bit (drop_bit 31 x) n \<longleftrightarrow> n = 0 \<and> bit x 31" for n
    using bit_imp_le_length [of x "31 + n"] by (cases n) (auto simp: bit_drop_bit_eq)
  then have "drop_bit 31 x = (if bit x 31 then 1 else 0)" by (intro bit_word_eqI) (simp add: bit_1_iff)
  ultimately show ?thesis by (simp add: top_def)
qed

lemma record_nat:
  fixes a b c d s t :: nat
  assumes "s = a div 2 ^ 31" and "t = (b + 2 ^ 32 * (a mod 2 ^ 31)) div 512"
    and "u = (d + 2 ^ 32 * c + 2 ^ 64 * (b mod 512)) div 2 ^ 21"
  shows "2 ^ 96 * a + 2 ^ 64 * b + 2 ^ 32 * c + d = 2 ^ 127 * s + 2 ^ 73 * t + 2 ^ 21 * u + d mod 2 ^ 21"
proof -
  have "a = 2 ^ 31 * s + a mod 2 ^ 31" by (simp add: assms)
  moreover have "(b + 2 ^ 32 * (a mod 2 ^ 31)) mod 512 = b mod 512"
    using mod_mult_self2 [of b 512 "2 ^ 23 * (a mod 2 ^ 31)"] by simp
  then have "b + 2 ^ 32 * (a mod 2 ^ 31) = 512 * t + b mod 512"
    unfolding assms(2) by (metis mult_div_mod_eq)
  moreover have "(d + 2 ^ 32 * c + 2 ^ 64 * (b mod 512)) mod 2 ^ 21 = d mod 2 ^ 21"
    using mod_mult_self2 [of d "2 ^ 21" "2 ^ 11 * c + 2 ^ 43 * (b mod 512)"] by (simp add: algebra_simps)
  then have "d + 2 ^ 32 * c + 2 ^ 64 * (b mod 512) = 2 ^ 21 * u + d mod 2 ^ 21"
    unfolding assms(3) by (metis mult_div_mod_eq)
  ultimately show ?thesis by simp
qed

lemma irec_values:
  assumes "rec_a = be32 (rec ! 0) (rec ! 1) (rec ! 2) (rec ! 3)" and "rec_b = be32 (rec ! 4) (rec ! 5) (rec ! 6) (rec ! 7)"
    and "rec_c = be32 (rec ! 8) (rec ! 9) (rec ! 10) (rec ! 11)" and "rec_d = be32 (rec ! 12) (rec ! 13) (rec ! 14) (rec ! 15)"
  shows "unat (br_state (xfs_extent_unpack rec)) = unat rec_a div 2 ^ 31"
    and "unat (br_startoff (xfs_extent_unpack rec)) = (unat rec_b + 2 ^ 32 * (unat rec_a mod 2 ^ 31)) div 512"
    and "unat (br_startblock (xfs_extent_unpack rec)) = (unat rec_d + 2 ^ 32 * unat rec_c + 2 ^ 64 * (unat rec_b mod 512)) div 2 ^ 21"
    and "unat (br_blockcount (xfs_extent_unpack rec)) = unat rec_d mod 2 ^ 21"
proof -
  have masks: "(0x7fffffff :: u32) = mask 31" "(0x1ff :: u32) = mask 9" "(0x1fffff :: u32) = mask 21" by (simp_all add: mask_eq_exp_minus_1)
  show "unat (br_state (xfs_extent_unpack rec)) = unat rec_a div 2 ^ 31"
    unfolding xfs_extent_unpack_def Let_def assms [symmetric] XfsBmbtIrec.simps top_bit unat_drop ..
  show "unat (br_startoff (xfs_extent_unpack rec)) = (unat rec_b + 2 ^ 32 * (unat rec_a mod 2 ^ 31)) div 512"
    unfolding xfs_extent_unpack_def Let_def assms [symmetric] XfsBmbtIrec.simps startoff_value masks unat_and_mask ..
  show "unat (br_blockcount (xfs_extent_unpack rec)) = unat rec_d mod 2 ^ 21"
    unfolding xfs_extent_unpack_def Let_def assms [symmetric] XfsBmbtIrec.simps masks unat_and_mask ..
  have e: "unat (rec_b AND mask 9) = unat rec_b mod 512" by (simp add: unat_and_mask)
  have "unat (rec_b AND mask 9) < 512" by (simp add: e)
  from startblock_value [OF this, of rec_d rec_c]
  show "unat (br_startblock (xfs_extent_unpack rec)) = (unat rec_d + 2 ^ 32 * unat rec_c + 2 ^ 64 * (unat rec_b mod 512)) div 2 ^ 21"
    unfolding xfs_extent_unpack_def Let_def assms [symmetric] XfsBmbtIrec.simps masks e .
qed

lemma extent_fields_bounded:
  "unat (br_state (xfs_extent_unpack rec)) < 2 ^ 1" "unat (br_startoff (xfs_extent_unpack rec)) < 2 ^ 54"
  "unat (br_startblock (xfs_extent_unpack rec)) < 2 ^ 52" "unat (br_blockcount (xfs_extent_unpack rec)) < 2 ^ 21"
proof -
  note v = irec_values [OF refl refl refl refl, of rec]
  let ?a = "be32 (rec ! 0) (rec ! 1) (rec ! 2) (rec ! 3)" let ?b = "be32 (rec ! 4) (rec ! 5) (rec ! 6) (rec ! 7)"
  let ?c = "be32 (rec ! 8) (rec ! 9) (rec ! 10) (rec ! 11)" let ?d = "be32 (rec ! 12) (rec ! 13) (rec ! 14) (rec ! 15)"
  have q: "x div 2 ^ k < 2 ^ j" if "x < 2 ^ (j + k)" for x k j :: nat
    using that by (simp add: power_add div_less_iff_less_mult)
  show "unat (br_state (xfs_extent_unpack rec)) < 2 ^ 1" unfolding v(1) by (rule q) (use unat_u32 [of ?a] in simp)
  have g: "x + 2 ^ 32 * y < 2 ^ (54 + 9)" if "x < 4294967296" "y < 2 ^ 31" for x y :: nat using that by simp
  have "unat ?b + 2 ^ 32 * (unat ?a mod 2 ^ 31) < 2 ^ (54 + 9)" by (rule g) simp_all
  from q [OF this] show "unat (br_startoff (xfs_extent_unpack rec)) < 2 ^ 54" unfolding v(2) by simp
  have g: "x + 2 ^ 32 * y + 2 ^ 64 * z < 2 ^ (52 + 21)" if "x < 4294967296" "y < 4294967296" "z < 512" for x y z :: nat
    using that by simp
  have "unat ?d + 2 ^ 32 * unat ?c + 2 ^ 64 * (unat ?b mod 512) < 2 ^ (52 + 21)" by (rule g) simp_all
  from q [OF this] show "unat (br_startblock (xfs_extent_unpack rec)) < 2 ^ 52" unfolding v(3) .
  show "unat (br_blockcount (xfs_extent_unpack rec)) < 2 ^ 21" unfolding v(4) by simp
qed

lemma extent_value:
  assumes "length rec = 16"
  shows "be_value rec = 2 ^ 127 * unat (br_state (xfs_extent_unpack rec)) + 2 ^ 73 * unat (br_startoff (xfs_extent_unpack rec))
      + 2 ^ 21 * unat (br_startblock (xfs_extent_unpack rec)) + unat (br_blockcount (xfs_extent_unpack rec))"
  unfolding be_value_words [OF assms] irec_values [OF refl refl refl refl] by (rule record_nat [OF refl refl refl])

lemma read_rec_loop_eq: "length rec = 16 \<Longrightarrow> i \<le> 16 \<Longrightarrow>
    read_rec_loop m p i rec = take i rec @ mem_bytes m (p + of_nat i) (16 - i)"
proof (induction m p i rec rule: read_rec_loop.induct)
  case (1 m p i rec)
  show ?case
  proof (cases "i < 16")
    case True
    then have s: "16 - i = Suc (16 - Suc i)" by simp
    from True 1 show ?thesis
      by (subst read_rec_loop.simps) (simp add: s take_Suc_conv_app_nth algebra_simps)
  next
    case False
    with 1(2,3) show ?thesis by (subst read_rec_loop.simps) simp
  qed
qed

lemma write_u32_at_eq: "write_u32_at base off v m = store_u32 (base + of_nat off) v m"
  by (simp add: write_u32_at_def store_u32_def ac_simps)

text \<open>The six stores of the record, as one store of its 24 bytes.\<close>

definition irec_bytes :: "XfsBmbtIrec \<Rightarrow> u8 list" where
  "irec_bytes e = concat (map (\<lambda>v. map (\<lambda>k. byte k v) [0, 1, 2, 3])
     [ucast (br_startoff e), ucast (drop_bit 32 (br_startoff e)), ucast (br_startblock e),
      ucast (drop_bit 32 (br_startblock e)), br_blockcount e, br_state e :: u32])"

lemma join_dwords_split: "ucast (ucast w :: u32) OR push_bit 32 (ucast (ucast (drop_bit 32 w) :: u32)) = w" for w :: u64
  by (rule bit_word_eqI) (auto simp: bit_simps)

lemma write_irec_bytes: "length out = 24 \<Longrightarrow> write_xfs_bmbt_irec out e = irec_bytes e"
  by (intro nth_equalityI)
    (auto simp: write_xfs_bmbt_irec_def write_u32_le_def irec_offsets irec_bytes_def less_Suc_eq numeral_eq_Suc)

lemma read_irec_bytes: "read_xfs_bmbt_irec (irec_bytes e) = e"
  by (simp add: read_xfs_bmbt_irec_def irec_offsets irec_bytes_def byte_simps join_dwords_split)

lemma unpack_ptr_bytes: "xfs_extent_unpack_ptr extent_data extent_out m =
    put_bytes extent_out (irec_bytes (xfs_extent_unpack (mem_bytes m extent_data 16))) m"
proof -
  have r: "read_rec_loop m extent_data 0 (replicate 16 0) = mem_bytes m extent_data 16"
    using read_rec_loop_eq [of "replicate 16 0" 0 m extent_data] by simp
  show ?thesis unfolding xfs_extent_unpack_ptr_def r Let_def write_u32_at_eq
    by (rule ext) (auto simp: irec_bytes_def irec_offsets store_u32_def add.assoc)
qed

lemma length_irec_bytes [simp]: "length (irec_bytes e) = 24"
  by (simp add: irec_bytes_def)

text \<open>C34: Unpacking an extent record cuts its 128-bit big-endian value into a 1-bit state, a 54-bit file offset, a
  52-bit start block and a 21-bit block count, and loses nothing: the fields are within those widths and add up
  to the value of the record.\<close>

theorem xfs_extent_exact:
  assumes "length rec = 16"
  shows "be_value rec = 2 ^ 127 * unat (br_state (xfs_extent_unpack rec)) + 2 ^ 73 * unat (br_startoff (xfs_extent_unpack rec))
      + 2 ^ 21 * unat (br_startblock (xfs_extent_unpack rec)) + unat (br_blockcount (xfs_extent_unpack rec))
    \<and> unat (br_state (xfs_extent_unpack rec)) < 2 ^ 1 \<and> unat (br_startoff (xfs_extent_unpack rec)) < 2 ^ 54
    \<and> unat (br_startblock (xfs_extent_unpack rec)) < 2 ^ 52 \<and> unat (br_blockcount (xfs_extent_unpack rec)) < 2 ^ 21"
  using extent_value [OF assms] extent_fields_bounded [of rec] by blast

theorem xfs_extent_exact_witness:
  "unat (br_startoff (xfs_extent_unpack (replicate 16 0xFF))) < 2 ^ 54"
  using xfs_extent_exact [of "replicate 16 0xFF"] by (simp only: length_replicate simp_thms)

text \<open>The record in memory: the pointer form stores a record that reads back as the unpacked extent of the 16
  bytes that were at the source before the call, even when the two overlap; the form on buffers
  gives the same 24 bytes, and no other byte of memory changes.\<close>

theorem xfs_extent_stored:
  assumes "length out = 24"
  shows "(let m' = xfs_extent_unpack_ptr extent_data extent_out m
     in mem_bytes m' extent_out 24 = xfs_extent_unpack_into (mem_bytes m extent_data 16) out
      \<and> read_xfs_bmbt_irec (mem_bytes m' extent_out 24) = xfs_extent_unpack (mem_bytes m extent_data 16)
      \<and> {x. m' x \<noteq> m x} \<subseteq> {x. unat (x - extent_out) < 24})"
proof -
  let ?e = "xfs_extent_unpack (mem_bytes m extent_data 16)"
  have b: "mem_bytes (put_bytes extent_out (irec_bytes ?e) m) extent_out 24 = irec_bytes ?e"
    using mem_bytes_put_bytes [of "irec_bytes ?e" extent_out m] by simp
  have "put_bytes extent_out (irec_bytes ?e) m x = m x" if "\<not> unat (x - extent_out) < 24" for x
    using that by (intro put_bytes_other) (auto simp: unat_of_nat)
  then show ?thesis
    unfolding Let_def unpack_ptr_bytes b xfs_extent_unpack_into_def write_irec_bytes [OF assms] read_irec_bytes by blast
qed

theorem xfs_extent_stored_witness:
  "read_xfs_bmbt_irec (mem_bytes (xfs_extent_unpack_ptr 0x1000 0x1004 (\<lambda>_. 0xFF)) 0x1004 24)
    = xfs_extent_unpack (mem_bytes (\<lambda>_. 0xFF) 0x1000 16)"
  using xfs_extent_stored [OF length_replicate, of "0x1000" "0x1004" "\<lambda>_. 0xFF"] unfolding Let_def by blast

section \<open>Searches: the tables they run over\<close>

definition entry_hash :: "mem \<Rightarrow> u32 \<Rightarrow> nat \<Rightarrow> u32" where
  "entry_hash m base i = load_be_u32 m (base + 8 * of_nat i)"

definition entry_value :: "mem \<Rightarrow> u32 \<Rightarrow> nat \<Rightarrow> u32" where
  "entry_value m base i = load_be_u32 m (base + 8 * of_nat i + 4)"

definition not_found :: XfsHashLookupResult where
  "not_found = \<lparr>lookup_eax = 5, lookup_zf = 0\<rparr>"

definition found_at :: "mem \<Rightarrow> u32 \<Rightarrow> nat \<Rightarrow> XfsHashLookupResult" where
  "found_at m base i = \<lparr>lookup_eax = entry_value m base i, lookup_zf = 1\<rparr>"

definition hash_sorted :: "mem \<Rightarrow> u32 \<Rightarrow> nat \<Rightarrow> bool" where
  "hash_sorted m base n \<longleftrightarrow> sorted (map (entry_hash m base) [0..<n])"

lemma hash_sorted_le: "hash_sorted m base n \<Longrightarrow> i \<le> j \<Longrightarrow> j < n \<Longrightarrow> entry_hash m base i \<le> entry_hash m base j"
  unfolding hash_sorted_def using sorted_nth_mono [of "map (entry_hash m base) [0..<n]" i j] by simp

text \<open>The binary search keeps the entries \<open>lo ..< lo + n\<close>.\<close>

lemma lookup_loop_bounds:
  assumes "lo + n < 2 ^ 32" and "0 < n"
  shows "xfs_get_addr_loop m hash (base + 8 * of_nat lo) (of_nat n) =
     (let i = lo + n div 2
      in if hash < entry_hash m base i then xfs_get_addr_loop m hash (base + 8 * of_nat lo) (of_nat (n div 2))
         else if entry_hash m base i < hash then xfs_get_addr_loop m hash (base + 8 * of_nat (Suc i)) (of_nat (n - n div 2 - 1))
         else found_at m base i)"
proof -
  have un: "unat (of_nat n :: u32) = n" using assms by (intro unat_of_nat_u32) simp
  then have nz: "(of_nat n :: u32) \<noteq> 0" using assms(2) by auto
  have h: "drop_bit 1 (of_nat n) = (of_nat (n div 2) :: u32)"
    using assms(1) by (intro word_unat_eq_iff [THEN iffD2]) (simp only: unat_drop un, simp add: unat_of_nat_u32)
  have e: "base + 8 * of_nat lo + of_nat (n div 2) * 8 = base + 8 * of_nat (lo + n div 2)" by (simp add: algebra_simps)
  have "n - n div 2 - 1 + (n div 2 + 1) = n" using assms(2) by linarith
  then have "(of_nat n :: u32) = of_nat (n - n div 2 - 1) + (of_nat (n div 2) + 1)" by (metis of_nat_1 of_nat_add)
  then have d: "(of_nat n :: u32) - of_nat (n div 2) - 1 = of_nat (n - n div 2 - 1)" by (simp add: algebra_simps)
  have s: "base + 8 * of_nat (lo + n div 2) + 8 = base + 8 * of_nat (Suc (lo + n div 2))" by (simp add: algebra_simps)
  show ?thesis
    by (subst xfs_get_addr_loop.simps)
      (simp only: nz if_False Let_def XFS_DIR2_LEAF_ENTRY_SIZE_def OFF_HASHVAL_def OFF_ADDRESS_def h e d s add_0_right
        entry_hash_def entry_value_def found_at_def)
qed

lemma lookup_loop_spec:
  assumes "lo + n < 2 ^ 32" and "\<And>i j. lo \<le> i \<Longrightarrow> i \<le> j \<Longrightarrow> j < lo + n \<Longrightarrow> entry_hash m base i \<le> entry_hash m base j"
  shows "(\<exists>i \<in> {lo..<lo + n}. entry_hash m base i = hash \<and> xfs_get_addr_loop m hash (base + 8 * of_nat lo) (of_nat n) = found_at m base i)
    \<or> (\<forall>i \<in> {lo..<lo + n}. entry_hash m base i \<noteq> hash) \<and> xfs_get_addr_loop m hash (base + 8 * of_nat lo) (of_nat n) = not_found"
  using assms
proof (induction n arbitrary: lo rule: less_induct)
  case (less n)
  show ?case
  proof (cases "n = 0")
    case True
    then show ?thesis by (subst xfs_get_addr_loop.simps) (simp add: xfs_get_addr_loop.simps not_found_def ERROR_FILE_NOT_FOUND_def)
  next
    case False
    define i where "i = lo + n div 2"
    have i: "lo \<le> i" "i < lo + n" using False by (auto simp: i_def)
    have step: "xfs_get_addr_loop m hash (base + 8 * of_nat lo) (of_nat n) =
       (if hash < entry_hash m base i then xfs_get_addr_loop m hash (base + 8 * of_nat lo) (of_nat (n div 2))
        else if entry_hash m base i < hash then xfs_get_addr_loop m hash (base + 8 * of_nat (Suc i)) (of_nat (n - n div 2 - 1))
        else found_at m base i)"
      using lookup_loop_bounds [OF less.prems(1), of m hash base] False unfolding i_def Let_def by blast
    have up: "i = lo + n div 2" "Suc i + (n - n div 2 - 1) = lo + n" using False by (auto simp: i_def)
    consider "hash < entry_hash m base i" | "entry_hash m base i < hash" | "entry_hash m base i = hash" by fastforce
    then show ?thesis
    proof cases
      case 1
      then have "entry_hash m base j \<noteq> hash" if "i \<le> j" "j < lo + n" for j
        using less.prems(2) [of i j] that i by fastforce
      then have j: "\<forall>j \<in> {lo..<lo + n}. j \<notin> {lo..<i} \<longrightarrow> entry_hash m base j \<noteq> hash" by auto
      have "n div 2 < n" "lo + n div 2 < 2 ^ 32" using False less.prems(1) by auto
      from less.IH [OF this] less.prems(2) i up(1)
      have "(\<exists>i \<in> {lo..<i}. entry_hash m base i = hash \<and> xfs_get_addr_loop m hash (base + 8 * of_nat lo) (of_nat (n div 2)) = found_at m base i)
        \<or> (\<forall>i \<in> {lo..<i}. entry_hash m base i \<noteq> hash) \<and> xfs_get_addr_loop m hash (base + 8 * of_nat lo) (of_nat (n div 2)) = not_found" by simp
      moreover have "{lo..<i} \<subseteq> {lo..<lo + n}" using i by auto
      ultimately show ?thesis using step 1 j by (simp only: if_True) blast
    next
      case 2
      then have "entry_hash m base j \<noteq> hash" if "lo \<le> j" "j \<le> i" for j
        using less.prems(2) [of j i] that i by fastforce
      then have j: "\<forall>j \<in> {lo..<lo + n}. j \<notin> {Suc i..<lo + n} \<longrightarrow> entry_hash m base j \<noteq> hash" by auto
      have "n - n div 2 - 1 < n" "Suc i + (n - n div 2 - 1) < 2 ^ 32" using False less.prems(1) up(2) by auto
      from less.IH [OF this, unfolded up(2)] less.prems(2) i
      have "(\<exists>k \<in> {Suc i..<lo + n}. entry_hash m base k = hash \<and> xfs_get_addr_loop m hash (base + 8 * of_nat (Suc i)) (of_nat (n - n div 2 - 1)) = found_at m base k)
        \<or> (\<forall>k \<in> {Suc i..<lo + n}. entry_hash m base k \<noteq> hash) \<and> xfs_get_addr_loop m hash (base + 8 * of_nat (Suc i)) (of_nat (n - n div 2 - 1)) = not_found"
        by auto
      moreover have "{Suc i..<lo + n} \<subseteq> {lo..<lo + n}" using i by auto
      moreover have "\<not> hash < entry_hash m base i" using 2 by simp
      ultimately show ?thesis using step 2 j by (simp only: if_True if_False) blast
    next
      case 3
      then show ?thesis using step False i by (auto simp: Let_def i_def [symmetric])
    qed
  qed
qed

lemma lookup_exact:
  assumes "hash_sorted m base (unat len)" and "base \<noteq> 0"
  shows "(\<exists>i < unat len. entry_hash m base i = hash \<and> xfs_get_addr_by_hash_ptr hash base len m = found_at m base i)
    \<or> (\<forall>i < unat len. entry_hash m base i \<noteq> hash) \<and> xfs_get_addr_by_hash_ptr hash base len m = not_found"
proof (cases "len = 0")
  case True
  then show ?thesis by (simp add: xfs_get_addr_by_hash_ptr_def not_found_def ERROR_FILE_NOT_FOUND_def)
next
  case False
  then have "xfs_get_addr_by_hash_ptr hash base len m = xfs_get_addr_loop m hash base len"
    using assms(2) by (simp add: xfs_get_addr_by_hash_ptr_def xfs_get_addr_by_hash_def)
  moreover have "0 + unat len < 2 ^ 32" using unat_u32 [of len] by simp
  from lookup_loop_spec [of 0 "unat len" m base hash, OF this] hash_sorted_le [OF assms(1)]
  have "(\<exists>i \<in> {0..<unat len}. entry_hash m base i = hash \<and> xfs_get_addr_loop m hash base len = found_at m base i)
    \<or> (\<forall>i \<in> {0..<unat len}. entry_hash m base i \<noteq> hash) \<and> xfs_get_addr_loop m hash base len = not_found"
    by simp
  ultimately show ?thesis by auto
qed

interpretation node_entries: indexed_scan "xfs_get_before_loop m entries count hash"
  "\<lambda>i. hash \<le> entry_hash m entries (unat i)" "\<lambda>i. found_at m entries (unat i)" not_found count
  for m entries count hash
  by unfold_locales
    (subst xfs_get_before_loop.simps, simp add: Let_def entry_hash_def entry_value_def found_at_def not_found_def
      XFS_DA_NODE_ENTRY_SIZE_def OFF_NODE_HASHVAL_def OFF_NODE_BEFORE_def ERROR_FILE_NOT_FOUND_def mult.commute)

lemma before_exact:
  assumes "entries \<noteq> 0"
  shows "xfs_get_before_by_hashval_ptr entries count hash m =
    (case find (\<lambda>i. hash \<le> entry_hash m entries i) [0..<unat count] of
       Some i \<Rightarrow> found_at m entries i | None \<Rightarrow> not_found)"
proof -
  have "xfs_get_before_by_hashval_ptr entries count hash m = xfs_get_before_loop m entries count hash 0"
    using assms by (simp add: xfs_get_before_by_hashval_ptr_def xfs_get_before_by_hashval_def xfs_get_before_loop.simps)
  also have "\<dots> = (case find (\<lambda>n. hash \<le> entry_hash m entries (unat (of_nat n :: u32))) [0..<unat count] of
       Some n \<Rightarrow> found_at m entries (unat (of_nat n :: u32)) | None \<Rightarrow> not_found)"
    by (rule node_entries.scan_all)
  also have "find (\<lambda>n. hash \<le> entry_hash m entries (unat (of_nat n :: u32))) [0..<unat count] = find (\<lambda>i. hash \<le> entry_hash m entries i) [0..<unat count]"
    by (rule find_cong) (auto dest: less_unat_u32 simp: unat_of_nat_u32)
  finally have e: "xfs_get_before_by_hashval_ptr entries count hash m =
    (case find (\<lambda>i. hash \<le> entry_hash m entries i) [0..<unat count] of
       Some n \<Rightarrow> found_at m entries (unat (of_nat n :: u32)) | None \<Rightarrow> not_found)" .
  show ?thesis
  proof (cases "find (\<lambda>i. hash \<le> entry_hash m entries i) [0..<unat count]")
    case (Some i)
    then have "i < unat count" by (simp add: find_upt_Some)
    from e Some less_unat_u32 [OF this] show ?thesis by (simp add: unat_of_nat_u32)
  qed (use e in simp)
qed

text \<open>A directory of one inner node and its leaves: entry \<open>i\<close> of the node carries the greatest hash of leaf \<open>i\<close>,
  and no hash of a leaf is below those of the leaves before it. Equal hashes may go on from one leaf to the next.\<close>

definition dir_tree :: "mem \<Rightarrow> u32 \<Rightarrow> nat \<Rightarrow> (nat \<Rightarrow> u32) \<Rightarrow> (nat \<Rightarrow> u32) \<Rightarrow> bool" where
  "dir_tree m node count leaf len \<longleftrightarrow> node \<noteq> 0 \<and> (\<forall>i < count.
     leaf i \<noteq> 0 \<and> 0 < unat (len i) \<and> hash_sorted m (leaf i) (unat (len i))
     \<and> entry_hash m (leaf i) (unat (len i) - 1) = entry_hash m node i
     \<and> (\<forall>k < i. entry_hash m node k \<le> entry_hash m (leaf i) 0))"

text \<open>C33: The two hash searches together find a name in a directory of one inner node and its leaves. The linear search of
  the node and the binary search of the leaf it points at hit exactly when some leaf holds the hash, also when
  equal hashes go over from one leaf to the next; the address returned is that of an entry with the hash, and
  otherwise one of the two searches reports that there is no such file.\<close>

theorem xfs_directory_search:
  assumes "dir_tree m node (unat count) leaf len"
  shows "if \<exists>i < unat count. \<exists>j < unat (len i). entry_hash m (leaf i) j = hash
    then \<exists>i < unat count. xfs_get_before_by_hashval_ptr node count hash m = found_at m node i
      \<and> (\<exists>j < unat (len i). entry_hash m (leaf i) j = hash \<and> xfs_get_addr_by_hash_ptr hash (leaf i) (len i) m = found_at m (leaf i) j)
    else xfs_get_before_by_hashval_ptr node count hash m = not_found
      \<or> (\<exists>i < unat count. xfs_get_before_by_hashval_ptr node count hash m = found_at m node i
          \<and> xfs_get_addr_by_hash_ptr hash (leaf i) (len i) m = not_found)"
proof (cases "\<exists>i < unat count. \<exists>j < unat (len i). entry_hash m (leaf i) j = hash")
  case True
  then obtain i j where ij: "i < unat count" "j < unat (len i)" "entry_hash m (leaf i) j = hash" by blast
  have t: "leaf i \<noteq> 0 \<and> 0 < unat (len i) \<and> hash_sorted m (leaf i) (unat (len i))
     \<and> entry_hash m (leaf i) (unat (len i) - 1) = entry_hash m node i \<and> (\<forall>k < i. entry_hash m node k \<le> entry_hash m (leaf i) 0)"
    if "i < unat count" for i using assms that unfolding dir_tree_def by blast
  have "hash \<le> entry_hash m node i"
    using hash_sorted_le [of m "leaf i" "unat (len i)" j "unat (len i) - 1"] t [OF ij(1)] ij by fastforce
  then obtain k where k: "find (\<lambda>i. hash \<le> entry_hash m node i) [0..<unat count] = Some k"
    using ij(1) by (cases "find (\<lambda>i. hash \<le> entry_hash m node i) [0..<unat count]") (auto simp: find_None_iff)
  then have kc: "k < unat count" "hash \<le> entry_hash m node k" "\<not> i < k"
    using \<open>hash \<le> entry_hash m node i\<close> unfolding find_upt_Some by auto
  have "\<exists>j < unat (len k). entry_hash m (leaf k) j = hash"
  proof (cases "k = i")
    case False
    with kc(3) have "k < i" by simp
    then have "entry_hash m node k \<le> entry_hash m (leaf i) 0" using t [OF ij(1)] by blast
    also have "\<dots> \<le> hash" using hash_sorted_le [of m "leaf i" "unat (len i)" 0 j] t [OF ij(1)] ij by auto
    finally have "entry_hash m (leaf k) (unat (len k) - 1) = hash" using kc(2) t [OF kc(1)] by simp
    then show ?thesis using t [OF kc(1)] by (intro exI [of _ "unat (len k) - 1"]) simp
  qed (use ij in blast)
  with lookup_exact [of m "leaf k" "len k" hash] t [OF kc(1)] before_exact [of node count hash m] assms k kc(1) True
  show ?thesis unfolding dir_tree_def by auto
next
  case False
  have "xfs_get_addr_by_hash_ptr hash (leaf i) (len i) m = not_found" if "i < unat count" for i
    using lookup_exact [of m "leaf i" "len i" hash] assms False that unfolding dir_tree_def by blast
  moreover have "node \<noteq> 0" using assms by (simp add: dir_tree_def)
  ultimately show ?thesis using False before_exact [of node count hash m]
    by (cases "find (\<lambda>i. hash \<le> entry_hash m node i) [0..<unat count]") (auto simp: find_upt_Some)
qed

theorem xfs_directory_search_witness:
  "\<exists>i < unat (1 :: u32). xfs_get_before_by_hashval_ptr 0x1000 1 0 (\<lambda>_. 0) = found_at (\<lambda>_. 0) 0x1000 i
    \<and> (\<exists>j < unat (3 :: u32). entry_hash (\<lambda>_. 0) 0x2000 j = 0 \<and> xfs_get_addr_by_hash_ptr 0 0x2000 3 (\<lambda>_. 0) = found_at (\<lambda>_. 0) 0x2000 j)"
proof -
  have h: "entry_hash (\<lambda>_. 0) b i = 0" for b i by (simp add: entry_hash_def load_be_u32_def be32_def le32_def)
  have tree: "dir_tree (\<lambda>_. 0) 0x1000 (unat (1 :: u32)) (\<lambda>_. 0x2000) (\<lambda>_. 3)"
    by (simp add: dir_tree_def hash_sorted_def h sorted_map sorted_wrt_iff_nth_less)
  have hit: "\<exists>i < unat (1 :: u32). \<exists>j < unat (3 :: u32). entry_hash (\<lambda>_. 0) 0x2000 j = 0" by (intro exI [of _ "0 :: nat"] conjI) (simp_all add: h)
  from xfs_directory_search [OF tree, of 0, unfolded if_P [OF hit]] show ?thesis .
qed

section \<open>Blocks and sectors\<close>

lemma mem_bytes_16: "mem_bytes m a 16 = [m a, m (a + 1), m (a + 2), m (a + 3), m (a + 4), m (a + 5), m (a + 6), m (a + 7),
    m (a + 8), m (a + 9), m (a + 10), m (a + 11), m (a + 12), m (a + 13), m (a + 14), m (a + 15)]"
  by (intro nth_equalityI) (auto simp: nth_mem_bytes less_Suc_eq numeral_eq_Suc add.commute)

lemma add_with_carry:
  fixes a b h :: u32
  assumes "unat h < 2 ^ 31"
  shows "unat (a + b) + 2 ^ 32 * unat (h + (if a + b < a then 1 else 0)) = unat a + 2 ^ 32 * unat h + unat b"
proof -
  have s: "unat (a + b) = (if unat a + unat b < 2 ^ 32 then unat a + unat b else unat a + unat b - 2 ^ 32)"
  proof -
    have "x mod 4294967296 = (if x < 4294967296 then x else x - 4294967296)" if "x < 8589934592" for x :: nat
      using that by (auto simp: le_mod_geq)
    moreover have "unat a + unat b < 8589934592" using unat_u32 [of a] unat_u32 [of b] by linarith
    ultimately show ?thesis by (simp add: unat_word_ariths)
  qed
  have "(if x + y < 2 ^ 32 then x + y else x + y - 2 ^ 32) < x \<longleftrightarrow> \<not> x + y < 2 ^ 32" if "y < 4294967296" for x y :: nat
    using that by auto
  then have c: "a + b < a \<longleftrightarrow> \<not> unat a + unat b < 2 ^ 32" unfolding word_less_nat_alt s by (simp only: unat_u32)
  have "unat (h + 1) = unat h + 1" using assms unat_add_u32 [of h 1] by simp
  then show ?thesis using s c by (cases "unat a + unat b < 2 ^ 32") simp_all
qed

lemma last_dirblock_from_extent:
  assumes "(lo, hi) = xfs_get_last_dirblock_from_extent rec dirblklog"
    and "n = unat (br_blockcount (xfs_extent_unpack rec)) div 2 ^ unat (dirblklog AND 31)"
  shows "unat lo + 2 ^ 32 * unat hi = unat (br_startoff (xfs_extent_unpack rec)) + (if n = 0 then 2 ^ 32 - 1 else n - 1)"
proof -
  define a b where "a = be32 (rec ! 0) (rec ! 1) (rec ! 2) (rec ! 3) AND 0x7fffffff" and "b = be32 (rec ! 4) (rec ! 5) (rec ! 6) (rec ! 7)"
  define s h where "s = drop_bit 9 b OR push_bit 23 a" and "h = drop_bit 9 a"
  define c where "c = drop_bit (unat (dirblklog AND 31)) (br_blockcount (xfs_extent_unpack rec)) - 1"
  have e: "br_startoff (xfs_extent_unpack rec) = push_bit 32 (ucast h) OR ucast s"
    by (simp add: xfs_extent_unpack_def Let_def a_def b_def s_def h_def or.commute)
  have "br_blockcount (xfs_extent_unpack rec) = be32 (rec ! 12) (rec ! 13) (rec ! 14) (rec ! 15) AND 0x1fffff"
    by (simp add: xfs_extent_unpack_def Let_def)
  then have r: "lo = s + c" "hi = h + (if s + c < s then 1 else 0)"
    using assms(1) unfolding xfs_get_last_dirblock_from_extent_def Let_def a_def b_def s_def h_def c_def by simp_all
  have "unat h < 2 ^ 31" unfolding h_def unat_drop using unat_u32 [of a] by (simp add: div_less_iff_less_mult del: unat_u32)
  then have "unat lo + 2 ^ 32 * unat hi = unat (br_startoff (xfs_extent_unpack rec)) + unat c"
    unfolding r e unat_join_dwords by (simp only: add_with_carry)
  moreover have "unat c = (if n = 0 then 2 ^ 32 - 1 else n - 1)"
  proof -
    define d where "d = drop_bit (unat (dirblklog AND 31)) (br_blockcount (xfs_extent_unpack rec))"
    have "unat d = n" by (simp add: d_def unat_drop assms(2))
    then show ?thesis using unat_dec [of d] unfolding c_def d_def [symmetric] by (cases "d = 0") (auto simp: unsigned_minus_1_eq_mask mask_eq_exp_minus_1 unat_gt_0)
  qed
  ultimately show ?thesis by simp
qed

text \<open>The last directory block is the file offset of the last extent, as the extent unpacker gives it, plus the
  number of directory blocks in the extent minus one, on 64 bits; an extent shorter than one
  directory block adds \<open>2 ^ 32 - 1\<close> instead, since only the low dword is decremented.\<close>

theorem xfs_last_dirblock_value:
  "(let last = inode + inode_core_size + 16 * (load_be_u32 m (inode + nextents_offset) - 1);
        e = xfs_extent_unpack (mem_bytes m last 16);
        n = unat (br_blockcount e) div 2 ^ unat (dirblklog AND 31);
        (lo, hi) = xfs_get_last_dirblock m inode nextents_offset inode_core_size dirblklog
    in unat lo + 2 ^ 32 * unat hi = unat (br_startoff e) + (if n = 0 then 2 ^ 32 - 1 else n - 1))"
proof -
  let ?last = "inode + inode_core_size + 16 * (load_be_u32 m (inode + nextents_offset) - 1)"
  have "inode + (inode_core_size + push_bit XFS_BMBT_REC_SIZE_SHIFT (load_be_u32 m (inode + nextents_offset)) - XFS_BMBT_REC_SIZE) = ?last"
    by (simp add: XFS_BMBT_REC_SIZE_def XFS_BMBT_REC_SIZE_SHIFT_def push_bit_eq_mult algebra_simps)
  then have q: "xfs_get_last_dirblock m inode nextents_offset inode_core_size dirblklog
      = xfs_get_last_dirblock_from_extent (mem_bytes m ?last 16) dirblklog"
    unfolding mem_bytes_16 xfs_get_last_dirblock_def Let_def by (simp only:)
  obtain lo hi where p: "(lo, hi) = xfs_get_last_dirblock_from_extent (mem_bytes m ?last 16) dirblklog"
    by (metis surj_pair)
  show ?thesis unfolding Let_def q p [symmetric] prod.case by (rule last_dirblock_from_extent [OF p refl])
qed

lemma unat_split_dwords: "unat (ucast w :: u32) + 2 ^ 32 * unat (ucast (drop_bit 32 w) :: u32) = unat w" for w :: u64
  using unat_join_dwords [of "ucast (drop_bit 32 w)" "ucast w"] join_dwords_split [of w] by (simp add: or.commute)

lemma and_31: "unat x < 32 \<Longrightarrow> x AND 31 = x" for x :: u32
proof -
  assume "unat x < 32"
  then have "unat (x AND mask 5) = unat x" by (simp add: unat_and_mask)
  then show ?thesis by (simp add: word_unat_eq_iff mask_eq_exp_minus_1)
qed

text \<open>The absolute sector of a block. With the superblock's mask of the low \<open>agblklog\<close> bits, the number of the allocation group is multiplied by
  the blocks per group, the block within the group is added, and the sum is scaled to sectors; the
  result is exact as long as the group number fits 32 bits, all that the multiplication
  uses, and the sector number fits 64.\<close>

theorem xfs_blkrel2sectabs_value:
  assumes "unat agblklog < 32" and "unat sectpblog < 32" and "mask_lo = mask (unat agblklog)" and "mask_hi = 0"
    and "block = unat block_lo + 2 ^ 32 * unat block_hi" and "block div 2 ^ unat agblklog < 2 ^ 32"
    and "(block div 2 ^ unat agblklog * unat agblocks + block mod 2 ^ unat agblklog) * 2 ^ unat sectpblog < 2 ^ 64"
  shows "case xfs_blkrel2sectabs block_lo block_hi agblklog agblocks mask_lo mask_hi sectpblog of (lo, hi) \<Rightarrow>
    unat lo + 2 ^ 32 * unat hi = (block div 2 ^ unat agblklog * unat agblocks + block mod 2 ^ unat agblklog) * 2 ^ unat sectpblog"
proof -
  define k s where "k = unat agblklog" and "s = unat sectpblog"
  let ?b = "push_bit 32 (ucast block_hi) OR ucast block_lo :: u64"
  let ?n = "(block div 2 ^ k * unat agblocks + block mod 2 ^ k) * 2 ^ s"
  have self: "x = of_nat (unat x)" for x :: u64 by simp
  have wide: "(ucast x :: u64) = of_nat n" if "unat x = n" for x :: u32 and n using that by auto
  have "unat (drop_bit k ?b) = block div 2 ^ k" unfolding unat_drop unat_join_dwords assms(5) by (simp only: add.commute)
  then have "drop_bit k ?b = of_nat (block div 2 ^ k)" by (subst self) (simp only:)
  then have ag: "ucast (drop_bit k ?b) = (of_nat (block div 2 ^ k) :: u32)" by (simp only:) (rule ucast_of_nat_down, simp)
  have "(2 :: nat) ^ 32 = 2 ^ k * 2 ^ (32 - k)" using assms(1) unfolding k_def power_add [symmetric] by simp
  then have "block mod 2 ^ k = unat block_lo mod 2 ^ k" unfolding assms(5) by (simp only: mult.assoc mod_mult_self2)
  then have off: "unat (block_lo AND mask_lo) = block mod 2 ^ k" by (simp only: assms(3) unat_and_mask k_def)
  have group: "unat (of_nat (block div 2 ^ k) :: u32) = block div 2 ^ k" using assms(6) unfolding k_def by (rule unat_of_nat_u32)
  define w where "w = push_bit s ((ucast (of_nat (block div 2 ^ k) :: u32) :: u64) * ucast agblocks + ucast (block_lo AND mask_lo))"
  have "w = of_nat ?n"
    unfolding w_def push_bit_eq_mult wide [OF group] wide [OF off] wide [OF refl, of agblocks] by simp
  then have "unat w = of_nat ?n mod 2 ^ 64" by (simp only: unat_of_nat) simp
  also have "\<dots> = ?n" using assms(7) unfolding k_def s_def by (simp only: of_nat_id mod_less)
  finally show ?thesis
    using unat_split_dwords [of w]
    unfolding xfs_blkrel2sectabs_def Let_def and_31 [OF assms(1)] and_31 [OF assms(2)] k_def [symmetric] s_def [symmetric] ag prod.case
    by (simp add: assms(4) w_def)
qed

theorem xfs_blkrel2sectabs_value_witness:
  "case xfs_blkrel2sectabs 0x12345 0 16 0xF000 0xFFFF 0 3 of (lo, hi) \<Rightarrow> unat lo + 2 ^ 32 * unat hi = 8 * (0xF000 + 0x2345)"
  using xfs_blkrel2sectabs_value [of 16 3 "0xFFFF" 0 "0x12345" "0x12345" 0 "0xF000"] by (simp add: mask_eq_exp_minus_1)

end
