(* ===== verification/Lzma.thy ===== *)
theory Lzma
  imports Prelude "HOL-Library.Monad_Syntax"
begin

text \<open>
  The coder below the main loop of \<^verbatim>\<open>unpack.rs\<close>: the layout of the probability table, the range decoder, the bit
  trees, and the length and literal coders. Source, destination and probability table are all in the flat memory,
  so a store to one is seen by a read from another, as in the code.
\<close>

section \<open>Constants\<close>

definition LZMA_BASE_SIZE :: u32 where "LZMA_BASE_SIZE = 1846"
definition LZMA_LIT_SIZE :: u32 where "LZMA_LIT_SIZE = 768"
definition LC_LP :: nat where "LC_LP = 3"
definition PROB_SLOTS :: u32 where "PROB_SLOTS = LZMA_BASE_SIZE + push_bit LC_LP LZMA_LIT_SIZE"
definition PB :: nat where "PB = 2"
definition POS_STATE_MASK :: u32 where "POS_STATE_MASK = push_bit PB 1 - 1"
definition LC :: nat where "LC = 3"
definition K_NUM_POS_BITS_MAX :: nat where "K_NUM_POS_BITS_MAX = 4"
definition K_NUM_STATES :: u32 where "K_NUM_STATES = 12"
definition K_NUM_LIT_STATES :: u32 where "K_NUM_LIT_STATES = 7"
definition K_START_POS_MODEL_INDEX :: u32 where "K_START_POS_MODEL_INDEX = 4"
definition K_END_POS_MODEL_INDEX :: u32 where "K_END_POS_MODEL_INDEX = 14"
definition K_NUM_FULL_DISTANCES :: u32 where "K_NUM_FULL_DISTANCES = push_bit (unat (K_END_POS_MODEL_INDEX div 2)) 1"
definition K_NUM_POS_SLOT_BITS :: u32 where "K_NUM_POS_SLOT_BITS = 6"
definition K_NUM_LEN_TO_POS_STATES :: u32 where "K_NUM_LEN_TO_POS_STATES = 4"
definition K_NUM_ALIGN_BITS :: u32 where "K_NUM_ALIGN_BITS = 4"
definition K_ALIGN_TABLE_SIZE :: u32 where "K_ALIGN_TABLE_SIZE = push_bit (unat K_NUM_ALIGN_BITS) 1"
definition K_MATCH_MIN_LEN :: u32 where "K_MATCH_MIN_LEN = 2"
definition K_TOP_VALUE :: u32 where "K_TOP_VALUE = push_bit 24 1"
definition K_BIT_MODEL_TOTAL :: u32 where "K_BIT_MODEL_TOTAL = push_bit 11 1"
definition K_NUM_MOVE_BITS :: nat where "K_NUM_MOVE_BITS = 5"
definition K_LEN_NUM_LOW_BITS :: u32 where "K_LEN_NUM_LOW_BITS = 3"
definition K_LEN_NUM_LOW_SYMBOLS :: u32 where "K_LEN_NUM_LOW_SYMBOLS = push_bit (unat K_LEN_NUM_LOW_BITS) 1"
definition K_LEN_NUM_MID_BITS :: u32 where "K_LEN_NUM_MID_BITS = 3"
definition K_LEN_NUM_MID_SYMBOLS :: u32 where "K_LEN_NUM_MID_SYMBOLS = push_bit (unat K_LEN_NUM_MID_BITS) 1"
definition K_LEN_NUM_HIGH_BITS :: u32 where "K_LEN_NUM_HIGH_BITS = 8"
definition IS_MATCH :: u32 where "IS_MATCH = 0"
definition IS_REP :: u32 where "IS_REP = IS_MATCH + push_bit K_NUM_POS_BITS_MAX K_NUM_STATES"
definition IS_REP_G0 :: u32 where "IS_REP_G0 = IS_REP + K_NUM_STATES"
definition IS_REP_G1 :: u32 where "IS_REP_G1 = IS_REP_G0 + K_NUM_STATES"
definition IS_REP_G2 :: u32 where "IS_REP_G2 = IS_REP_G1 + K_NUM_STATES"
definition IS_REP_0_LONG :: u32 where "IS_REP_0_LONG = IS_REP_G2 + K_NUM_STATES"
definition POS_SLOT :: u32 where "POS_SLOT = IS_REP_0_LONG + push_bit K_NUM_POS_BITS_MAX K_NUM_STATES"
definition SPEC_POS :: u32 where "SPEC_POS = POS_SLOT + push_bit (unat K_NUM_POS_SLOT_BITS) K_NUM_LEN_TO_POS_STATES"
definition ALIGN :: u32 where "ALIGN = SPEC_POS + K_NUM_FULL_DISTANCES - K_END_POS_MODEL_INDEX"
definition L_ENCODER :: u32 where "L_ENCODER = ALIGN + K_ALIGN_TABLE_SIZE"
definition K_NUM_LEN_PROBS :: u32 where "K_NUM_LEN_PROBS = 2 + push_bit 3 16 + push_bit 3 16 + 256"
definition REP_L_ENCODER :: u32 where "REP_L_ENCODER = L_ENCODER + K_NUM_LEN_PROBS"
definition LITERAL :: u32 where "LITERAL = REP_L_ENCODER + K_NUM_LEN_PROBS"
definition LEN_CHOICE :: u32 where "LEN_CHOICE = 0"
definition LEN_CHOICE2 :: u32 where "LEN_CHOICE2 = 1"
definition LEN_LOW :: u32 where "LEN_LOW = 2"
definition LEN_MID :: u32 where "LEN_MID = LEN_LOW + push_bit 3 16"
definition LEN_HIGH :: u32 where "LEN_HIGH = LEN_MID + push_bit 3 16"

text \<open>Their values, for evaluation.\<close>

lemma lzma_consts:
  "LZMA_BASE_SIZE = 1846"
  "LZMA_LIT_SIZE = 768"
  "LC_LP = 3"
  "PROB_SLOTS = 7990"
  "PB = 2"
  "POS_STATE_MASK = 3"
  "LC = 3"
  "K_NUM_POS_BITS_MAX = 4"
  "K_NUM_STATES = 12"
  "K_NUM_LIT_STATES = 7"
  "K_START_POS_MODEL_INDEX = 4"
  "K_END_POS_MODEL_INDEX = 14"
  "K_NUM_FULL_DISTANCES = 128"
  "K_NUM_POS_SLOT_BITS = 6"
  "K_NUM_LEN_TO_POS_STATES = 4"
  "K_NUM_ALIGN_BITS = 4"
  "K_ALIGN_TABLE_SIZE = 16"
  "K_MATCH_MIN_LEN = 2"
  "K_TOP_VALUE = 16777216"
  "K_BIT_MODEL_TOTAL = 2048"
  "K_NUM_MOVE_BITS = 5"
  "K_LEN_NUM_LOW_BITS = 3"
  "K_LEN_NUM_LOW_SYMBOLS = 8"
  "K_LEN_NUM_MID_BITS = 3"
  "K_LEN_NUM_MID_SYMBOLS = 8"
  "K_LEN_NUM_HIGH_BITS = 8"
  "IS_MATCH = 0"
  "IS_REP = 192"
  "IS_REP_G0 = 204"
  "IS_REP_G1 = 216"
  "IS_REP_G2 = 228"
  "IS_REP_0_LONG = 240"
  "POS_SLOT = 432"
  "SPEC_POS = 688"
  "ALIGN = 802"
  "L_ENCODER = 818"
  "K_NUM_LEN_PROBS = 514"
  "REP_L_ENCODER = 1332"
  "LITERAL = 1846"
  "LEN_CHOICE = 0"
  "LEN_CHOICE2 = 1"
  "LEN_LOW = 2"
  "LEN_MID = 130"
  "LEN_HIGH = 258"
  by (simp_all add: LZMA_BASE_SIZE_def LZMA_LIT_SIZE_def LC_LP_def PROB_SLOTS_def PB_def POS_STATE_MASK_def LC_def K_NUM_POS_BITS_MAX_def K_NUM_STATES_def K_NUM_LIT_STATES_def K_START_POS_MODEL_INDEX_def K_END_POS_MODEL_INDEX_def K_NUM_FULL_DISTANCES_def K_NUM_POS_SLOT_BITS_def K_NUM_LEN_TO_POS_STATES_def K_NUM_ALIGN_BITS_def K_ALIGN_TABLE_SIZE_def K_MATCH_MIN_LEN_def K_TOP_VALUE_def K_BIT_MODEL_TOTAL_def K_NUM_MOVE_BITS_def K_LEN_NUM_LOW_BITS_def K_LEN_NUM_LOW_SYMBOLS_def K_LEN_NUM_MID_BITS_def K_LEN_NUM_MID_SYMBOLS_def K_LEN_NUM_HIGH_BITS_def IS_MATCH_def IS_REP_def IS_REP_G0_def IS_REP_G1_def IS_REP_G2_def IS_REP_0_LONG_def POS_SLOT_def SPEC_POS_def ALIGN_def L_ENCODER_def K_NUM_LEN_PROBS_def REP_L_ENCODER_def LITERAL_def LEN_CHOICE_def LEN_CHOICE2_def LEN_LOW_def LEN_MID_def LEN_HIGH_def)

section \<open>Range decoder\<close>

record Rd =
  rd_src :: u32
  rd_code :: u32
  rd_range :: u32

definition read_u32_le :: "mem \<Rightarrow> u32 \<Rightarrow> u32" where
  "read_u32_le m p = le32 (m p) (m (p + 1)) (m (p + 2)) (m (p + 3))"

definition rd_init :: "mem \<Rightarrow> u32 \<Rightarrow> Rd" where
  "rd_init m src = \<lparr>rd_src = src + 4, rd_code = read_u32_le m src, rd_range = 0xFFFFFFFF\<rparr>"

definition rd_norm :: "mem \<Rightarrow> Rd \<Rightarrow> Rd" where
  "rd_norm m rd =
     (if rd_range rd < K_TOP_VALUE then
        let rd = rd\<lparr>rd_range := push_bit 8 (rd_range rd)\<rparr>;
            rd = rd\<lparr>rd_code := push_bit 8 (rd_code rd)\<rparr>;
            b = m (rd_src rd);
            rd = rd\<lparr>rd_src := rd_src rd + 1\<rparr>
        in rd\<lparr>rd_code := rd_code rd OR ucast b\<rparr>
      else rd)"

definition decode_bit :: "Rd \<Rightarrow> u32 \<Rightarrow> mem \<Rightarrow> u32 \<times> Rd \<times> mem" where
  "decode_bit rd prob m =
     (let p = load_u32 m prob;
          bound = drop_bit 11 (rd_range rd) * p
      in if rd_code rd < bound then
        let rd = rd\<lparr>rd_range := bound\<rparr>;
            m = store_u32 prob (p + drop_bit K_NUM_MOVE_BITS (K_BIT_MODEL_TOTAL - p)) m
        in (0, rd_norm m rd, m)
      else
        let rd = rd\<lparr>rd_range := rd_range rd - bound\<rparr>;
            rd = rd\<lparr>rd_code := rd_code rd - bound\<rparr>;
            m = store_u32 prob (p - drop_bit K_NUM_MOVE_BITS p) m
        in (1, rd_norm m rd, m))"

text \<open>\<^verbatim>\<open>p.add(i)\<close> on a pointer to \<^verbatim>\<open>u32\<close>\<close>

definition slot_at :: "u32 \<Rightarrow> u32 \<Rightarrow> u32" where
  "slot_at p i = p + 4 * i"

function bit_tree_loop :: "u32 \<Rightarrow> u32 \<Rightarrow> u32 \<Rightarrow> Rd \<Rightarrow> mem \<Rightarrow> u32 \<times> Rd \<times> mem" where
  "bit_tree_loop probs n symbol rd m =
     (if n \<noteq> 0 then
        let (bt, rd, m) = decode_bit rd (slot_at probs symbol) m
        in bit_tree_loop probs (n - 1) (push_bit 1 symbol OR bt) rd m
      else (symbol, rd, m))"
  by auto

termination
  by (relation "measure (\<lambda>(probs, n, symbol, rd, m). unat n)") simp_all

declare bit_tree_loop.simps [simp del]

definition decode_bit_tree :: "Rd \<Rightarrow> u32 \<Rightarrow> u32 \<Rightarrow> mem \<Rightarrow> u32 \<times> Rd \<times> mem" where
  "decode_bit_tree rd probs levels m =
     (let (symbol, rd, m) = bit_tree_loop probs levels 1 rd m
      in (symbol - push_bit (unat levels) 1, rd, m))"

function rev_tree_loop :: "u32 \<Rightarrow> u32 \<Rightarrow> u32 \<Rightarrow> u32 \<Rightarrow> Rd \<Rightarrow> mem \<Rightarrow> u32 \<times> Rd \<times> mem" where
  "rev_tree_loop probs n symbol acc rd m =
     (if n \<noteq> 0 then
        let (bt, rd, m) = decode_bit rd (slot_at probs symbol) m
        in rev_tree_loop probs (n - 1) (push_bit 1 symbol OR bt) (drop_bit 1 acc OR push_bit 31 bt) rd m
      else (acc, rd, m))"
  by auto

termination
  by (relation "measure (\<lambda>(probs, n, symbol, acc, rd, m). unat n)") simp_all

declare rev_tree_loop.simps [simp del]

definition decode_rev_bit_tree :: "Rd \<Rightarrow> u32 \<Rightarrow> u32 \<Rightarrow> mem \<Rightarrow> u32 \<times> Rd \<times> mem" where
  "decode_rev_bit_tree rd probs levels m =
     (let (acc, rd, m) = rev_tree_loop probs levels 1 0 rd m
      in (drop_bit (unat (32 - levels)) acc, rd, m))"

function direct_bits_loop :: "mem \<Rightarrow> u32 \<Rightarrow> u32 \<Rightarrow> Rd \<Rightarrow> u32 \<times> Rd" where
  "direct_bits_loop m n result rd =
     (if n \<noteq> 0 then
        let rd = rd\<lparr>rd_range := drop_bit 1 (rd_range rd)\<rparr>;
            result = push_bit 1 result;
            (rd, result) =
              (if rd_code rd \<ge> rd_range rd then (rd\<lparr>rd_code := rd_code rd - rd_range rd\<rparr>, result OR 1) else (rd, result));
            rd = rd_norm m rd
        in direct_bits_loop m (n - 1) result rd
      else (result, rd))"
  by auto

termination
  by (relation "measure (\<lambda>(m, n, result, rd). unat n)") simp_all

declare direct_bits_loop.simps [simp del]

definition decode_direct_bits :: "Rd \<Rightarrow> u32 \<Rightarrow> mem \<Rightarrow> u32 \<times> Rd" where
  "decode_direct_bits rd n m = direct_bits_loop m n 0 rd"

definition decode_len :: "Rd \<Rightarrow> u32 \<Rightarrow> u32 \<Rightarrow> mem \<Rightarrow> u32 \<times> Rd \<times> mem" where
  "decode_len rd enc pos_state m =
     (let (bt, rd, m) = decode_bit rd (slot_at enc LEN_CHOICE) m
      in if bt = 0 then
        decode_bit_tree rd (slot_at enc (LEN_LOW + push_bit (unat K_LEN_NUM_LOW_BITS) pos_state)) K_LEN_NUM_LOW_BITS m
      else
        let (bt, rd, m) = decode_bit rd (slot_at enc LEN_CHOICE2) m
        in if bt = 0 then
          let (t, rd, m) =
                decode_bit_tree rd (slot_at enc (LEN_MID + push_bit (unat K_LEN_NUM_MID_BITS) pos_state)) K_LEN_NUM_MID_BITS m
          in (K_LEN_NUM_LOW_SYMBOLS + t, rd, m)
        else
          let (t, rd, m) = decode_bit_tree rd (slot_at enc LEN_HIGH) K_LEN_NUM_HIGH_BITS m
          in (K_LEN_NUM_LOW_SYMBOLS + K_LEN_NUM_MID_SYMBOLS + t, rd, m))"

partial_function (option) literal_loop :: "u32 \<Rightarrow> u32 \<Rightarrow> Rd \<Rightarrow> mem \<Rightarrow> (u32 \<times> Rd \<times> mem) option" where
  "literal_loop probs symbol rd m =
     (if symbol < 0x100 then
        let (bt, rd, m) = decode_bit rd (slot_at probs symbol) m
        in literal_loop probs (push_bit 1 symbol OR bt) rd m
      else Some (symbol, rd, m))"

definition decode_literal :: "Rd \<Rightarrow> u32 \<Rightarrow> mem \<Rightarrow> (u8 \<times> Rd \<times> mem) option" where
  "decode_literal rd probs m =
     do {
       (symbol, rd, m) \<leftarrow> literal_loop probs 1 rd m;
       Some (ucast symbol, rd, m)
     }"

partial_function (option) matched_loop :: "u32 \<Rightarrow> u8 \<Rightarrow> u32 \<Rightarrow> Rd \<Rightarrow> mem \<Rightarrow> (u8 \<times> Rd \<times> mem) option" where
  "matched_loop probs match_byte symbol rd m =
     (let match_bit = drop_bit 7 match_byte AND 1;
          match_byte = push_bit 1 match_byte;
          slot = 0x100 + push_bit 8 (ucast match_bit) + symbol;
          (bt, rd, m) = decode_bit rd (slot_at probs slot) m;
          symbol = push_bit 1 symbol OR bt
      in if symbol \<ge> 0x100 then Some (ucast symbol, rd, m)
      else if match_bit \<noteq> ucast (symbol AND 1) then
        do {
          (symbol, rd, m) \<leftarrow> literal_loop probs symbol rd m;
          Some (ucast symbol, rd, m)
        }
      else matched_loop probs match_byte symbol rd m)"

definition decode_literal_matched :: "Rd \<Rightarrow> u32 \<Rightarrow> u8 \<Rightarrow> mem \<Rightarrow> (u8 \<times> Rd \<times> mem) option" where
  "decode_literal_matched rd probs match_byte m = matched_loop probs match_byte 1 rd m"

end
