(* ===== verification/Unpack.thy ===== *)
theory Unpack
  imports Lzma
begin

text \<open>The main loop of the decompressor, the filters and the entry point of \<^verbatim>\<open>unpack.rs\<close>.\<close>

section \<open>Model\<close>

subsection \<open>Main loop\<close>

text \<open>The local variables of \<^verbatim>\<open>lzma_unpack\<close>.\<close>

record Lz =
  lz_rd :: Rd
  lz_edi :: u32
  lz_state :: u32
  lz_prev :: u8
  lz_rep0 :: u32
  lz_rep1 :: u32
  lz_rep2 :: u32
  lz_rep3 :: u32

function copy_loop :: "u32 \<Rightarrow> u32 \<Rightarrow> u32 \<Rightarrow> mem \<Rightarrow> mem" where
  "copy_loop d s n m = (if n \<noteq> 0 then copy_loop (d + 1) (s + 1) (n - 1) (m(d := m s)) else m)"
  by auto

termination
  by (relation "measure (\<lambda>(d, s, n, m). unat n)") simp_all

declare copy_loop.simps [simp del]

definition copy_match :: "u32 \<Rightarrow> u32 \<Rightarrow> u32 \<Rightarrow> mem \<Rightarrow> mem" where
  "copy_match edi rep0 len m = copy_loop edi (edi - rep0) len m"

text \<open>The body of the loop: a literal, a new match (which may end the stream) and a repeated match.\<close>

definition lzma_literal :: "u32 \<Rightarrow> Lz \<Rightarrow> mem \<Rightarrow> (Lz \<times> mem) option" where
  "lzma_literal p z m =
     (let state = lz_state z;
          lit_off = drop_bit (8 - LC) (ucast (lz_prev z)) * LZMA_LIT_SIZE;
          lit = slot_at p (LITERAL + lit_off)
      in do {
        (al, rd, m) \<leftarrow>
          (if state < K_NUM_LIT_STATES then decode_literal (lz_rd z) lit m
           else let match_b = m (lz_edi z - lz_rep0 z) in decode_literal_matched (lz_rd z) lit match_b m);
        Some (z\<lparr>lz_rd := rd, lz_edi := lz_edi z + 1, lz_prev := al,
               lz_state := (if state < 4 then 0 else if state < 10 then state - 3 else state - 6)\<rparr>,
              m(lz_edi z := al))
      })"

definition decode_distance :: "u32 \<Rightarrow> u32 \<Rightarrow> Rd \<Rightarrow> mem \<Rightarrow> u32 \<times> Rd \<times> mem" where
  "decode_distance p slot rd m =
     (if slot \<ge> K_START_POS_MODEL_INDEX then
        let dist = push_bit (unat (drop_bit 1 slot - 1)) (2 OR (slot AND 1))
        in if slot < K_END_POS_MODEL_INDEX then
          let (extra, rd, m) = decode_rev_bit_tree rd (slot_at p (SPEC_POS + dist - slot)) (drop_bit 1 slot - 1) m
          in (dist + extra, rd, m)
        else
          let (direct, rd) = decode_direct_bits rd (drop_bit 1 slot - 1 - K_NUM_ALIGN_BITS) m;
              dist = dist + push_bit (unat K_NUM_ALIGN_BITS) direct;
              (align, rd, m) = decode_rev_bit_tree rd (slot_at p ALIGN) K_NUM_ALIGN_BITS m
          in (dist + align, rd, m)
      else (slot, rd, m))"

definition lzma_new_match :: "u32 \<Rightarrow> u32 \<Rightarrow> Lz \<Rightarrow> mem \<Rightarrow> bool \<times> Lz \<times> mem" where
  "lzma_new_match p pos_state z m =
     (let z = z\<lparr>lz_rep1 := lz_rep0 z, lz_rep2 := lz_rep1 z, lz_rep3 := lz_rep2 z,
               lz_state := (if lz_state z < 7 then 7 else 10)\<rparr>;
          (len, rd, m) = decode_len (lz_rd z) (slot_at p L_ENCODER) pos_state m;
          pos_slot_index = (if len < K_NUM_LEN_TO_POS_STATES - 1 then len else K_NUM_LEN_TO_POS_STATES - 1);
          (slot, rd, m) =
            decode_bit_tree rd (slot_at p (POS_SLOT + push_bit (unat K_NUM_POS_SLOT_BITS) pos_slot_index)) K_NUM_POS_SLOT_BITS m;
          (dist, rd, m) = decode_distance p slot rd m;
          z = z\<lparr>lz_rd := rd, lz_rep0 := dist + 1\<rparr>
      in if lz_rep0 z = 0 then (True, z, m)
      else
        let len = len + K_MATCH_MIN_LEN;
            m = copy_match (lz_edi z) (lz_rep0 z) len m;
            z = z\<lparr>lz_edi := lz_edi z + len\<rparr>
        in (False, z\<lparr>lz_prev := m (lz_edi z - 1)\<rparr>, m))"

definition lzma_rep_len :: "u32 \<Rightarrow> u32 \<Rightarrow> Lz \<Rightarrow> mem \<Rightarrow> bool \<times> Lz \<times> mem" where
  "lzma_rep_len p pos_state z m =
     (let z = z\<lparr>lz_state := (if lz_state z < 7 then 8 else 11)\<rparr>;
          (len, rd, m) = decode_len (lz_rd z) (slot_at p REP_L_ENCODER) pos_state m;
          len = len + K_MATCH_MIN_LEN;
          m = copy_match (lz_edi z) (lz_rep0 z) len m;
          z = z\<lparr>lz_rd := rd, lz_edi := lz_edi z + len\<rparr>
      in (False, z\<lparr>lz_prev := m (lz_edi z - 1)\<rparr>, m))"

definition lzma_rep_match :: "u32 \<Rightarrow> u32 \<Rightarrow> Lz \<Rightarrow> mem \<Rightarrow> bool \<times> Lz \<times> mem" where
  "lzma_rep_match p pos_state z m =
     (let state = lz_state z;
          (bt, rd, m) = decode_bit (lz_rd z) (slot_at p (IS_REP_G0 + state)) m
      in if bt = 0 then
        let (bt, rd, m) = decode_bit rd (slot_at p (IS_REP_0_LONG + push_bit K_NUM_POS_BITS_MAX state + pos_state)) m
        in if bt = 0 then
          let al = m (lz_edi z - lz_rep0 z)
          in (False, z\<lparr>lz_rd := rd, lz_state := (if state < 7 then 9 else 11), lz_edi := lz_edi z + 1, lz_prev := al\<rparr>,
              m(lz_edi z := al))
        else lzma_rep_len p pos_state (z\<lparr>lz_rd := rd\<rparr>) m
      else
        let (bt, rd, m) = decode_bit rd (slot_at p (IS_REP_G1 + state)) m
        in if bt = 0 then
          lzma_rep_len p pos_state (z\<lparr>lz_rd := rd, lz_rep1 := lz_rep0 z, lz_rep0 := lz_rep1 z\<rparr>) m
        else
          let (bt, rd, m) = decode_bit rd (slot_at p (IS_REP_G2 + state)) m
          in if bt = 0 then
            lzma_rep_len p pos_state
              (z\<lparr>lz_rd := rd, lz_rep2 := lz_rep1 z, lz_rep1 := lz_rep0 z, lz_rep0 := lz_rep2 z\<rparr>) m
          else
            lzma_rep_len p pos_state
              (z\<lparr>lz_rd := rd, lz_rep3 := lz_rep2 z, lz_rep2 := lz_rep1 z, lz_rep1 := lz_rep0 z, lz_rep0 := lz_rep3 z\<rparr>) m)"

definition lzma_step :: "u32 \<Rightarrow> Lz \<Rightarrow> mem \<Rightarrow> (bool \<times> Lz \<times> mem) option" where
  "lzma_step p z m =
     (let pos_state = lz_edi z AND POS_STATE_MASK;
          state = lz_state z;
          is_match = slot_at p (IS_MATCH + push_bit K_NUM_POS_BITS_MAX state + pos_state);
          (bt, rd, m) = decode_bit (lz_rd z) is_match m
      in if bt = 0 then
        do {
          (z, m) \<leftarrow> lzma_literal p (z\<lparr>lz_rd := rd\<rparr>) m;
          Some (False, z, m)
        }
      else
        let (bt, rd, m) = decode_bit rd (slot_at p (IS_REP + state)) m
        in if bt = 0 then Some (lzma_new_match p pos_state (z\<lparr>lz_rd := rd\<rparr>) m)
        else Some (lzma_rep_match p pos_state (z\<lparr>lz_rd := rd\<rparr>) m))"

partial_function (option) lzma_loop :: "u32 \<Rightarrow> u32 \<Rightarrow> Lz \<Rightarrow> mem \<Rightarrow> (Lz \<times> mem) option" where
  "lzma_loop p limit z m =
     (if lz_edi z < limit then
        do {
          (brk, z, m) \<leftarrow> lzma_step p z m;
          if brk then Some (z, m) else lzma_loop p limit z m
        }
      else Some (z, m))"

function init_probs :: "u32 \<Rightarrow> u32 \<Rightarrow> mem \<Rightarrow> mem" where
  "init_probs p i m =
     (if i < PROB_SLOTS then init_probs p (i + 1) (store_u32 (slot_at p i) (K_BIT_MODEL_TOTAL div 2) m) else m)"
  by auto

termination
  by (relation "measure (\<lambda>(p, i, m). unat PROB_SLOTS - unat i)") (simp_all add: unat_gap_less)

declare init_probs.simps [simp del]

definition lzma_unpack :: "u32 \<Rightarrow> u32 \<Rightarrow> u32 \<Rightarrow> u32 \<Rightarrow> mem \<Rightarrow> (u32 \<times> mem) option" where
  "lzma_unpack src0 dest dest_len p m =
     (let rd = rd_init m src0;
          m = init_probs p 0 m;
          limit = dest + dest_len
      in do {
        (z, m) \<leftarrow> lzma_loop p limit
          \<lparr>lz_rd = rd, lz_edi = dest, lz_state = 0, lz_prev = 0, lz_rep0 = 1, lz_rep1 = 1, lz_rep2 = 1, lz_rep3 = 1\<rparr> m;
        Some (rd_src (lz_rd z), m)
      })"

subsection \<open>Filters\<close>

definition fasm_load_rel32 :: "u32 \<Rightarrow> u32" where
  "fasm_load_rel32 raw_le =
     (let eax = (raw_le AND 0xFFFF0000) OR drop_bit 8 (raw_le AND 0xFFFF);
          eax = word_rotr 16 eax
      in (eax AND 0xFFFF0000) OR push_bit 8 (eax AND 0xFF) OR (drop_bit 8 eax AND 0xFF))"

definition patch_rel32 :: "u32 \<Rightarrow> u32 \<Rightarrow> mem \<Rightarrow> u32 \<times> mem" where
  "patch_rel32 esi dest m =
     (let raw = read_u32_le m esi;
          esi = esi + 4;
          eax = fasm_load_rel32 raw;
          eax = eax - esi;
          eax = eax + dest;
          p = esi - 4
      in (esi, m(p := ucast eax, p + 1 := ucast (drop_bit 8 eax), p + 2 := ucast (drop_bit 16 eax), p + 3 := ucast (drop_bit 24 eax))))"

partial_function (option) c1_loop :: "u32 \<Rightarrow> u8 \<Rightarrow> u32 \<Rightarrow> u32 \<Rightarrow> mem \<Rightarrow> mem option" where
  "c1_loop dest dl esi left m =
     (let al = m esi;
          esi = esi + 1;
          t = al - 0xE8
      in if t > 1 then c1_loop dest dl esi left m
      else if m esi \<noteq> dl then c1_loop dest dl esi left m
      else
        let raw = read_u32_le m esi;
            esi = esi + 4;
            eax = fasm_load_rel32 raw;
            eax = eax - esi;
            eax = eax + dest;
            p = esi - 4;
            m = m(p := ucast eax, p + 1 := ucast (drop_bit 8 eax), p + 2 := ucast (drop_bit 16 eax), p + 3 := ucast (drop_bit 24 eax));
            left = left - 1
        in if left = 0 then Some m else c1_loop dest dl esi left m)"

definition apply_e8_c1 :: "u32 \<Rightarrow> u32 \<Rightarrow> mem \<Rightarrow> (u32 \<times> mem) option" where
  "apply_e8_c1 src dest m =
     (let count = read_u32_le m src;
          src = src + 4
      in if count = 0 then Some (src, m)
      else
        let dl = m src
        in do { m \<leftarrow> c1_loop dest dl dest count m; Some (src, m) })"

text \<open>The inner loop over prefix bytes ends at a conditional jump or at an opcode that is none.\<close>

datatype ctr_scan = Jcc u32 | Plain u8 u32

partial_function (option) ctr1_scan :: "mem \<Rightarrow> u8 \<Rightarrow> u32 \<Rightarrow> ctr_scan option" where
  "ctr1_scan m al esi =
     (if al \<noteq> 0x0F then Some (Plain al esi)
      else
        let al = m esi;
            esi = esi + 1
        in if al < 0x80 then ctr1_scan m al esi
        else if al < 0x90 then Some (Jcc esi)
        else Some (Plain al esi))"

partial_function (option) ctr1_loop :: "u32 \<Rightarrow> u8 \<Rightarrow> u32 \<Rightarrow> u32 \<Rightarrow> mem \<Rightarrow> mem option" where
  "ctr1_loop dest dl esi left m =
     do {
       r \<leftarrow> ctr1_scan m (m esi) (esi + 1);
       (case r of
          Jcc esi \<Rightarrow>
            if m esi \<noteq> dl then ctr1_loop dest dl esi left m
            else
              let (esi, m) = patch_rel32 esi dest m;
                  left = left - 1
              in if left = 0 then Some m else ctr1_loop dest dl esi left m
        | Plain al esi \<Rightarrow>
            let t = al - 0xE8
            in if t > 1 then ctr1_loop dest dl esi left m
            else if m esi \<noteq> dl then ctr1_loop dest dl esi left m
            else
              let (esi, m) = patch_rel32 esi dest m;
                  left = left - 1
              in if left = 0 then Some m else ctr1_loop dest dl esi left m)
     }"

definition apply_e8_ctr1 :: "u32 \<Rightarrow> u32 \<Rightarrow> mem \<Rightarrow> (u32 \<times> mem) option" where
  "apply_e8_ctr1 src dest m =
     (let count = read_u32_le m src;
          src = src + 4
      in if count = 0 then Some (src, m)
      else
        let dl = m src
        in do { m \<leftarrow> ctr1_loop dest dl dest count m; Some (src, m) })"

subsection \<open>Entry point\<close>

definition unpack :: "u32 \<Rightarrow> u32 \<Rightarrow> u32 \<Rightarrow> mem \<Rightarrow> mem option" where
  "unpack packed unpacked p m =
     (let flags = read_u32_le m (packed + 8);
          fl = ucast flags :: u8
      in if fl AND 0xC0 = 0xC0 then Some m
      else if fl AND NOT 0xC0 \<noteq> 1 then Some m
      else
        let dest_len = read_u32_le m (packed + 4);
            src = packed + 12
        in do {
          (src, m) \<leftarrow> lzma_unpack src unpacked dest_len p m;
          if fl AND 0x80 \<noteq> 0 then do { (src, m) \<leftarrow> apply_e8_ctr1 src unpacked m; Some m }
          else if fl AND 0x40 \<noteq> 0 then do { (src, m) \<leftarrow> apply_e8_c1 src unpacked m; Some m }
          else Some m
        })"

definition unpack_ptr :: "u32 \<Rightarrow> u32 \<Rightarrow> u32 \<Rightarrow> mem \<Rightarrow> mem option" where
  "unpack_ptr packed unpacked p m = unpack packed unpacked p m"

end
