(* ===== verification/Lzma_Frame.thy ===== *)
theory Lzma_Frame
  imports Unpack
begin

text \<open>
  Where the coder writes: every store of the bit, tree, length, literal and distance decoders is inside the probability
  table, every value decoded from a tree is below the size of the tree, and a decoded length is below 272.
\<close>

section \<open>Writes to the table\<close>

definition table_only :: "u32 \<Rightarrow> mem \<Rightarrow> mem \<Rightarrow> bool" where
  "table_only p m m' \<longleftrightarrow> (\<forall>x. m' x \<noteq> m x \<longrightarrow> unat (x - p) < 4 * 7990)"

lemma table_only_refl [simp]: "table_only p m m"
  by (simp add: table_only_def)

lemma table_only_trans: "table_only p m m' \<Longrightarrow> table_only p m' m'' \<Longrightarrow> table_only p m m''"
  unfolding table_only_def by metis

lemma slot_at_slot_at: "slot_at (slot_at p a) b = slot_at p (a + b)"
  by (simp add: slot_at_def algebra_simps)

lemma store_u32_where: "store_u32 a v m x \<noteq> m x \<Longrightarrow> \<exists>j < 4. x = a + of_nat j"
proof (rule ccontr)
  assume ne: "store_u32 a v m x \<noteq> m x" and "\<not> (\<exists>j < 4. x = a + of_nat j)"
  then have "x \<noteq> a + of_nat j" if "j < 4" for j using that by blast
  from this [of 0] this [of 1] this [of 2] this [of 3] ne show False by (simp add: store_u32_def)
qed

lemma store_slot:
  assumes "unat i < 7990"
  shows "table_only p m (store_u32 (slot_at p i) v m)"
  unfolding table_only_def
proof (intro allI impI)
  fix x assume "store_u32 (slot_at p i) v m x \<noteq> m x"
  then obtain j :: nat where j: "j < 4" "x = slot_at p i + of_nat j" using store_u32_where by blast
  then have "x - p = of_nat (4 * unat i + j)" by (simp add: slot_at_def)
  moreover have "4 * unat i + j < 4 * 7990" using assms j(1) by linarith
  ultimately show "unat (x - p) < 4 * 7990" by (simp add: unat_of_nat_u32 del: of_nat_add of_nat_mult)
qed

lemma decode_bit_shape: "\<exists>rd' v. decode_bit rd a m = (0, rd', store_u32 a v m) \<or> decode_bit rd a m = (1, rd', store_u32 a v m)"
  unfolding decode_bit_def Let_def by (cases "rd_code rd < drop_bit 11 (rd_range rd) * load_u32 m a") auto

text \<open>A decoded bit is 0 or 1 and changes the table only.\<close>

lemma decode_bit_frame:
  assumes "decode_bit rd (slot_at p i) m = (bt, rd', m')" and "unat i < 7990"
  shows "bt = 0 \<or> bt = 1" and "table_only p m m'"
  using assms store_slot [OF assms(2)] decode_bit_shape [of rd "slot_at p i" m] by auto

lemma shift_in:
  fixes s bt :: u32
  assumes "bt = 0 \<or> bt = 1" and "unat s < 2 ^ 31"
  shows "unat (push_bit 1 s OR bt) = 2 * unat s + unat bt"
proof -
  have "push_bit 1 s OR bt = push_bit 1 s + bt"
    by (rule disjunctive_add [symmetric]) (use assms(1) in \<open>auto simp: bit_push_bit_iff bit_1_iff simp del: push_bit_Suc push_bit_of_1 One_nat_def\<close>)
  moreover have "push_bit 1 s = of_nat (2 * unat s)" by (simp add: push_bit_eq_mult)
  ultimately have "push_bit 1 s OR bt = of_nat (2 * unat s + unat bt)" by simp
  moreover have "2 * unat s + unat bt < 2 ^ 32" using assms by auto
  ultimately show ?thesis by (simp only: unat_of_nat_u32)
qed

section \<open>Trees\<close>

lemma bit_tree_loop_frame:
  assumes "bit_tree_loop (slot_at p base) n s rd m = (r, rd', m')"
    and "n \<noteq> 0 \<Longrightarrow> unat base + (unat s + 1) * 2 ^ (unat n - 1) \<le> 7990"
    and "(unat s + 1) * 2 ^ unat n \<le> 2 ^ 31"
  shows "table_only p m m' \<and> unat s * 2 ^ unat n \<le> unat r \<and> unat r < (unat s + 1) * 2 ^ unat n"
  using assms
proof (induction "unat n" arbitrary: n s rd m)
  case 0
  then have "n = 0" by (simp add: unat_eq_0)
  with 0 show ?case by (simp add: bit_tree_loop.simps)
next
  case (Suc k)
  have "unat n = Suc k" using Suc.hyps(2) by simp
  moreover from this have "n \<noteq> 0" by auto
  moreover from calculation have "unat (n - 1) = k" by (simp add: unat_dec)
  ultimately have n: "n \<noteq> 0" "unat (n - 1) = k" "unat n = Suc k" by blast+
  obtain bt rd1 m1 where d: "decode_bit rd (slot_at p (base + s)) m = (bt, rd1, m1)" using prod_cases3 by blast
  have lim: "unat base + (unat s + 1) * 2 ^ k \<le> 7990" using Suc.prems(2) n by simp
  have "unat s + 1 \<le> (unat s + 1) * 2 ^ k" using mult_le_mono2 [of 1 "2 ^ k" "unat s + 1"] by simp
  then have bs: "unat base + unat s < 7990" using lim by linarith
  then have "unat (base + s) < 7990" by (simp add: unat_word_ariths)
  note f = decode_bit_frame [OF d this]
  have s: "unat s < 2 ^ 31" using Suc.prems(3) \<open>unat s + 1 \<le> (unat s + 1) * 2 ^ k\<close> n by simp
  define s1 where "s1 = push_bit 1 s OR bt"
  have s1: "unat s1 = 2 * unat s + unat bt" unfolding s1_def by (rule shift_in [OF f(1) s])
  have bt: "unat bt \<le> 1" using f(1) by auto
  have loop: "bit_tree_loop (slot_at p base) (n - 1) s1 rd1 m1 = (r, rd', m')"
    using Suc.prems(1) n(1) d unfolding s1_def by (subst (asm) bit_tree_loop.simps) (simp add: slot_at_slot_at)
  have up: "(unat s1 + 1) * 2 ^ j \<le> (unat s + 1) * 2 ^ Suc j" for j
    using mult_le_mono1 [of "unat s1 + 1" "2 * (unat s + 1)" "2 ^ j"] bt by (simp add: s1 mult.commute mult.left_commute)
  have "table_only p m1 m' \<and> unat s1 * 2 ^ unat (n - 1) \<le> unat r \<and> unat r < (unat s1 + 1) * 2 ^ unat (n - 1)"
  proof (rule Suc.hyps(1) [OF _ loop])
    show "k = unat (n - 1)" by (simp add: n)
    show "unat base + (unat s1 + 1) * 2 ^ (unat (n - 1) - 1) \<le> 7990" if "n - 1 \<noteq> 0"
    proof -
      have "k \<noteq> 0" using that n(2) unat_eq_0 [of "n - 1"] by simp
      then obtain j where j: "k = Suc j" using not0_implies_Suc by blast
      then show ?thesis using up [of j] lim n(2) by simp
    qed
    show "(unat s1 + 1) * 2 ^ unat (n - 1) \<le> 2 ^ 31" using up [of k] Suc.prems(3) n by simp
  qed
  moreover have "unat s * 2 ^ unat n \<le> unat s1 * 2 ^ k" by (simp add: n s1)
  moreover have "(unat s1 + 1) * 2 ^ k \<le> (unat s + 1) * 2 ^ unat n" using up [of k] n by simp
  ultimately show ?case using table_only_trans [OF f(2)] unfolding n(2) by (meson le_trans less_le_trans)
qed

lemma decode_bit_tree_frame:
  assumes "decode_bit_tree rd (slot_at p base) levels m = (r, rd', m')"
    and "0 < unat levels" and "unat levels \<le> 8" and "unat base + 2 ^ unat levels \<le> 7990"
  shows "table_only p m m'" and "unat r < 2 ^ unat levels"
proof -
  obtain s where s: "bit_tree_loop (slot_at p base) levels 1 rd m = (s, rd', m')" and r: "r = s - push_bit (unat levels) 1"
    using assms(1) by (auto simp: decode_bit_tree_def split: prod.splits)
  obtain k where k: "unat levels = Suc k" using assms(2) gr0_implies_Suc by blast
  have p8: "(2 :: nat) ^ unat levels \<le> 2 ^ 8" using assms(3) by (intro power_increasing) simp_all
  have f: "table_only p m m' \<and> 2 ^ unat levels \<le> unat s \<and> unat s < 2 * 2 ^ unat levels"
    using bit_tree_loop_frame [OF s] assms(4) k p8 by simp
  then show "table_only p m m'" by blast
  have "(2 :: nat) ^ unat levels < 2 ^ 32" using p8 by simp
  from unat_of_nat_u32 [OF this] have "unat (push_bit (unat levels) (1 :: u32)) = 2 ^ unat levels"
    by (simp add: push_bit_of_1)
  then have "unat r = unat s - 2 ^ unat levels" using f unfolding r by (simp add: unat_sub word_le_nat_alt)
  then show "unat r < 2 ^ unat levels" using f by linarith
qed

text \<open>The reversed tree makes the same decisions and only collects them in the other order.\<close>

lemma rev_tree_loop_eq: "snd (rev_tree_loop probs n s acc rd m) = snd (bit_tree_loop probs n s rd m)"
proof (induction "unat n" arbitrary: n s acc rd m)
  case 0
  then have "n = 0" by (simp add: unat_eq_0)
  then show ?case by (simp add: bit_tree_loop.simps rev_tree_loop.simps)
next
  case (Suc k)
  then have "n \<noteq> 0" by auto
  then have "k = unat (n - 1)" using Suc.hyps(2) by (simp add: unat_dec)
  from Suc.hyps(1) [OF this] \<open>n \<noteq> 0\<close> show ?case
    by (subst bit_tree_loop.simps, subst rev_tree_loop.simps) (simp split: prod.split)
qed

lemma decode_rev_bit_tree_frame:
  assumes "decode_rev_bit_tree rd (slot_at p base) levels m = (r, rd', m')"
    and "0 < unat levels" and "unat levels \<le> 8" and "unat base + 2 ^ unat levels \<le> 7990"
  shows "table_only p m m'"
proof -
  obtain acc where "rev_tree_loop (slot_at p base) levels 1 0 rd m = (acc, rd', m')"
    using assms(1) by (auto simp: decode_rev_bit_tree_def split: prod.splits)
  then obtain s where "bit_tree_loop (slot_at p base) levels 1 rd m = (s, rd', m')"
    using rev_tree_loop_eq [of "slot_at p base" levels 1 0 rd m] by (metis prod.collapse snd_conv)
  then have "decode_bit_tree rd (slot_at p base) levels m = (s - push_bit (unat levels) 1, rd', m')"
    by (simp add: decode_bit_tree_def)
  then show ?thesis using decode_bit_tree_frame(1) assms(2-4) by blast
qed

section \<open>Literals\<close>

text \<open>A literal is a tree of the bits that are still missing, so the loop always returns.\<close>

lemma literal_loop_tree:
  assumes "256 \<le> unat s * 2 ^ k" and "(unat s + 1) * 2 ^ k \<le> 512"
  shows "literal_loop probs s rd m = Some (bit_tree_loop probs (of_nat k) s rd m)"
  using assms
proof (induction k arbitrary: s rd m)
  case 0
  then show ?case by (subst literal_loop.simps) (simp add: bit_tree_loop.simps word_less_nat_alt)
next
  case (Suc k)
  have "(unat s + 1) * 2 \<le> (unat s + 1) * 2 ^ Suc k" by (intro mult_le_mono2) simp
  then have "(unat s + 1) * 2 \<le> 512" using Suc.prems(2) by (rule order_trans)
  then have s: "unat s < 256" by simp
  have "(2 :: nat) ^ Suc k \<le> 2 ^ 9" using Suc.prems(2) mult_le_mono1 [of 1 "unat s + 1" "2 ^ Suc k"] by simp
  then have "Suc k \<le> 9" using power_le_imp_le_exp [of "2 :: nat" "Suc k" 9] by simp
  then have n: "(of_nat (Suc k) :: u32) \<noteq> 0" using of_nat_u32_eq_iff [of "Suc k" 0] by (simp del: of_nat_Suc)
  obtain bt rd1 m1 where d: "decode_bit rd (slot_at probs s) m = (bt, rd1, m1)" using prod_cases3 by blast
  have bt: "bt = 0 \<or> bt = 1" using decode_bit_shape [of rd "slot_at probs s" m] d by auto
  have u: "unat (push_bit 1 s OR bt) = 2 * unat s + unat bt" using shift_in [OF bt] s by simp
  have "(2 * unat s + unat bt + 1) * 2 ^ k \<le> 2 * (unat s + 1) * 2 ^ k" using bt by (intro mult_le_mono1) auto
  then have "(unat (push_bit 1 s OR bt) + 1) * 2 ^ k \<le> 512" using Suc.prems(2) u by (simp add: ac_simps)
  moreover have "256 \<le> unat (push_bit 1 s OR bt) * 2 ^ k" using Suc.prems(1) unfolding u by (simp add: algebra_simps)
  ultimately have "literal_loop probs (push_bit 1 s OR bt) rd1 m1 = Some (bit_tree_loop probs (of_nat k) (push_bit 1 s OR bt) rd1 m1)"
    by (intro Suc.IH)
  then show ?case using s n d
    by (subst literal_loop.simps, subst bit_tree_loop.simps) (simp add: word_less_nat_alt Let_def)
qed

lemma literal_loop_frame:
  assumes "256 \<le> unat s * 2 ^ k" and "(unat s + 1) * 2 ^ k \<le> 512" and "unat base + 256 \<le> 7990"
  shows "\<exists>r rd' m'. literal_loop (slot_at p base) s rd m = Some (r, rd', m') \<and> table_only p m m'"
proof -
  obtain r rd' m' where l: "bit_tree_loop (slot_at p base) (of_nat k) s rd m = (r, rd', m')" using prod_cases3 by blast
  have "(2 :: nat) ^ k \<le> 2 ^ 9" using assms(2) mult_le_mono1 [of 1 "unat s + 1" "2 ^ k"] by simp
  then have "k \<le> 9" using power_le_imp_le_exp [of "2 :: nat" k 9] by simp
  then have k: "unat (of_nat k :: u32) = k" by (intro unat_of_nat_u32) simp
  have "table_only p m m'"
  proof -
    have "unat base + (unat s + 1) * 2 ^ (k - 1) \<le> 7990" if "k \<noteq> 0"
    proof -
      have "(unat s + 1) * 2 ^ k = 2 * ((unat s + 1) * 2 ^ (k - 1))" using that by (cases k) simp_all
      then show ?thesis using assms(2,3) by linarith
    qed
    then show ?thesis using bit_tree_loop_frame [OF l] assms(2) unfolding k by (cases "k = 0") simp_all
  qed
  then show ?thesis using literal_loop_tree [OF assms(1,2)] l by simp
qed

lemma matched_loop_frame:
  assumes "256 \<le> unat s * 2 ^ k" and "(unat s + 1) * 2 ^ k \<le> 512" and "0 < k" and "unat base + 768 \<le> 7990"
  shows "\<exists>r rd' m'. matched_loop (slot_at p base) mb s rd m = Some (r, rd', m') \<and> table_only p m m'"
  using assms(1-3)
proof (induction k arbitrary: mb s rd m)
  case (Suc k)
  have "(unat s + 1) * 2 \<le> (unat s + 1) * 2 ^ Suc k" by (intro mult_le_mono2) simp
  then have "(unat s + 1) * 2 \<le> 512" using Suc.prems(2) by (rule order_trans)
  then have s: "unat s < 256" by simp
  define mbit where "mbit = drop_bit 7 mb AND 1"
  define slot where "slot = 0x100 + push_bit 8 (ucast mbit) + s"
  obtain bt rd1 m1 where d: "decode_bit rd (slot_at p (base + slot)) m = (bt, rd1, m1)" using prod_cases3 by blast
  have "mbit = 0 \<or> mbit = 1" unfolding mbit_def
    by (cases "even (drop_bit 7 mb)") (simp_all add: and_one_eq even_iff_mod_2_eq_zero odd_iff_mod_2_eq_one)
  then have "slot = 0x100 + s \<or> slot = 0x200 + s" by (auto simp: slot_def)
  then have "unat slot < 768" using s by (auto simp: unat_word_ariths)
  then have "unat (base + slot) < 7990" using assms(4) by (simp add: unat_word_ariths)
  note f = decode_bit_frame [OF d this]
  define s1 where "s1 = push_bit 1 s OR bt"
  have u: "unat s1 = 2 * unat s + unat bt" unfolding s1_def using shift_in [OF f(1)] s by simp
  have "(2 * unat s + unat bt + 1) * 2 ^ k \<le> 2 * (unat s + 1) * 2 ^ k" using f(1) by (intro mult_le_mono1) auto
  then have up: "(unat s1 + 1) * 2 ^ k \<le> 512" using Suc.prems(2) u by (simp add: ac_simps)
  have lo: "256 \<le> unat s1 * 2 ^ k" using Suc.prems(1) unfolding u by (simp add: algebra_simps)
  have step: "matched_loop (slot_at p base) mb s rd m =
      (if s1 \<ge> 0x100 then Some (ucast s1, rd1, m1)
       else if mbit \<noteq> ucast (s1 AND 1) then literal_loop (slot_at p base) s1 rd1 m1 \<bind> (\<lambda>(symbol, rd, m). Some (ucast symbol, rd, m))
       else matched_loop (slot_at p base) (push_bit 1 mb) s1 rd1 m1)"
    by (subst matched_loop.simps) (simp add: Let_def mbit_def [symmetric] slot_def [symmetric] slot_at_slot_at d s1_def)
  have base: "unat base + 256 \<le> 7990" using assms(4) by simp
  show ?case
  proof (cases "s1 \<ge> 0x100")
    case True
    then show ?thesis using step f(2) by simp
  next
    case False
    have "0 < k"
    proof (rule ccontr)
      assume "\<not> 0 < k"
      then show False using lo False by (simp add: word_le_nat_alt)
    qed
    show ?thesis
    proof (cases "mbit \<noteq> ucast (s1 AND 1)")
      case True
      obtain r rd' m' where "literal_loop (slot_at p base) s1 rd1 m1 = Some (r, rd', m')" "table_only p m1 m'"
        using literal_loop_frame [OF lo up base] by blast
      then show ?thesis using step True False table_only_trans [OF f(2)] by auto
    next
      case eq: False
      obtain r rd' m' where "matched_loop (slot_at p base) (push_bit 1 mb) s1 rd1 m1 = Some (r, rd', m')" "table_only p m1 m'"
        using Suc.IH [OF lo up \<open>0 < k\<close>] by blast
      then show ?thesis using step eq False table_only_trans [OF f(2)] by auto
    qed
  qed
qed simp

section \<open>Lengths and distances\<close>

lemma decode_len_frame:
  assumes "decode_len rd (slot_at p base) pos_state m = (len, rd', m')" and "unat pos_state < 4" and "unat base + 514 \<le> 7990"
  shows "table_only p m m'" and "unat len < 272"
proof -
  have plus: "unat (base + k) = unat base + unat k" if "unat k \<le> 514" for k using assms(3) that by (simp add: unat_word_ariths)
  obtain b1 rd1 m1 where d1: "decode_bit rd (slot_at p (base + 0)) m = (b1, rd1, m1)" using prod_cases3 by blast
  obtain b2 rd2 m2 where d2: "decode_bit rd1 (slot_at p (base + 1)) m1 = (b2, rd2, m2)" using prod_cases3 by blast
  have "unat (base + 0) < 7990" "unat (base + 1) < 7990" using assms(3) plus [of 1] by simp_all
  note f = decode_bit_frame(2) [OF d1 this(1)] decode_bit_frame(2) [OF d2 this(2)]
  define low where "low = 2 + push_bit 3 pos_state"
  define mid where "mid = 130 + push_bit 3 pos_state"
  have sh: "unat (push_bit 3 pos_state) = 8 * unat pos_state" using assms(2) by (simp add: push_bit_eq_mult unat_word_ariths)
  then have lm: "unat low \<le> 26" "unat mid \<le> 154" using assms(2) unfolding low_def mid_def by (simp_all add: unat_word_ariths)
  obtain t0 rd0 m0 where t0: "decode_bit_tree rd1 (slot_at p (base + low)) 3 m1 = (t0, rd0, m0)" using prod_cases3 by blast
  obtain t3 rd3 m3 where t3: "decode_bit_tree rd2 (slot_at p (base + mid)) 3 m2 = (t3, rd3, m3)" using prod_cases3 by blast
  obtain t4 rd4 m4 where t4: "decode_bit_tree rd2 (slot_at p (base + 258)) 8 m2 = (t4, rd4, m4)" using prod_cases3 by blast
  have l0: "table_only p m1 m0" "unat t0 < 8" using decode_bit_tree_frame [OF t0] plus [of low] lm assms(3) by simp_all
  have l3: "table_only p m2 m3" "unat t3 < 8" using decode_bit_tree_frame [OF t3] plus [of mid] lm assms(3) by simp_all
  have l4: "table_only p m2 m4" "unat t4 < 256" using decode_bit_tree_frame [OF t4] plus [of 258] assms(3) by simp_all
  have eq: "decode_len rd (slot_at p base) pos_state m = (if b1 = 0 then (t0, rd0, m0) else if b2 = 0 then (8 + t3, rd3, m3) else (16 + t4, rd4, m4))"
    using d1 d2 t0 t3 t4
    by (simp add: decode_len_def lzma_consts slot_at_slot_at low_def mid_def Let_def split: prod.split)
  have "unat (8 + t3) = 8 + unat t3" "unat (16 + t4) = 16 + unat t4" using l3 l4 by (simp_all add: unat_word_ariths)
  then show "table_only p m m'" "unat len < 272"
    using assms(1) eq f l0 l3 l4 by (auto intro: table_only_trans split: if_splits)
qed

lemma dist_base:
  fixes slot :: u32
  assumes "4 \<le> unat slot" and "unat slot < 14"
  shows "0 < unat (drop_bit 1 slot - 1)" and "unat (drop_bit 1 slot - 1) \<le> 5"
    and "unat (688 + push_bit (unat (drop_bit 1 slot - 1)) (2 OR (slot AND 1)) - slot) + 32 \<le> 7990"
proof -
  have "unat slot \<in> set [4..<14]" unfolding set_upt using assms by (intro atLeastLessThan_iff [THEN iffD2] conjI)
  then have "unat slot \<in> {4, 5, 6, 7, 8, 9, 10, 11, 12, 13}" by (simp add: upt_rec)
  then have c: "slot = 4 \<or> slot = 5 \<or> slot = 6 \<or> slot = 7 \<or> slot = 8 \<or> slot = 9 \<or> slot = 10 \<or> slot = 11 \<or> slot = 12 \<or> slot = (13 :: u32)"
    by (auto simp: word_unat_eq_iff)
  then show "0 < unat (drop_bit 1 slot - 1)" by (elim disjE) simp_all
  from c show "unat (drop_bit 1 slot - 1) \<le> 5" by (elim disjE) simp_all
  from c show "unat (688 + push_bit (unat (drop_bit 1 slot - 1)) (2 OR (slot AND 1)) - slot) + 32 \<le> 7990" by (elim disjE) simp_all
qed

lemma decode_distance_frame:
  assumes "decode_distance p slot rd m = (dist, rd', m')"
  shows "table_only p m m'"
proof -
  consider "\<not> 4 \<le> slot" | "4 \<le> slot" "slot < 14" | "4 \<le> slot" "\<not> slot < 14" by blast
  then show ?thesis
  proof cases
    case 1
    then show ?thesis using assms by (simp add: decode_distance_def lzma_consts)
  next
    case 2
    define base where "base = 688 + push_bit (unat (drop_bit 1 slot - 1)) (2 OR (slot AND 1)) - slot"
    have u: "4 \<le> unat slot" "unat slot < 14" using 2 by (simp_all add: word_le_nat_alt word_less_nat_alt)
    obtain x rd1 m1 where d: "decode_rev_bit_tree rd (slot_at p base) (drop_bit 1 slot - 1) m = (x, rd1, m1)" using prod_cases3 by blast
    have "(2 :: nat) ^ unat (drop_bit 1 slot - 1) \<le> 2 ^ 5" using dist_base(2) [OF u] by (intro power_increasing) simp_all
    then have "table_only p m m1"
      using dist_base [OF u] unfolding base_def [symmetric] by (intro decode_rev_bit_tree_frame [OF d]) simp_all
    then show ?thesis using assms 2 d by (simp add: decode_distance_def lzma_consts Let_def base_def)
  next
    case 3
    obtain r rd1 where d: "decode_direct_bits rd (drop_bit 1 slot - 1 - 4) m = (r, rd1)" by fastforce
    obtain x rd2 m2 where e: "decode_rev_bit_tree rd1 (slot_at p 802) 4 m = (x, rd2, m2)" using prod_cases3 by blast
    have "table_only p m m2" by (rule decode_rev_bit_tree_frame [OF e]) simp_all
    then show ?thesis using assms 3 d e by (simp add: decode_distance_def lzma_consts Let_def)
  qed
qed

end
