(* ===== verification/Unpack_Safe.thy ===== *)
theory Unpack_Safe
  imports Lzma_Frame
begin

text \<open>
  Totality and memory safety of the decompressor, and what a match copies: one lemma per kind of turn of the
  main loop, and the loop by induction on the output still to be written.
\<close>

section \<open>Copying a match\<close>

lemma unat_step_le: "unat (x - d) \<le> Suc (unat (x - (d + 1)))" for x d :: u32
  using unat_plus_simple_le [of "x - (d + 1)" 1] by simp

lemma copy_loop_frame: "copy_loop d s n m x \<noteq> m x \<Longrightarrow> unat (x - d) < unat n"
proof (induction "unat n" arbitrary: d s n m)
  case 0
  then have "n = 0" by (simp add: unat_eq_0)
  with 0 show ?case by (simp add: copy_loop.simps)
next
  case (Suc k)
  then have n: "n \<noteq> 0" by auto
  then have k: "k = unat (n - 1)" using Suc.hyps(2) by (simp add: unat_dec)
  have step: "copy_loop d s n m = copy_loop (d + 1) (s + 1) (n - 1) (m(d := m s))" using n by (subst copy_loop.simps) simp
  show ?case
  proof (cases "x = d")
    case True
    then show ?thesis using n by (simp add: unat_gt_0)
  next
    case False
    then have "unat (x - (d + 1)) < unat (n - 1)" using Suc.hyps(1) [OF k, of "d + 1" "s + 1" "m(d := m s)"] Suc.prems unfolding step by simp
    then show ?thesis using unat_step_le [of x d] Suc.hyps(2) k by linarith
  qed
qed

lemma copy_loop_periodic:
  assumes "i < unat n" and "0 < r" and "r + unat n \<le> 2 ^ 32" and "d = s + of_nat r"
  shows "copy_loop d s n m (d + of_nat i) = m (s + of_nat (i mod r))"
  using assms
proof (induction "unat n" arbitrary: d s n m i)
  case (Suc k)
  then have n: "n \<noteq> 0" by auto
  then have k: "k = unat (n - 1)" using Suc.hyps(2) by (simp add: unat_dec)
  define m1 where "m1 = m(d := m s)"
  have step: "copy_loop d s n m = copy_loop (d + 1) (s + 1) (n - 1) m1" using n unfolding m1_def by (subst copy_loop.simps) simp
  show ?case
  proof (cases i)
    case 0
    have "unat (d - (d + 1)) = 2 ^ 32 - 1" by (simp add: unsigned_minus_1_eq_mask mask_eq_exp_minus_1)
    then have "\<not> unat (d - (d + 1)) < unat (n - 1)" using Suc.prems(3) Suc.hyps(2) k by linarith
    then have "copy_loop (d + 1) (s + 1) (n - 1) m1 d = m1 d" using copy_loop_frame by blast
    then show ?thesis using 0 by (simp add: step m1_def)
  next
    case (Suc j)
    have "copy_loop (d + 1) (s + 1) (n - 1) m1 (d + 1 + of_nat j) = m1 (s + 1 + of_nat (j mod r))"
    proof (rule Suc.hyps(1) [OF k])
      show "j < unat (n - 1)" using Suc.prems(1) \<open>i = Suc j\<close> Suc.hyps(2) k by linarith
      show "r + unat (n - 1) \<le> 2 ^ 32" using Suc.prems(3) Suc.hyps(2) k by linarith
      show "d + 1 = s + 1 + of_nat r" using Suc.prems(4) by simp
    qed (rule Suc.prems(2))
    moreover have "m1 (s + 1 + of_nat (j mod r)) = m (s + of_nat (Suc j mod r))"
    proof (cases "Suc (j mod r) = r")
      case True
      then have "(of_nat r :: u32) = 1 + of_nat (j mod r)" by (metis of_nat_Suc)
      then have "s + 1 + of_nat (j mod r) = d" using Suc.prems(4) by simp
      moreover have "Suc j mod r = 0" using True by (simp add: mod_Suc)
      ultimately show ?thesis by (simp add: m1_def)
    next
      case False
      have lt: "j mod r < r" using Suc.prems(2) by simp
      then have "Suc (j mod r) < 2 ^ 32" "r < 2 ^ 32" using Suc.prems(1,3) by linarith+
      then have "(of_nat (Suc (j mod r)) :: u32) \<noteq> of_nat r" using False of_nat_u32_eq_iff by blast
      then have "s + 1 + of_nat (j mod r) \<noteq> d" using Suc.prems(4) by simp
      then show ?thesis using False by (simp add: m1_def mod_Suc add.assoc)
    qed
    ultimately show ?thesis using \<open>i = Suc j\<close> by (simp add: step add.assoc)
  qed
qed simp

section \<open>One turn of the loop\<close>

definition writes_in :: "u32 \<Rightarrow> u32 \<Rightarrow> nat \<Rightarrow> mem \<Rightarrow> mem \<Rightarrow> bool" where
  "writes_in p d n m m' \<longleftrightarrow> (\<forall>x. m' x \<noteq> m x \<longrightarrow> unat (x - p) < 4 * 7990 \<or> unat (x - d) < n)"

lemma table_writes_in: "table_only p m m' \<Longrightarrow> writes_in p d n m m'"
  by (auto simp: table_only_def writes_in_def)

lemma writes_in_table: "table_only p m m' \<Longrightarrow> writes_in p d n m' m'' \<Longrightarrow> writes_in p d n m m''"
  unfolding table_only_def writes_in_def by metis

lemma copy_writes_in: "n = unat len \<Longrightarrow> writes_in p d n m (copy_match d r len m)"
  unfolding writes_in_def copy_match_def using copy_loop_frame by blast

lemma put_writes_in: "0 < n \<Longrightarrow> writes_in p d n m (m(d := v))"
  by (simp add: writes_in_def)

text \<open>What a turn keeps: the state number stays below 12, the output advances by at most 273 bytes, and the memory
  changes in the table and in these bytes only.\<close>

definition turn_ok :: "u32 \<Rightarrow> Lz \<Rightarrow> mem \<Rightarrow> bool \<times> Lz \<times> mem \<Rightarrow> bool" where
  "turn_ok p z m r \<longleftrightarrow> (case r of (brk, z', m') \<Rightarrow>
     unat (lz_state z') < 12 \<and>
     (\<exists>l \<le> 273. (brk \<or> 0 < l) \<and> lz_edi z' = lz_edi z + of_nat l \<and> writes_in p (lz_edi z) l m m'))"

lemma turn_okI:
  "unat (lz_state z') < 12 \<Longrightarrow> l \<le> 273 \<Longrightarrow> brk \<or> 0 < l \<Longrightarrow> lz_edi z' = lz_edi z + of_nat l \<Longrightarrow>
    writes_in p (lz_edi z) l m m' \<Longrightarrow> turn_ok p z m (brk, z', m')"
  unfolding turn_ok_def by auto

lemma turn_ok_table: "table_only p m m1 \<Longrightarrow> turn_ok p z m1 r \<Longrightarrow> turn_ok p z m r"
  unfolding turn_ok_def by (auto split: prod.splits intro: writes_in_table)

lemma turn_ok_edi: "turn_ok p z' m r \<Longrightarrow> lz_edi z' = lz_edi z \<Longrightarrow> turn_ok p z m r"
  unfolding turn_ok_def by simp

lemma prev_slot: "unat (1846 + drop_bit 5 (ucast (b :: u8)) * 768 :: u32) + 768 \<le> 7990"
proof -
  have "unat (drop_bit 5 (ucast b) :: u32) = unat b div 32" unfolding unat_drop_bit_eq by (simp add: unat_ucast_up drop_bit_eq_div)
  moreover have "unat b div 32 \<le> 7" using unat_u8 [of b] by linarith
  ultimately show ?thesis by (simp add: unat_word_ariths)
qed

lemma state_after_literal:
  fixes s :: u32
  assumes "unat s < 12"
  shows "unat (if s < 4 then 0 else if s < 10 then s - 3 else s - 6) < 12"
proof -
  have sub: "unat (s - k) < 12" if "unat k \<le> unat s" for k using that assms by (simp add: unat_sub word_le_nat_alt)
  show ?thesis using sub [of 3] sub [of 6] by (simp add: word_less_nat_alt)
qed

lemma literal_turn:
  assumes "unat (lz_state z) < 12"
  shows "\<exists>z' m'. lzma_literal p z m = Some (z', m') \<and> turn_ok p z m (False, z', m')"
proof -
  define base :: u32 where "base = 1846 + drop_bit 5 (ucast (lz_prev z)) * 768"
  have b: "unat base + 768 \<le> 7990" "unat base + 256 \<le> 7990" using prev_slot [of "lz_prev z"] by (simp_all add: base_def)
  define lit where "lit = (if lz_state z < 7 then decode_literal (lz_rd z) (slot_at p base) m
    else decode_literal_matched (lz_rd z) (slot_at p base) (m (lz_edi z - lz_rep0 z)) m)"
  have "\<exists>al rd' m'. lit = Some (al, rd', m') \<and> table_only p m m'"
  proof (cases "lz_state z < 7")
    case True
    then show ?thesis
      using literal_loop_frame [of 1 8 base p "lz_rd z" m] b by (auto simp: lit_def decode_literal_def)
  next
    case False
    then show ?thesis
      using matched_loop_frame [of 1 8 base p "m (lz_edi z - lz_rep0 z)" "lz_rd z" m] b
      by (auto simp: lit_def decode_literal_matched_def)
  qed
  then obtain al rd' m' where l: "lit = Some (al, rd', m')" "table_only p m m'" by blast
  define st where "st = (if lz_state z < 4 then 0 else if lz_state z < 10 then lz_state z - 3 else lz_state z - 6)"
  have "unat st < 12" unfolding st_def using assms by (rule state_after_literal)
  then have "turn_ok p z m (False, z\<lparr>lz_rd := rd', lz_edi := lz_edi z + 1, lz_prev := al, lz_state := st\<rparr>, m'(lz_edi z := al))"
    by (intro turn_okI [where l = 1] writes_in_table [OF l(2)] put_writes_in) simp_all
  moreover have e: "(8 :: nat) - 3 = 5" by simp
  have "lzma_literal p z m = lit \<bind> (\<lambda>(al, rd, m).
      Some (z\<lparr>lz_rd := rd, lz_edi := lz_edi z + 1, lz_prev := al, lz_state := st\<rparr>, m(lz_edi z := al)))"
    unfolding lzma_literal_def lit_def base_def st_def Let_def lzma_consts e by (rule refl)
  then have "lzma_literal p z m = Some (z\<lparr>lz_rd := rd', lz_edi := lz_edi z + 1, lz_prev := al, lz_state := st\<rparr>, m'(lz_edi z := al))"
    by (simp add: l(1))
  ultimately show ?thesis by blast
qed

lemma pos_state_small: "unat (x AND 3) < 4" for x :: u32
  using of_nat_and_3 [of "unat x"] by (simp add: unat_of_nat)

lemma match_length:
  fixes len :: u32
  assumes "unat len < 272"
  shows "unat (len + 2) = unat len + 2" and "len + 2 = of_nat (unat len + 2)"
  using assms by (simp_all add: unat_word_ariths)

lemma new_match_turn:
  assumes "unat (lz_state z) < 12" and "unat pos_state < 4"
  shows "turn_ok p z m (lzma_new_match p pos_state z m)"
proof -
  obtain len rd1 m1 where len: "decode_len (lz_rd z) (slot_at p 818) pos_state m = (len, rd1, m1)" using prod_cases3 by blast
  note fl = decode_len_frame [OF len assms(2), simplified]
  define i where "i = (if len < 3 then len else 3)"
  have i: "unat i \<le> 3" by (auto simp: i_def word_less_nat_alt)
  then have i64: "unat (432 + push_bit 6 i) + 64 \<le> 7990" by (simp add: push_bit_eq_mult unat_word_ariths)
  obtain slot rd2 m2 where slot: "decode_bit_tree rd1 (slot_at p (432 + push_bit 6 i)) 6 m1 = (slot, rd2, m2)" using prod_cases3 by blast
  have fs: "table_only p m1 m2" using decode_bit_tree_frame(1) [OF slot] i64 by simp
  obtain dist rd3 m3 where dist: "decode_distance p slot rd2 m2 = (dist, rd3, m3)" using prod_cases3 by blast
  note fd = decode_distance_frame [OF dist]
  have tab: "table_only p m m3" using fl(1) fs fd by (meson table_only_trans)
  define z3 where "z3 = z\<lparr>lz_rep1 := lz_rep0 z, lz_rep2 := lz_rep1 z, lz_rep3 := lz_rep2 z,
    lz_state := (if lz_state z < 7 then 7 else 10), lz_rd := rd3, lz_rep0 := dist + 1\<rparr>"
  define m4 where "m4 = copy_match (lz_edi z) (dist + 1) (len + 2) m3"
  have eq: "lzma_new_match p pos_state z m = (if dist + 1 = 0 then (True, z3, m3)
      else (False, z3\<lparr>lz_edi := lz_edi z + (len + 2), lz_prev := m4 (lz_edi z + (len + 2) - 1)\<rparr>, m4))"
    using len slot dist unfolding i_def
    by (cases "len < 3") (simp_all add: lzma_new_match_def lzma_consts Let_def z3_def m4_def)
  note ml = match_length [OF fl(2)]
  have "turn_ok p z m3 (lzma_new_match p pos_state z m)"
  proof (cases "dist + 1 = 0")
    case True
    have "turn_ok p z m3 (True, z3, m3)" by (intro turn_okI [where l = 0] table_writes_in) (simp_all add: z3_def)
    with True show ?thesis unfolding eq by simp
  next
    case False
    have "writes_in p (lz_edi z) (unat len + 2) m3 m4" unfolding m4_def using ml(1) by (intro copy_writes_in) simp
    then have "turn_ok p z m3 (False, z3\<lparr>lz_edi := lz_edi z + (len + 2), lz_prev := m4 (lz_edi z + (len + 2) - 1)\<rparr>, m4)"
      using fl(2) ml(2) by (intro turn_okI [where l = "unat len + 2"]) (simp_all add: z3_def)
    with False show ?thesis unfolding eq by simp
  qed
  then show ?thesis using turn_ok_table tab by blast
qed

lemma rep_len_turn:
  assumes "unat pos_state < 4"
  shows "turn_ok p z m (lzma_rep_len p pos_state z m)"
proof -
  obtain len rd1 m1 where len: "decode_len (lz_rd z) (slot_at p 1332) pos_state m = (len, rd1, m1)" using prod_cases3 by blast
  note fl = decode_len_frame [OF len assms, simplified]
  note ml = match_length [OF fl(2)]
  define m2 where "m2 = copy_match (lz_edi z) (lz_rep0 z) (len + 2) m1"
  have eq: "lzma_rep_len p pos_state z m = (False, z\<lparr>lz_state := (if lz_state z < 7 then 8 else 11), lz_rd := rd1,
      lz_edi := lz_edi z + (len + 2), lz_prev := m2 (lz_edi z + (len + 2) - 1)\<rparr>, m2)"
    using len by (simp add: lzma_rep_len_def lzma_consts Let_def m2_def)
  have "writes_in p (lz_edi z) (unat len + 2) m1 m2" unfolding m2_def using ml(1) by (intro copy_writes_in) simp
  then have "turn_ok p z m1 (lzma_rep_len p pos_state z m)"
    unfolding eq using fl(2) ml(2) by (intro turn_okI [where l = "unat len + 2"]) simp_all
  then show ?thesis using turn_ok_table fl(1) by blast
qed

lemma rep_match_turn:
  assumes "unat (lz_state z) < 12" and "unat pos_state < 4"
  shows "turn_ok p z m (lzma_rep_match p pos_state z m)"
proof -
  define s where "s = lz_state z"
  have s: "unat (k + s) = unat k + unat s" if "unat k \<le> 7000" for k
    using assms(1) that by (simp add: s_def unat_word_ariths)
  have "unat (push_bit 4 s) = 16 * unat s" using assms(1) by (simp add: s_def push_bit_eq_mult unat_word_ariths)
  then have long: "unat (240 + push_bit 4 s + pos_state) < 7990" using assms by (simp add: s_def unat_word_ariths)
  obtain b0 rd0 m0 where d0: "decode_bit (lz_rd z) (slot_at p (204 + s)) m = (b0, rd0, m0)" using prod_cases3 by blast
  obtain bl rdl ml where dl: "decode_bit rd0 (slot_at p (240 + push_bit 4 s + pos_state)) m0 = (bl, rdl, ml)" using prod_cases3 by blast
  obtain b1 rd1 m1 where d1: "decode_bit rd0 (slot_at p (216 + s)) m0 = (b1, rd1, m1)" using prod_cases3 by blast
  obtain b2 rd2 m2 where d2: "decode_bit rd1 (slot_at p (228 + s)) m1 = (b2, rd2, m2)" using prod_cases3 by blast
  have sl: "unat (204 + s) < 7990" "unat (216 + s) < 7990" "unat (228 + s) < 7990"
    using s [of 204] s [of 216] s [of 228] assms(1) by (simp_all add: s_def)
  note f0 = decode_bit_frame(2) [OF d0 sl(1)]
  note tabs = f0 table_only_trans [OF f0 decode_bit_frame(2) [OF dl long]]
    table_only_trans [OF f0 decode_bit_frame(2) [OF d1 sl(2)]]
  have tab2: "table_only p m m2" using table_only_trans [OF tabs(3) decode_bit_frame(2) [OF d2 sl(3)]] .
  define short where "short = (False, z\<lparr>lz_rd := rdl, lz_state := (if s < 7 then 9 else 11), lz_edi := lz_edi z + 1,
      lz_prev := ml (lz_edi z - lz_rep0 z)\<rparr>, ml(lz_edi z := ml (lz_edi z - lz_rep0 z)))"
  have eq: "lzma_rep_match p pos_state z m =
     (if b0 = 0 then if bl = 0 then short else lzma_rep_len p pos_state (z\<lparr>lz_rd := rdl\<rparr>) ml
      else if b1 = 0 then lzma_rep_len p pos_state (z\<lparr>lz_rd := rd1, lz_rep1 := lz_rep0 z, lz_rep0 := lz_rep1 z\<rparr>) m1
      else if b2 = 0 then
        lzma_rep_len p pos_state (z\<lparr>lz_rd := rd2, lz_rep2 := lz_rep1 z, lz_rep1 := lz_rep0 z, lz_rep0 := lz_rep2 z\<rparr>) m2
      else lzma_rep_len p pos_state
        (z\<lparr>lz_rd := rd2, lz_rep3 := lz_rep2 z, lz_rep2 := lz_rep1 z, lz_rep1 := lz_rep0 z, lz_rep0 := lz_rep3 z\<rparr>) m2)"
    unfolding lzma_rep_match_def lzma_consts Let_def s_def [symmetric] d0 prod.case dl d1 d2 short_def by (rule refl)
  have sh: "turn_ok p z ml short" unfolding short_def
    by (intro turn_okI [where l = 1] put_writes_in) simp_all
  have long: "turn_ok p z mm (lzma_rep_len p pos_state z' mm)" if "lz_edi z' = lz_edi z" for z' mm
    using turn_ok_edi [OF rep_len_turn [OF assms(2)] that] .
  show ?thesis unfolding eq
    using turn_ok_table [OF tabs(2)] turn_ok_table [OF tabs(3)] turn_ok_table [OF tab2] sh long by simp
qed

lemma step_turn:
  assumes "unat (lz_state z) < 12"
  shows "\<exists>r. lzma_step p z m = Some r \<and> turn_ok p z m r"
proof -
  define s where "s = lz_state z"
  define ps where "ps = lz_edi z AND 3"
  have ps: "unat ps < 4" unfolding ps_def by (rule pos_state_small)
  have "unat (push_bit 4 s) = 16 * unat s" using assms by (simp add: s_def push_bit_eq_mult unat_word_ariths)
  then have i: "unat (0 + push_bit 4 s + ps) < 7990" "unat (192 + s) < 7990" using assms ps by (simp_all add: s_def unat_word_ariths)
  obtain b0 rd0 m0 where d0: "decode_bit (lz_rd z) (slot_at p (0 + push_bit 4 s + ps)) m = (b0, rd0, m0)" using prod_cases3 by blast
  obtain b1 rd1 m1 where d1: "decode_bit rd0 (slot_at p (192 + s)) m0 = (b1, rd1, m1)" using prod_cases3 by blast
  note f0 = decode_bit_frame(2) [OF d0 i(1)]
  note f1 = table_only_trans [OF f0 decode_bit_frame(2) [OF d1 i(2)]]
  have eq: "lzma_step p z m =
     (if b0 = 0 then lzma_literal p (z\<lparr>lz_rd := rd0\<rparr>) m0 \<bind> (\<lambda>(z, m). Some (False, z, m))
      else if b1 = 0 then Some (lzma_new_match p ps (z\<lparr>lz_rd := rd1\<rparr>) m1)
      else Some (lzma_rep_match p ps (z\<lparr>lz_rd := rd1\<rparr>) m1))"
    unfolding lzma_step_def lzma_consts Let_def s_def [symmetric] ps_def [symmetric] d0 prod.case d1 by (rule refl)
  obtain z' m' where l: "lzma_literal p (z\<lparr>lz_rd := rd0\<rparr>) m0 = Some (z', m')" "turn_ok p (z\<lparr>lz_rd := rd0\<rparr>) m0 (False, z', m')"
    using literal_turn [of "z\<lparr>lz_rd := rd0\<rparr>" p m0] assms by auto
  have keep: "turn_ok p z mm r" if "turn_ok p (z\<lparr>lz_rd := rd\<rparr>) mm r" for rd mm r
    using turn_ok_edi [OF that, of z] by simp
  have n: "turn_ok p z m1 (lzma_new_match p ps (z\<lparr>lz_rd := rd1\<rparr>) m1)"
    using new_match_turn [of "z\<lparr>lz_rd := rd1\<rparr>" ps p m1] assms ps by (intro keep) simp
  have r: "turn_ok p z m1 (lzma_rep_match p ps (z\<lparr>lz_rd := rd1\<rparr>) m1)"
    using rep_match_turn [of "z\<lparr>lz_rd := rd1\<rparr>" ps p m1] assms ps by (intro keep) simp
  show ?thesis unfolding eq using turn_ok_table [OF f0 keep [OF l(2)]] turn_ok_table [OF f1 n] turn_ok_table [OF f1 r]
    by (cases "b0 = 0"; cases "b1 = 0") (simp_all add: l(1) del: split_paired_Ex)
qed

section \<open>The whole stream\<close>

definition changed_in :: "u32 \<Rightarrow> nat \<Rightarrow> nat \<Rightarrow> mem \<Rightarrow> mem \<Rightarrow> bool" where
  "changed_in p lo hi m m' \<longleftrightarrow> {x. m' x \<noteq> m x} \<subseteq> {x. unat (x - p) < 4 * 7990} \<union> {x. lo \<le> unat x \<and> unat x < hi}"

lemma changed_in_trans:
  "changed_in p lo hi m m' \<Longrightarrow> changed_in p lo' hi m' m'' \<Longrightarrow> lo \<le> lo' \<Longrightarrow> changed_in p lo hi m m''"
proof -
  assume c: "changed_in p lo hi m m'" "changed_in p lo' hi m' m''" "lo \<le> lo'"
  have "unat (x - p) < 4 * 7990 \<or> lo \<le> unat x \<and> unat x < hi" if "m'' x \<noteq> m x" for x
  proof (cases "m' x = m x")
    case True
    then have "m'' x \<noteq> m' x" using that by simp
    then have "unat (x - p) < 4 * 7990 \<or> lo' \<le> unat x \<and> unat x < hi" using c(2) unfolding changed_in_def by blast
    then show ?thesis using c(3) by linarith
  next
    case False
    then show ?thesis using c(1) unfolding changed_in_def by blast
  qed
  then show ?thesis unfolding changed_in_def by blast
qed

lemma turn_changed_in:
  assumes "writes_in p d l m m'" and "l \<le> 273" and "unat d < lim" and "lim + 272 < 2 ^ 32"
  shows "changed_in p (unat d) (lim + 272) m m'"
proof -
  have "unat d \<le> unat x \<and> unat x < lim + 272" if "unat (x - d) < l" for x
  proof -
    have lt: "unat d + unat (x - d) < 2 ^ 32" using that assms by linarith
    from unat_add_u32 [OF this] have "unat x = unat d + unat (x - d)" by simp
    then show ?thesis using that assms by simp
  qed
  then show ?thesis using assms(1) unfolding changed_in_def writes_in_def by blast
qed

lemma lzma_loop_returns:
  assumes "unat (lz_state z) < 12" and "unat limit + 272 < 2 ^ 32"
  shows "\<exists>z' m'. lzma_loop p limit z m = Some (z', m') \<and> changed_in p (unat (lz_edi z)) (unat limit + 272) m m'"
  using assms(1)
proof (induction "unat limit - unat (lz_edi z)" arbitrary: z m rule: less_induct)
  case less
  show ?case
  proof (cases "lz_edi z < limit")
    case False
    then show ?thesis by (subst lzma_loop.simps) (simp add: changed_in_def)
  next
    case True
    then have lt: "unat (lz_edi z) < unat limit" by (simp add: word_less_nat_alt)
    obtain brk z1 m1 where s: "lzma_step p z m = Some (brk, z1, m1)" and t: "turn_ok p z m (brk, z1, m1)"
      using step_turn [OF less.prems, of p m] by (metis prod_cases3)
    obtain l where l: "l \<le> 273" "brk \<or> 0 < l" "lz_edi z1 = lz_edi z + of_nat l" "writes_in p (lz_edi z) l m m1" "unat (lz_state z1) < 12"
      using t unfolding turn_ok_def by auto
    have c1: "changed_in p (unat (lz_edi z)) (unat limit + 272) m m1" using turn_changed_in [OF l(4,1) lt assms(2)] .
    show ?thesis
    proof (cases brk)
      case True
      then show ?thesis using s c1 \<open>lz_edi z < limit\<close> by (subst lzma_loop.simps) simp
    next
      case False
      have "unat (lz_edi z) + l < 2 ^ 32" using lt l(1) assms(2) by linarith
      then have e: "unat (lz_edi z1) = unat (lz_edi z) + l" unfolding l(3) by (simp add: unat_word_ariths unat_of_nat_u32)
      then have "unat limit - unat (lz_edi z1) < unat limit - unat (lz_edi z)" using l(2) False lt by linarith
      from less.hyps [OF this l(5), of m1] obtain z2 m2
        where r: "lzma_loop p limit z1 m1 = Some (z2, m2)" "changed_in p (unat (lz_edi z1)) (unat limit + 272) m1 m2" by blast
      have "changed_in p (unat (lz_edi z)) (unat limit + 272) m m2" using changed_in_trans [OF c1 r(2)] e by simp
      then show ?thesis using s False r(1) \<open>lz_edi z < limit\<close> by (subst lzma_loop.simps) simp
    qed
  qed
qed

lemma init_probs_table: "table_only p m (init_probs p i m)"
proof (induction "unat PROB_SLOTS - unat i" arbitrary: i m rule: less_induct)
  case less
  show ?case
  proof (cases "i < PROB_SLOTS")
    case True
    then have "unat i < 7990" by (simp add: lzma_consts word_less_nat_alt)
    then have "table_only p m (store_u32 (slot_at p i) (K_BIT_MODEL_TOTAL div 2) m)" by (rule store_slot)
    moreover have "table_only p (store_u32 (slot_at p i) (K_BIT_MODEL_TOTAL div 2) m)
        (init_probs p (i + 1) (store_u32 (slot_at p i) (K_BIT_MODEL_TOTAL div 2) m))"
      by (rule less) (rule unat_gap_less [OF True])
    ultimately show ?thesis using True by (subst init_probs.simps) (simp add: table_only_trans)
  qed (simp add: init_probs.simps)
qed

lemma lzma_unpack_returns:
  assumes "unat dest + unat dest_len + 272 < 2 ^ 32"
  shows "\<exists>src' m'. lzma_unpack src dest dest_len p m = Some (src', m') \<and> changed_in p (unat dest) (unat dest + unat dest_len + 272) m m'"
proof -
  have lim: "unat (dest + dest_len) = unat dest + unat dest_len" using assms by (simp add: unat_word_ariths)
  define z where "z = \<lparr>lz_rd = rd_init m src, lz_edi = dest, lz_state = 0, lz_prev = 0, lz_rep0 = 1, lz_rep1 = 1, lz_rep2 = 1, lz_rep3 = 1\<rparr>"
  obtain z' m' where l: "lzma_loop p (dest + dest_len) z (init_probs p 0 m) = Some (z', m')"
    and c: "changed_in p (unat dest) (unat dest + unat dest_len + 272) (init_probs p 0 m) m'"
    using lzma_loop_returns [of z "dest + dest_len" p "init_probs p 0 m"] assms lim by (auto simp: z_def)
  have "changed_in p (unat dest) (unat dest + unat dest_len + 272) m (init_probs p 0 m)"
    using init_probs_table [of p m 0] unfolding changed_in_def table_only_def by blast
  from changed_in_trans [OF this c] show ?thesis using l unfolding lzma_unpack_def z_def Let_def by simp
qed

section \<open>Filters\<close>

lemma fasm_load_rel32_bytes: "fasm_load_rel32 (le32 b0 b1 b2 b3) = le32 b3 b2 b1 0"
proof -
  have mk: "(0xFFFF0000 :: u32) = NOT (mask 16)" "(0xFFFF :: u32) = mask 16" "(0xFF :: u32) = mask 8"
    by (simp_all add: mask_eq_exp_minus_1)
  show ?thesis unfolding fasm_load_rel32_def Let_def mk
    by (rule u32_eq_listI)
      (simp add: bit_word_rotr_iff bit_or_iff bit_and_iff bit_not_iff bit_mask_iff bit_push_bit_iff bit_drop_bit_eq bit_le32
        del: push_bit_Suc drop_bit_Suc)
qed

lemma patch_store: "patch_rel32 esi dest m =
    (esi + 4, store_u32 esi (le32 (m (esi + 3)) (m (esi + 2)) (m (esi + 1)) 0 - (esi + 4) + dest) m)"
proof -
  have p: "esi + 4 - 4 = esi" by simp
  show ?thesis unfolding patch_rel32_def Let_def read_u32_le_def fasm_load_rel32_bytes p store_u32_def byte_def by simp
qed

lemma c1_loop_patch:
  "c1_loop dest dl esi left m =
     (if m esi - 0xE8 > 1 \<or> m (esi + 1) \<noteq> dl then c1_loop dest dl (esi + 1) left m
      else case patch_rel32 (esi + 1) dest m of (esi, m) \<Rightarrow> if left - 1 = 0 then Some m else c1_loop dest dl esi (left - 1) m)"
  by (subst c1_loop.simps) (simp add: Let_def patch_rel32_def)

section \<open>Properties\<close>

lemma plain_flags: "fl AND 0xC0 = 0xC0 \<or> fl AND NOT 0xC0 \<noteq> 1 \<or> fl \<in> {1, 0x41, 0x81}" for fl :: u8
  by (rule u8_allI [of "\<lambda>fl. fl AND 0xC0 = 0xC0 \<or> fl AND NOT 0xC0 \<noteq> 1 \<or> fl \<in> {1, 0x41, 0x81}"]) code_simp



text \<open>C10: A match copies byte by byte, so a match that overlaps its own output repeats: byte \<open>i\<close> of the copy is
  byte \<open>i mod rep0\<close> of the bytes before the output, and nothing else changes.\<close>

theorem copy_match_repeats:
  assumes "0 < unat rep0" and "unat rep0 + unat len \<le> 2 ^ 32"
  shows "copy_match edi rep0 len m x =
    (if unat (x - edi) < unat len then m (edi - rep0 + of_nat (unat (x - edi) mod unat rep0)) else m x)"
proof (cases "unat (x - edi) < unat len")
  case True
  then show ?thesis
    using copy_loop_periodic [OF True assms, of edi "edi - rep0" m] by (simp add: copy_match_def)
next
  case False
  then show ?thesis using copy_loop_frame [of edi "edi - rep0" len m x] by (auto simp: copy_match_def)
qed

theorem copy_match_repeats_witness: "copy_match 0x102 2 5 (put_bytes 0x100 [7, 9] (\<lambda>_. 0)) 0x105 = 9"
  using copy_match_repeats [of 2 5 "0x102" "put_bytes 0x100 [7, 9] (\<lambda>_. 0)" "0x105"] by simp

text \<open>Undoing the call filter: the four bytes behind an opcode, a marker and a 24-bit big-endian offset, become the
  32-bit displacement that makes the instruction jump to that offset from the start of the output; the
  scan goes on behind the operand and no other byte changes.\<close>

theorem call_filter_target:
  "case patch_rel32 esi dest m of (esi', m') \<Rightarrow>
     esi' = esi + 4
     \<and> esi' + load_u32 m' esi = dest + of_nat (65536 * unat (m (esi + 1)) + 256 * unat (m (esi + 2)) + unat (m (esi + 3)))
     \<and> {x. m' x \<noteq> m x} \<subseteq> {esi, esi + 1, esi + 2, esi + 3}"
proof -
  have "le32 (m (esi + 3)) (m (esi + 2)) (m (esi + 1)) 0 = of_nat (unat (le32 (m (esi + 3)) (m (esi + 2)) (m (esi + 1)) 0))" by simp
  also have "\<dots> = of_nat (65536 * unat (m (esi + 1)) + 256 * unat (m (esi + 2)) + unat (m (esi + 3)))" by (simp add: unat_le32)
  finally have v: "le32 (m (esi + 3)) (m (esi + 2)) (m (esi + 1)) 0 = of_nat (65536 * unat (m (esi + 1)) + 256 * unat (m (esi + 2)) + unat (m (esi + 3)))" .
  show ?thesis unfolding patch_store prod.case load_store_u32 v by (auto simp: store_u32_def)
qed

end
