(* ===== verification/Range_Coder.thy ===== *)
theory Range_Coder
  imports Lzma_Frame
begin

text \<open>
  The range decoder is invertible: a reference encoder that runs backwards, from the state the decoder shall
  end in to the bytes it must be given, and the proof that decoding these bytes gives the encoded bits and that
  state. The decoder keeps its range at least 2 to the 24 and every probability between 31 and 2017.
\<close>

section \<open>Ranges and probabilities\<close>

definition prob_ok :: "u32 \<Rightarrow> bool" where
  "prob_ok p \<longleftrightarrow> 31 \<le> unat p \<and> unat p \<le> 2017"

definition adapt :: "bool \<Rightarrow> u32 \<Rightarrow> u32" where
  "adapt b p = (if b then p - drop_bit 5 p else p + drop_bit 5 (2048 - p))"

definition split_range :: "u32 \<Rightarrow> u32 \<Rightarrow> u32" where
  "split_range r p = drop_bit 11 r * p"

definition sub_range :: "bool \<Rightarrow> u32 \<Rightarrow> u32 \<Rightarrow> u32" where
  "sub_range b r p = (if b then r - split_range r p else split_range r p)"

definition norm_range :: "u32 \<Rightarrow> u32" where
  "norm_range r = (if unat r < 2 ^ 24 then push_bit 8 r else r)"

lemma adapt_ok: "prob_ok p \<Longrightarrow> prob_ok (adapt b p)"
proof -
  assume p: "prob_ok p"
  have "unat (2048 - p) = 2048 - unat p" using p by (simp add: prob_ok_def unat_sub word_le_nat_alt)
  then have up: "unat (p + drop_bit 5 (2048 - p)) = unat p + (2048 - unat p) div 32"
    using p by (subst unat_add_u32) (auto simp: prob_ok_def unat_drop)
  have "unat (p - drop_bit 5 p) = unat p - unat p div 32"
    by (simp add: unat_sub word_le_nat_alt unat_drop)
  with up p show ?thesis unfolding prob_ok_def adapt_def by (cases b) auto
qed

lemma split_bounds:
  assumes "2 ^ 24 \<le> unat r" and "prob_ok p"
  shows "2 ^ 16 \<le> unat (split_range r p)" and "unat (split_range r p) + 2 ^ 16 \<le> unat r"
proof -
  define q where "q = unat r div 2048"
  have q: "8192 \<le> q" "2048 * q \<le> unat r" using assms(1) by (simp_all add: q_def)
  have "q * unat p + q * 31 = q * (unat p + 31)" by (simp add: algebra_simps)
  also have "\<dots> \<le> q * 2048" using assms(2) by (intro mult_le_mono2) (simp add: prob_ok_def)
  finally have up: "q * unat p + q * 31 \<le> unat r" using q(2) by linarith
  have "split_range r p = of_nat (q * unat p)" unfolding split_range_def q_def by (simp add: unat_drop [of 11, symmetric, simplified])
  moreover have "q * unat p < 2 ^ 32" using up le_less_trans [OF _ unat_u32 [of r]] by simp
  ultimately have v: "unat (split_range r p) = q * unat p" by (simp only: unat_of_nat_u32)
  have "8192 * 31 \<le> q * unat p" using q(1) assms(2) by (intro mult_le_mono) (simp_all add: prob_ok_def)
  then show "2 ^ 16 \<le> unat (split_range r p)" unfolding v by simp
  show "unat (split_range r p) + 2 ^ 16 \<le> unat r" unfolding v using up q(1) by simp
qed

lemma sub_range_bounds:
  assumes "2 ^ 24 \<le> unat r" and "prob_ok p"
  shows "2 ^ 16 \<le> unat (sub_range b r p)" and "unat (sub_range b r p) < unat r"
  using split_bounds [OF assms] by (auto simp: sub_range_def unat_sub word_le_nat_alt)

lemma norm_range_value:
  assumes "2 ^ 16 \<le> unat r"
  shows "unat (norm_range r) = (if unat r < 2 ^ 24 then 256 * unat r else unat r)" and "2 ^ 24 \<le> unat (norm_range r)"
proof -
  have "unat (push_bit 8 r) = 256 * unat r" if "unat r < 2 ^ 24" using that by (simp add: push_bit_eq_mult unat_word_ariths)
  then show "unat (norm_range r) = (if unat r < 2 ^ 24 then 256 * unat r else unat r)" by (simp add: norm_range_def)
  then show "2 ^ 24 \<le> unat (norm_range r)" using assms by simp
qed

section \<open>One bit\<close>

text \<open>The encoder: given the code and the bytes with which the decoder shall go on, the code and the bytes it must start
  with in order to decode \<open>b\<close>.\<close>

fun encode_bit :: "bool \<Rightarrow> u32 \<Rightarrow> u32 \<Rightarrow> u32 \<times> u8 list \<Rightarrow> u32 \<times> u8 list" where
  "encode_bit b r p (code, bs) =
     (let low = (if b then split_range r p else 0)
      in if unat (sub_range b r p) < 2 ^ 24 then (low + drop_bit 8 code, ucast code # bs) else (low + code, bs))"

lemma rejoin: "push_bit 8 (drop_bit 8 c) OR ucast (ucast c :: u8) = c" for c :: u32
  by (rule bit_word_eqI) (auto simp: bit_simps)

lemma decode_encode_bit:
  assumes r: "2 ^ 24 \<le> unat r" and p: "prob_ok (load_u32 m a)"
    and e: "encode_bit b r (load_u32 m a) (c', bs') = (c, bs)"
    and c': "unat c' < unat (norm_range (sub_range b r (load_u32 m a)))"
    and s: "mem_bytes (store_u32 a (adapt b (load_u32 m a)) m) src (length bs) = bs"
  shows "decode_bit \<lparr>rd_src = src, rd_code = c, rd_range = r\<rparr> a m =
    (if b then 1 else 0,
     \<lparr>rd_src = src + of_nat (length bs - length bs'), rd_code = c', rd_range = norm_range (sub_range b r (load_u32 m a))\<rparr>,
     store_u32 a (adapt b (load_u32 m a)) m)"
proof -
  define pr where "pr = load_u32 m a"
  define low where "low = split_range r pr"
  define r' where "r' = sub_range b r pr"
  define m' where "m' = store_u32 a (adapt b pr) m"
  define cc where "cc = (if unat r' < 2 ^ 24 then drop_bit 8 c' else c')"
  note bounds = sub_range_bounds [OF r p, of b, folded pr_def r'_def] split_bounds [OF r p, folded pr_def low_def]
  have cc: "unat cc < unat r'"
    using c' norm_range_value(1) [OF bounds(1)] unfolding pr_def [symmetric] r'_def [symmetric] cc_def
    by (auto simp: unat_drop less_mult_imp_div_less mult.commute split: if_splits)
  have c: "c = (if b then low else 0) + cc" "bs = (if unat r' < 2 ^ 24 then ucast c' # bs' else bs')"
    using e unfolding pr_def [symmetric] by (auto simp: Let_def low_def r'_def cc_def split: if_splits)
  have test: "c < low \<longleftrightarrow> \<not> b"
  proof (cases b)
    case True
    have "unat r' = unat r - unat low" using True bounds(4) by (simp add: r'_def sub_range_def low_def unat_sub word_le_nat_alt)
    then have "unat low + unat cc < unat r" using cc bounds(4) by linarith
    then have "unat low + unat cc < 2 ^ 32" using less_trans [OF _ unat_u32 [of r]] by simp
    then have "unat c = unat low + unat cc" using c(1) True by (simp add: unat_add_u32)
    then show ?thesis using True by (simp add: word_less_nat_alt)
  next
    case False
    then show ?thesis using c(1) cc by (simp add: r'_def sub_range_def low_def word_less_nat_alt)
  qed
  have norm: "rd_norm m' \<lparr>rd_src = src, rd_code = cc, rd_range = r'\<rparr> =
      \<lparr>rd_src = src + of_nat (length bs - length bs'), rd_code = c', rd_range = norm_range r'\<rparr>"
  proof (cases "unat r' < 2 ^ 24")
    case True
    then have "m' src = ucast c'" using s c(2) by (simp add: m'_def pr_def)
    then show ?thesis using True c(2)
      by (simp add: rd_norm_def lzma_consts word_less_nat_alt norm_range_def cc_def rejoin Let_def)
  next
    case False
    then show ?thesis using c(2) by (simp add: rd_norm_def lzma_consts word_less_nat_alt norm_range_def cc_def)
  qed
  show ?thesis
  proof (cases b)
    case True
    have "c - low = cc" using c(1) True by simp
    then show ?thesis using True test norm unfolding pr_def [symmetric] r'_def [symmetric] m'_def [symmetric]
      by (simp add: decode_bit_def Let_def pr_def [symmetric] low_def [symmetric] split_range_def [symmetric] r'_def sub_range_def m'_def adapt_def lzma_consts)
  next
    case False
    then show ?thesis using test norm c(1) unfolding pr_def [symmetric] r'_def [symmetric] m'_def [symmetric]
      by (simp add: decode_bit_def Let_def pr_def [symmetric] low_def [symmetric] split_range_def [symmetric] r'_def sub_range_def m'_def adapt_def lzma_consts)
  qed
qed

section \<open>A tree of bits\<close>

text \<open>The encoder follows the decoder through the tree, adapting the table as it goes, and encodes the last bit first.\<close>

fun encode_bits :: "u32 \<Rightarrow> mem \<Rightarrow> nat \<Rightarrow> u32 \<Rightarrow> bool list \<Rightarrow> u32 \<times> u8 list \<Rightarrow> u32 \<times> u8 list" where
  "encode_bits probs m s r [] k = k"
| "encode_bits probs m s r (b # bits) k =
     (let a = slot_at probs (of_nat s); p = load_u32 m a
      in encode_bit b r p
        (encode_bits probs (store_u32 a (adapt b p) m) (2 * s + of_bool b) (norm_range (sub_range b r p)) bits k))"

fun final_range :: "u32 \<Rightarrow> mem \<Rightarrow> nat \<Rightarrow> u32 \<Rightarrow> bool list \<Rightarrow> u32" where
  "final_range probs m s r [] = r"
| "final_range probs m s r (b # bits) =
     (let a = slot_at probs (of_nat s); p = load_u32 m a
      in final_range probs (store_u32 a (adapt b p) m) (2 * s + of_bool b) (norm_range (sub_range b r p)) bits)"

definition bits_value :: "nat \<Rightarrow> bool list \<Rightarrow> nat" where
  "bits_value s bits = foldl (\<lambda>v b. 2 * v + of_bool b) s bits"

definition table_ok :: "u32 \<Rightarrow> mem \<Rightarrow> bool" where
  "table_ok probs m \<longleftrightarrow> (\<forall>t < 512. prob_ok (load_u32 m (slot_at probs (of_nat t))))"

lemma slot_offset: "slot_at probs (of_nat t) = probs + of_nat (4 * t)"
  by (simp add: slot_at_def)

lemma table_ok_store:
  assumes "table_ok probs m" and "s < 512" and "prob_ok v"
  shows "table_ok probs (store_u32 (slot_at probs (of_nat s)) v m)"
  unfolding table_ok_def
proof (intro allI impI)
  fix t :: nat assume t: "t < 512"
  show "prob_ok (load_u32 (store_u32 (slot_at probs (of_nat s)) v m) (slot_at probs (of_nat t)))"
  proof (cases "t = s")
    case True
    then show ?thesis using assms(3) by (simp add: load_store_u32)
  next
    case False
    then have "4 * s + 4 \<le> 4 * t \<or> 4 * t + 4 \<le> 4 * s" by linarith
    then have "load_u32 (store_u32 (probs + of_nat (4 * s)) v m) (probs + of_nat (4 * t)) = load_u32 m (probs + of_nat (4 * t))"
      using t assms(2) by (intro load_store_u32_off) simp_all
    then show ?thesis using assms(1) t unfolding slot_offset [symmetric] by (simp add: table_ok_def)
  qed
qed

lemma encode_bit_length: "encode_bit b r p (c', bs') = (c, bs) \<Longrightarrow> \<exists>xs. bs = xs @ bs'"
  by (auto simp: Let_def split: if_splits)

lemma stream_kept:
  assumes "apart probs 2048 src (length bs)" and "s < 512" and "mem_bytes m src (length bs) = bs"
  shows "mem_bytes (store_u32 (slot_at probs (of_nat s)) v m) src (length bs) = bs"
proof -
  have "store_u32 (slot_at probs (of_nat s)) v m (src + of_nat i) = m (src + of_nat i)" if "i < length bs" for i
  proof (rule ccontr)
    assume "\<not> ?thesis"
    then obtain j :: nat where "j < 4" "src + of_nat i = probs + of_nat (4 * s) + of_nat j"
      using store_u32_where unfolding slot_offset by blast
    then have "probs + of_nat (4 * s + j) = src + of_nat i" "4 * s + j < 2048" using assms(2) by simp_all
    then show False using assms(1) that unfolding apart_def by blast
  qed
  then show ?thesis using mem_bytes_cong assms(3) by metis
qed

lemma encode_bit_code:
  assumes "2 ^ 24 \<le> unat r" and "prob_ok p" and "encode_bit b r p (c', bs') = (c, bs)" and "unat c' < unat (norm_range (sub_range b r p))"
  shows "unat c < unat r"
proof -
  define cc where "cc = (if unat (sub_range b r p) < 2 ^ 24 then drop_bit 8 c' else c')"
  have cc: "unat cc < unat (sub_range b r p)"
    using assms(4) norm_range_value(1) [OF sub_range_bounds(1) [OF assms(1,2)], of b] unfolding cc_def
    by (auto simp: unat_drop less_mult_imp_div_less mult.commute split: if_splits)
  have c: "c = (if b then split_range r p else 0) + cc" using assms(3) by (auto simp: Let_def cc_def split: if_splits)
  show ?thesis
  proof (cases b)
    case True
    have "unat c \<le> unat (split_range r p) + unat cc" using unat_plus_simple_le [of "split_range r p" cc] c True by simp
    moreover have "unat (sub_range b r p) = unat r - unat (split_range r p)"
      using True split_bounds(2) [OF assms(1,2)] by (simp add: sub_range_def unat_sub word_le_nat_alt)
    ultimately show ?thesis using cc split_bounds(2) [OF assms(1,2)] by linarith
  next
    case False
    then show ?thesis using c cc sub_range_bounds(2) [OF assms(1,2), of b] by simp
  qed
qed

lemma tree_step:
  assumes "decode_bit rd (slot_at probs (of_nat s)) m = (if b then 1 else 0, rd1, m1)" and "s < 512" and "n < 512"
  shows "bit_tree_loop probs (of_nat (Suc n)) (of_nat s) rd m = bit_tree_loop probs (of_nat n) (of_nat (2 * s + of_bool b)) rd1 m1"
proof -
  have n: "(of_nat (Suc n) :: u32) \<noteq> 0" "(of_nat (Suc n) :: u32) - 1 = of_nat n"
    using assms(3) of_nat_u32_eq_iff [of "Suc n" 0] by (simp_all del: of_nat_Suc) simp
  have "unat (push_bit 1 (of_nat s) OR (if b then 1 else 0) :: u32) = 2 * s + of_bool b"
    using shift_in [of "if b then 1 else 0" "of_nat s"] assms(2) by (simp add: unat_of_nat_u32)
  from arg_cong [OF this, of "of_nat :: nat \<Rightarrow> u32"]
  have "push_bit 1 (of_nat s) OR (if b then 1 else 0) = (of_nat (2 * s + of_bool b) :: u32)" by simp
  then show ?thesis using assms(1) n by (subst bit_tree_loop.simps) (simp only: Let_def prod.case if_True not_False_eq_True simp_thms)
qed

lemma decode_encode_bits:
  assumes "table_ok probs m" and "2 ^ 24 \<le> unat r" and "(s + 1) * 2 ^ length bits \<le> 512"
    and "encode_bits probs m s r bits (c', bs') = (c, bs)" and "unat c' < unat (final_range probs m s r bits)"
    and "apart probs 2048 src (length bs)" and "mem_bytes m src (length bs) = bs"
  shows "\<exists>m'. bit_tree_loop probs (of_nat (length bits)) (of_nat s) \<lparr>rd_src = src, rd_code = c, rd_range = r\<rparr> m =
      (of_nat (bits_value s bits),
       \<lparr>rd_src = src + of_nat (length bs - length bs'), rd_code = c', rd_range = final_range probs m s r bits\<rparr>, m')
    \<and> table_ok probs m' \<and> mem_bytes m' (src + of_nat (length bs - length bs')) (length bs') = bs'
    \<and> length bs' \<le> length bs \<and> unat c < unat r"
  using assms
proof (induction bits arbitrary: m s r c bs src)
  case Nil
  then show ?case by (simp add: bit_tree_loop.simps bits_value_def)
next
  case (Cons b bits)
  define a where "a = slot_at probs (of_nat s)"
  define p where "p = load_u32 m a"
  define m1 where "m1 = store_u32 a (adapt b p) m"
  define r1 where "r1 = norm_range (sub_range b r p)"
  obtain c1 bs1 where e1: "encode_bits probs m1 (2 * s + of_bool b) r1 bits (c', bs') = (c1, bs1)" by fastforce
  have e: "encode_bit b r p (c1, bs1) = (c, bs)"
    using Cons.prems(4) e1 by (simp add: a_def [symmetric] p_def [symmetric] m1_def [symmetric] r1_def [symmetric] Let_def del: encode_bit.simps)
  have fr: "final_range probs m s r (b # bits) = final_range probs m1 (2 * s + of_bool b) r1 bits"
    by (simp add: a_def [symmetric] p_def [symmetric] m1_def [symmetric] r1_def [symmetric] Let_def)
  have "(s + 1) * 1 \<le> (s + 1) * 2 ^ length (b # bits)" by (intro mult_le_mono2) simp
  from order_trans [OF this Cons.prems(3)] have s: "s < 512" by simp
  have p: "prob_ok p" using Cons.prems(1) s by (simp add: table_ok_def p_def a_def)
  note rb = norm_range_value(2) [OF sub_range_bounds(1) [OF Cons.prems(2) p, of b], folded r1_def]
  obtain xs where xs: "bs = xs @ bs1" using encode_bit_length [OF e] by blast
  have st: "mem_bytes m1 src (length bs) = bs" unfolding m1_def a_def by (rule stream_kept [OF Cons.prems(6) s Cons.prems(7)])
  have st1: "mem_bytes m1 (src + of_nat (length xs)) (length bs1) = bs1"
    using st mem_bytes_append [of m1 src "length xs" "length bs1"] by (simp add: xs)
  have ap1: "apart probs 2048 (src + of_nat (length xs)) (length bs1)"
    using apart_sub [OF Cons.prems(6), of 0 2048 "length xs" "length bs1"] by (simp add: xs)
  have tab1: "table_ok probs m1" unfolding m1_def a_def by (rule table_ok_store [OF Cons.prems(1) s adapt_ok [OF p]])
  have "(2 * s + of_bool b + 1) * 2 ^ length bits \<le> 2 * (s + 1) * 2 ^ length bits" by (intro mult_le_mono1) simp
  then have lim: "(2 * s + of_bool b + 1) * 2 ^ length bits \<le> 512" using Cons.prems(3) by (simp add: ac_simps)
  obtain m' where ih: "bit_tree_loop probs (of_nat (length bits)) (of_nat (2 * s + of_bool b))
        \<lparr>rd_src = src + of_nat (length xs), rd_code = c1, rd_range = r1\<rparr> m1 =
      (of_nat (bits_value (2 * s + of_bool b) bits),
       \<lparr>rd_src = src + of_nat (length xs) + of_nat (length bs1 - length bs'), rd_code = c',
        rd_range = final_range probs m1 (2 * s + of_bool b) r1 bits\<rparr>, m')"
    "table_ok probs m'" "mem_bytes m' (src + of_nat (length xs) + of_nat (length bs1 - length bs')) (length bs') = bs'"
    "length bs' \<le> length bs1" "unat c1 < unat r1"
    using Cons.IH [OF tab1 rb lim e1 _ ap1 st1] Cons.prems(5) unfolding fr by blast
  have d: "decode_bit \<lparr>rd_src = src, rd_code = c, rd_range = r\<rparr> a m =
      (if b then 1 else 0, \<lparr>rd_src = src + of_nat (length xs), rd_code = c1, rd_range = r1\<rparr>, m1)"
    using decode_encode_bit [OF Cons.prems(2) p [unfolded p_def] e [unfolded p_def]] ih(5) st xs
    unfolding m1_def r1_def p_def by simp
  have l: "src + of_nat (length bs - length bs') = src + of_nat (length xs) + of_nat (length bs1 - length bs')"
    using ih(4) by (simp add: xs of_nat_diff algebra_simps)
  have "unat c < unat r" by (rule encode_bit_code [OF Cons.prems(2) p e]) (use ih(5) in \<open>simp add: r1_def\<close>)
  moreover have "length bits < 512"
    using Cons.prems(3) less_exp [of "length (b # bits)"] mult_le_mono1 [of 1 "s + 1" "2 ^ length (b # bits)"] by simp
  ultimately show ?case
    using tree_step [OF d [unfolded a_def] s, of "length bits"] ih(1-4) l fr xs
    by (simp add: bits_value_def add.assoc del: of_nat_Suc of_nat_add of_nat_mult of_nat_diff)
qed

section \<open>The encoded bytes in memory\<close>

definition same_table :: "u32 \<Rightarrow> mem \<Rightarrow> mem \<Rightarrow> bool" where
  "same_table probs m m' \<longleftrightarrow> (\<forall>i < 2048. m (probs + of_nat i) = m' (probs + of_nat i))"

lemma same_table_load:
  assumes "same_table probs m m'" and "s < 512"
  shows "load_u32 m (slot_at probs (of_nat s)) = load_u32 m' (slot_at probs (of_nat s))"
proof -
  have "m (probs + of_nat (4 * s + j)) = m' (probs + of_nat (4 * s + j))" if "j < 4" for j
    using assms(1) [unfolded same_table_def, rule_format, of "4 * s + j"] assms(2) that by (simp del: of_nat_add of_nat_mult)
  from this [of 0] this [of 1] this [of 2] this [of 3] show ?thesis
    by (simp add: load_u32_def slot_at_def ac_simps)
qed

lemma same_table_store: "same_table probs m m' \<Longrightarrow> same_table probs (store_u32 a v m) (store_u32 a v m')"
  by (simp add: same_table_def store_u32_def)

lemma encode_same_table:
  assumes "same_table probs m m'" and "(s + 1) * 2 ^ length bits \<le> 512"
  shows "encode_bits probs m s r bits k = encode_bits probs m' s r bits k \<and> final_range probs m s r bits = final_range probs m' s r bits"
  using assms
proof (induction bits arbitrary: m m' s r)
  case (Cons b bits)
  have "(s + 1) * 1 \<le> (s + 1) * 2 ^ length (b # bits)" by (intro mult_le_mono2) simp
  from order_trans [OF this Cons.prems(2)] have s: "s < 512" by simp
  have "(2 * s + of_bool b + 1) * 2 ^ length bits \<le> 2 * (s + 1) * 2 ^ length bits" by (intro mult_le_mono1) simp
  then have lim: "(2 * s + of_bool b + 1) * 2 ^ length bits \<le> 512" using Cons.prems(2) by (simp add: ac_simps)
  show ?case using same_table_load [OF Cons.prems(1) s] Cons.IH [OF same_table_store [OF Cons.prems(1)] lim]
    by (simp add: Let_def del: encode_bit.simps)
qed simp

lemma table_ok_same: "same_table probs m m' \<Longrightarrow> table_ok probs m \<Longrightarrow> table_ok probs m'"
  unfolding table_ok_def using same_table_load by metis

lemma bits_value_Suc: "bits_value s bits = s * 2 ^ length bits + bits_value 0 bits"
proof (induction bits arbitrary: s)
  case (Cons b bits)
  have "bits_value s (b # bits) = bits_value (2 * s + of_bool b) bits" for s by (simp add: bits_value_def)
  then show ?case using Cons.IH [of "2 * s + of_bool b"] Cons.IH [of "of_bool b"] by (simp add: algebra_simps)
qed (simp add: bits_value_def)

lemma apart_short: "apart probs (Suc n) src k \<Longrightarrow> k < 2 ^ 32"
proof -
  assume a: "apart probs (Suc n) src k"
  have "k \<le> unat (probs - src)"
  proof (rule ccontr)
    assume "\<not> k \<le> unat (probs - src)"
    moreover have "src + of_nat (unat (probs - src)) = probs + of_nat 0" by simp
    ultimately show False using a unfolding apart_def by (metis not_le zero_less_Suc)
  qed
  then show ?thesis using le_less_trans [OF _ unat_u32] by simp
qed

text \<open>C9: Every symbol of a bit tree can be encoded, and the decoder inverts the encoder. For every probability table in
  range, every list of up to eight bits and every state in which the decoder shall end, the reference encoder
  yields a code and bytes; with these bytes anywhere in memory outside the table, the tree decoder returns the
  number the bits denote, has consumed exactly the encoder's bytes, ends in the given state with the following
  bytes untouched, and leaves the probability table in range.\<close>

theorem range_coder_round_trip:
  assumes "table_ok probs m" and "2 ^ 24 \<le> unat r" and "0 < length bits" and "length bits \<le> 8"
    and "encode_bits probs m 1 r bits (c', bs') = (c, bs)" and "unat c' < unat (final_range probs m 1 r bits)"
    and "apart probs 2048 src (length bs)"
  shows "\<exists>m' n. decode_bit_tree \<lparr>rd_src = src, rd_code = c, rd_range = r\<rparr> probs (of_nat (length bits)) (put_bytes src bs m) =
      (of_nat (bits_value 0 bits), \<lparr>rd_src = src + of_nat n, rd_code = c', rd_range = final_range probs m 1 r bits\<rparr>, m')
    \<and> n = length bs - length bs' \<and> mem_bytes m' (src + of_nat n) (length bs') = bs' \<and> table_ok probs m'"
proof -
  let ?m = "put_bytes src bs m"
  have short: "length bs \<le> 2 ^ 32" using apart_short [of probs 2047 src "length bs"] assms(7) by simp
  have "put_bytes src bs m (probs + of_nat i) = m (probs + of_nat i)" if "i < 2048" for i
    using assms(7) that unfolding apart_def by (intro put_bytes_other) blast
  then have same: "same_table probs m ?m" by (simp add: same_table_def)
  have "(2 :: nat) ^ length bits \<le> 2 ^ 8" using assms(4) by (intro power_increasing) simp_all
  then have lim: "(1 + 1) * 2 ^ length bits \<le> (512 :: nat)" by simp
  note st = encode_same_table [OF same lim, of r]
  obtain m' where l: "bit_tree_loop probs (of_nat (length bits)) (of_nat 1) \<lparr>rd_src = src, rd_code = c, rd_range = r\<rparr> ?m =
      (of_nat (bits_value 1 bits),
       \<lparr>rd_src = src + of_nat (length bs - length bs'), rd_code = c', rd_range = final_range probs m 1 r bits\<rparr>, m')"
    "table_ok probs m'" "mem_bytes m' (src + of_nat (length bs - length bs')) (length bs') = bs'"
    using decode_encode_bits [OF table_ok_same [OF same assms(1)] assms(2) lim _ _ assms(7) mem_bytes_put_bytes [OF short], of c' bs' c]
      st assms(5,6) by auto
  have "unat (of_nat (length bits) :: u32) = length bits" using assms(4) by (intro unat_of_nat_u32) simp
  then have "decode_bit_tree \<lparr>rd_src = src, rd_code = c, rd_range = r\<rparr> probs (of_nat (length bits)) ?m =
      (of_nat (bits_value 0 bits), \<lparr>rd_src = src + of_nat (length bs - length bs'), rd_code = c', rd_range = final_range probs m 1 r bits\<rparr>, m')"
    using l(1) bits_value_Suc [of 1 bits] by (simp add: decode_bit_tree_def push_bit_of_1)
  then show ?thesis using l(2,3) by blast
qed

definition even_odds :: mem where
  "even_odds x = (if x AND 3 = 1 then 4 else 0)"

lemma even_odds_slot: "load_u32 even_odds (slot_at 0 i) = 1024"
proof -
  have "(4 * i + k) AND 3 = k AND 3" for k :: u32
    using of_nat_and_3 [of "4 * unat i + unat k"] of_nat_and_3 [of "unat k"] by simp
  from this [of 0] this [of 1] this [of 2] this [of 3] show ?thesis
    by (simp add: load_u32_def even_odds_def slot_at_def le32_def)
qed

theorem range_coder_round_trip_witness:
  "\<exists>m' n. decode_bit_tree \<lparr>rd_src = 0x1000, rd_code = 0x401234, rd_range = 0x1000000\<rparr> 0 (of_nat 2) (put_bytes 0x1000 [0x56, 0x77] even_odds) =
      (of_nat 1, \<lparr>rd_src = 0x1000 + of_nat n, rd_code = 0x123456, rd_range = 0x40000000\<rparr>, m') \<and> n = 1"
proof -
  have tab: "table_ok 0 even_odds" unfolding table_ok_def even_odds_slot by (intro allI impI) (simp add: prob_ok_def)
  have two: "load_u32 (store_u32 (slot_at 0 1) v even_odds) (slot_at 0 2) = 1024" for v
    using load_store_u32_off [of 4 8 0 v even_odds] even_odds_slot [of 2] by (simp add: slot_at_def)
  note eval = Let_def sub_range_def split_range_def norm_range_def even_odds_slot two
  have enc: "encode_bits 0 even_odds 1 0x1000000 [False, True] (0x123456, [0x77]) = (0x401234, [0x56, 0x77])" by (simp add: eval)
  have fin: "final_range 0 even_odds 1 0x1000000 [False, True] = 0x40000000" by (simp add: eval)
  have "apart 0 2048 0x1000 (length [0x56 :: u8, 0x77])" by (rule apartI) simp_all
  from range_coder_round_trip [OF tab _ _ _ enc _ this] fin show ?thesis by (simp add: bits_value_def) blast
qed

end
