(* ===== verification/Bit_Table.thy ===== *)
theory Bit_Table
  imports Prelude
begin

text \<open>
  The interface of a bit table: what the I/O permission bitmap (\<^verbatim>\<open>io_access.rs\<close>,
  \<^verbatim>\<open>port_area.rs\<close>) and the physical page bitmap (\<^verbatim>\<open>phys_bitmap.rs\<close>,
  \<^verbatim>\<open>release_bitmap_page.rs\<close>) promise to the code that walks over them. A table is read
  with \<open>get\<close> and written one bit at a time with \<open>put\<close>; the abstraction is the set of
  the indices whose bit is set. The second half is the byte-level layout both share: bit \<open>i\<close>
  is bit \<open>i AND 7\<close> of byte \<open>i >> 3\<close>.
\<close>

section \<open>The interface\<close>

locale bit_table =
  fixes carrier :: "'i set"
    and get :: "'m \<Rightarrow> 'i \<Rightarrow> bool"
    and put :: "'i \<Rightarrow> bool \<Rightarrow> 'm \<Rightarrow> 'm"
  assumes get_put: "i \<in> carrier \<Longrightarrow> j \<in> carrier \<Longrightarrow> get (put i b m) j \<longleftrightarrow> (if j = i then b else get m j)"
begin

definition members :: "'m \<Rightarrow> 'i set" where
  "members m = {i \<in> carrier. get m i}"

lemma members_put:
  "i \<in> carrier \<Longrightarrow> members (put i b m) = (if b then insert i (members m) else members m - {i})"
  by (auto simp: members_def get_put split: if_splits)

lemma get_fold_put:
  assumes "set is \<subseteq> carrier" and "j \<in> carrier"
  shows "get (fold (\<lambda>i. put i b) is m) j \<longleftrightarrow> (if j \<in> set is then b else get m j)"
  using assms(1) by (induction "is" arbitrary: m) (auto simp: get_put assms(2))

lemma members_fold_put:
  "set is \<subseteq> carrier \<Longrightarrow>
    members (fold (\<lambda>i. put i b) is m) = (if b then members m \<union> set is else members m - set is)"
  by (auto simp: members_def get_fold_put subset_iff split: if_splits)

text \<open>Counting the members inside a finite window, as \<open>pages_free\<close> does.\<close>

lemma card_put_True:
  assumes "finite W" and "i \<in> W" and "i \<in> carrier"
  shows "card (members (put i True m) \<inter> W) = card (members m \<inter> W) + (if get m i then 0 else 1)"
proof (cases "get m i")
  case True
  then have "members (put i True m) = members m"
    using assms(3) by (auto simp: members_def get_put split: if_splits)
  with True show ?thesis by simp
next
  case False
  then have "i \<notin> members m" by (simp add: members_def)
  then show ?thesis using assms False by (simp add: members_put)
qed

lemma card_put_False:
  assumes "finite W" and "i \<in> W" and "i \<in> carrier" and "get m i"
  shows "Suc (card (members (put i False m) \<inter> W)) = card (members m \<inter> W)"
proof -
  have "members (put i False m) \<inter> W = (members m \<inter> W) - {i}"
    using assms(3) by (auto simp: members_put)
  moreover have "i \<in> members m \<inter> W" using assms by (simp add: members_def)
  ultimately show ?thesis using assms(1) by (metis card_Suc_Diff1 finite_Int)
qed

end

section \<open>The byte layout\<close>

definition bit_mask :: "u32 \<Rightarrow> u8" where
  "bit_mask i = push_bit (unat (ucast (i AND 7) :: u8)) 1"

lemma and_7_eq: "(x AND 7) = take_bit 3 x" for x :: "'a::len word"
  by (simp add: take_bit_eq_mask mask_eq_exp_minus_1)

lemma unat_ucast_and_7: "unat (ucast (i AND 7) :: u8) = unat (i AND 7)" for i :: u32
proof -
  have "unat (ucast (take_bit 3 i) :: u8) = unat (take_bit 3 i)"
    by (simp add: unsigned_ucast_eq unsigned_take_bit_eq min_def)
  then show ?thesis by (simp add: and_7_eq)
qed

lemma unat_and_7_less [simp]: "unat (i AND 7) < 8" for i :: u32
  unfolding and_7_eq by (simp add: unsigned_take_bit_eq take_bit_nat_less_exp [of 3, simplified])

lemma bit_bit_mask: "bit (bit_mask i) n \<longleftrightarrow> n = unat (i AND 7)"
  by (auto simp: bit_mask_def bit_simps unat_ucast_and_7)

lemma bit_index_eq_iff: "i = j \<longleftrightarrow> drop_bit 3 i = drop_bit 3 j \<and> i AND 7 = j AND 7" for i j :: u32
proof
  assume "drop_bit 3 i = drop_bit 3 j \<and> i AND 7 = j AND 7"
  then show "i = j" by (metis and_7_eq bits_ident)
qed simp

text \<open>Bit \<open>i\<close> of the table at \<open>base\<close>.\<close>

definition bit_at :: "u32 \<Rightarrow> mem \<Rightarrow> u32 \<Rightarrow> bool" where
  "bit_at base m i \<longleftrightarrow> bit (m (base + drop_bit 3 i)) (unat (i AND 7))"

definition put_bit :: "u32 \<Rightarrow> u32 \<Rightarrow> bool \<Rightarrow> mem \<Rightarrow> mem" where
  "put_bit base i b m =
     (let p = base + drop_bit 3 i in
      if b then m(p := m p OR bit_mask i) else m(p := m p AND NOT (bit_mask i)))"

lemma bit_at_put_bit: "bit_at base (put_bit base i b m) j \<longleftrightarrow> (if j = i then b else bit_at base m j)"
proof (cases "drop_bit 3 i = drop_bit 3 j")
  case True
  then have "j = i \<longleftrightarrow> unat (j AND 7) = unat (i AND 7)"
    using bit_index_eq_iff [of j i] by (auto simp: word_unat_eq_iff)
  then show ?thesis using True
    by (auto simp: bit_at_def put_bit_def Let_def bit_simps bit_bit_mask)
next
  case False
  then show ?thesis
    by (auto simp: bit_at_def put_bit_def Let_def)
qed

interpretation bits: bit_table UNIV "bit_at base" "put_bit base" for base
  by unfold_locales (rule bit_at_put_bit)

text \<open>The same table indexed by natural numbers, the page numbers of the page allocator.\<close>

interpretation nbits: bit_table "{..<0x100000000}" "\<lambda>m n. bit_at base m (of_nat n)"
    "\<lambda>n. put_bit base (of_nat n)" for base
  by unfold_locales (auto simp: bit_at_put_bit of_nat_u32_eq_iff)

lemma put_bit_other: "x \<noteq> base + drop_bit 3 i \<Longrightarrow> put_bit base i b m x = m x"
  by (simp add: put_bit_def Let_def)

lemma put_bit_same: "bit_at base m i = b \<Longrightarrow> put_bit base i b m = m"
proof -
  assume b: "bit_at base m i = b"
  let ?p = "base + drop_bit 3 i"
  have "(if b then m ?p OR bit_mask i else m ?p AND NOT (bit_mask i)) = m ?p"
    using b by (intro bit_word_eqI) (auto simp: bit_at_def bit_simps bit_bit_mask)
  then show ?thesis by (auto simp: put_bit_def Let_def fun_eq_iff split: if_splits)
qed

end
