(* ===== verification/Io_Ports.thy ===== *)
theory Io_Ports
  imports Bit_Table
begin

text \<open>
  The TSS I/O permission bitmap (\<^verbatim>\<open>io_access.rs\<close>) and the table of reserved port ranges
  that syscall 46 keeps (\<^verbatim>\<open>port_area.rs\<close>). The permission bitmap is a bit table in which a
  set bit denies access; the reservation table is a count dword followed by 1-based 16-byte
  entries (thread, first port, last port). The abstract state is the list of reservations;
  the lemmas show that reserving appends to it and freeing removes from it, and that
  the two tables stay consistent: a port is open exactly when a reservation covers it.
\<close>

section \<open>The permission bitmap\<close>

definition IO_MAP_BYTES :: u32 where
  "IO_MAP_BYTES = 8192"

definition IO_MAP_BITS :: u32 where
  "IO_MAP_BITS = IO_MAP_BYTES * 8"

definition set_io_access_rights :: "u32 \<Rightarrow> u32 \<Rightarrow> u32 \<Rightarrow> mem \<Rightarrow> mem" where
  "set_io_access_rights port clear_access io_map m =
     (let byte_index = drop_bit 3 port;
          bit = (ucast (port AND 7) :: u8);
          msk = push_bit (unat bit) (1 :: u8);
          p = io_map + byte_index;
          cur = m p
      in if clear_access = 0 then m(p := cur AND NOT msk) else m(p := cur OR msk))"

definition io_map_bit :: "mem \<Rightarrow> u32 \<Rightarrow> u32 \<Rightarrow> u8" where
  "io_map_bit m io_map port =
     (let byte_index = drop_bit 3 port;
          bit = (ucast (port AND 7) :: u8);
          b = m (io_map + byte_index)
      in drop_bit (unat bit) b AND 1)"

lemma set_io_access_rights_eq:
  "set_io_access_rights port c io_map m = put_bit io_map port (c \<noteq> 0) m"
  by (simp add: set_io_access_rights_def put_bit_def bit_mask_def Let_def)

lemma io_map_bit_eq: "io_map_bit m io_map port = (if bit_at io_map m port then 1 else 0)"
proof -
  have "drop_bit k b AND 1 = (if bit b k then 1 else 0)" for k and b :: u8
    by (rule bit_word_eqI) (auto simp: bit_simps intro: gr0I)
  then show ?thesis
    by (simp add: io_map_bit_def bit_at_def Let_def unat_ucast_and_7)
qed

interpretation io: bit_table UNIV "\<lambda>m port. io_map_bit m io_map port = 1"
    "\<lambda>port b. set_io_access_rights port (if b then 1 else 0) io_map" for io_map
  by unfold_locales (simp add: io_map_bit_eq set_io_access_rights_eq bit_at_put_bit)

section \<open>The reservation table\<close>

definition ENTRY_SIZE :: u32 where "ENTRY_SIZE = 16"
definition MAX_RESERVED :: u32 where "MAX_RESERVED = 255"
definition OFF_TID :: u32 where "OFF_TID = 0"
definition OFF_START :: u32 where "OFF_START = 4"
definition OFF_END :: u32 where "OFF_END = 8"

lemmas port_consts = ENTRY_SIZE_def MAX_RESERVED_def OFF_TID_def OFF_START_def OFF_END_def

definition entry_ptr :: "u32 \<Rightarrow> u32 \<Rightarrow> u32" where
  "entry_ptr reserved_ports index_1based = reserved_ports + index_1based * ENTRY_SIZE"

definition io_map_set_bit :: "u32 \<Rightarrow> u32 \<Rightarrow> u32 \<Rightarrow> mem \<Rightarrow> mem" where
  "io_map_set_bit port clear_access io_map m =
     (let byte_index = drop_bit 3 port;
          bit = (ucast (port AND 7) :: u8);
          msk = push_bit (unat bit) (1 :: u8);
          p = io_map + byte_index;
          cur = m p
      in if clear_access = 0 then m(p := cur AND NOT msk) else m(p := cur OR msk))"

function enable_range :: "u32 \<Rightarrow> u32 \<Rightarrow> u32 \<Rightarrow> mem \<Rightarrow> mem" where
  "enable_range port end_port io_map m =
     (if port = end_port then io_map_set_bit port 0 io_map m
      else enable_range (port + 1) end_port io_map (io_map_set_bit port 0 io_map m))"
  by pat_completeness auto
termination
  by (relation "measure (\<lambda>(port, end_port, io_map, m). unat (end_port - port))")
     (simp_all add: unat_sub_inc_less)

function disable_range :: "u32 \<Rightarrow> u32 \<Rightarrow> u32 \<Rightarrow> mem \<Rightarrow> mem" where
  "disable_range port end_port io_map m =
     (if port = end_port then io_map_set_bit port 1 io_map m
      else disable_range (port + 1) end_port io_map (io_map_set_bit port 1 io_map m))"
  by pat_completeness auto
termination
  by (relation "measure (\<lambda>(port, end_port, io_map, m). unat (end_port - port))")
     (simp_all add: unat_sub_inc_less)

text \<open>The overlap walk of \<^verbatim>\<open>reserve_port_area\<close>, from entry \<open>eax\<close> down to entry 1; \<open>True\<close> is
  the error exit.\<close>

function reserve_scan :: "mem \<Rightarrow> u32 \<Rightarrow> u32 \<Rightarrow> u32 \<Rightarrow> u32 \<Rightarrow> bool" where
  "reserve_scan m reserved_ports start end_port eax =
     (let ent = entry_ptr reserved_ports eax;
          old_end = load_u32 m (ent + OFF_END)
      in if start \<le> old_end \<and> end_port \<ge> load_u32 m (ent + OFF_START) then True
         else if eax - 1 = 0 then False
         else reserve_scan m reserved_ports start end_port (eax - 1))"
  by pat_completeness auto
termination
  by (relation "measure (\<lambda>(m, reserved_ports, start, end_port, eax). unat (eax - 1))")
     (auto simp: unat_dec2_less)

definition reserve_port_area :: "u32 \<Rightarrow> u32 \<Rightarrow> u32 \<Rightarrow> u32 \<Rightarrow> u32 \<Rightarrow> mem \<Rightarrow> u32 \<times> mem" where
  "reserve_port_area start end_port reserved_ports tid io_map m =
     (if start > end_port then (1, m)
      else if end_port \<ge> 65536 then (1, m)
      else
        let count = load_u32 m reserved_ports in
        if count \<noteq> 0 \<and> (count \<ge> MAX_RESERVED \<or> reserve_scan m reserved_ports start end_port count)
        then (1, m)
        else
          let m1 = enable_range start end_port io_map m;
              new_count = count + 1;
              m2 = store_u32 reserved_ports new_count m1;
              ent = entry_ptr reserved_ports new_count;
              m3 = store_u32 (ent + OFF_TID) tid m2;
              m4 = store_u32 (ent + OFF_START) start m3;
              m5 = store_u32 (ent + OFF_END) end_port m4
          in (0, m5))"

text \<open>The forward byte copy that closes the gap left by a freed entry.\<close>

function compact_loop :: "u32 \<Rightarrow> u32 \<Rightarrow> u32 \<Rightarrow> mem \<Rightarrow> mem" where
  "compact_loop edi i bytes m =
     (if i < bytes then compact_loop edi (i + 1) bytes (m(edi + i := m (edi + (ENTRY_SIZE + i))))
      else m)"
  by pat_completeness auto
termination
  by (relation "measure (\<lambda>(edi, i, bytes, m). unat bytes - unat i)")
     (auto simp: unat_inc_less word_less_nat_alt)

function free_loop :: "u32 \<Rightarrow> u32 \<Rightarrow> u32 \<Rightarrow> u32 \<Rightarrow> u32 \<Rightarrow> mem \<Rightarrow> u32 \<Rightarrow> u32 \<times> mem" where
  "free_loop start end_port reserved_ports tid io_map m eax =
     (let edi = entry_ptr reserved_ports eax in
      if load_u32 m (edi + OFF_TID) = tid \<and> load_u32 m (edi + OFF_START) = start
         \<and> load_u32 m (edi + OFF_END) = end_port
      then
        let bytes = (256 - eax) * ENTRY_SIZE;
            m1 = compact_loop edi 0 bytes m;
            count = load_u32 m1 reserved_ports;
            m2 = store_u32 reserved_ports (count - 1) m1
        in (0, disable_range start end_port io_map m2)
      else if eax - 1 = 0 then (1, m)
      else free_loop start end_port reserved_ports tid io_map m (eax - 1))"
  by pat_completeness auto
termination
  by (relation "measure (\<lambda>(start, end_port, reserved_ports, tid, io_map, m, eax). unat (eax - 1))")
     (auto simp: unat_dec2_less)

definition free_port_area :: "u32 \<Rightarrow> u32 \<Rightarrow> u32 \<Rightarrow> u32 \<Rightarrow> u32 \<Rightarrow> mem \<Rightarrow> u32 \<times> mem" where
  "free_port_area start end_port reserved_ports tid io_map m =
     (let eax = load_u32 m reserved_ports in
      if eax = 0 then (1, m) else free_loop start end_port reserved_ports tid io_map m eax)"

definition r_f_port_area :: "u32 \<Rightarrow> u32 \<Rightarrow> u32 \<Rightarrow> u32 \<Rightarrow> u32 \<Rightarrow> u32 \<Rightarrow> mem \<Rightarrow> u32 \<times> mem" where
  "r_f_port_area op start end_port reserved_ports tid io_map m =
     (if op \<noteq> 0 then free_port_area start end_port reserved_ports tid io_map m
      else reserve_port_area start end_port reserved_ports tid io_map m)"

declare enable_range.simps [simp del] disable_range.simps [simp del] reserve_scan.simps [simp del]
  compact_loop.simps [simp del] free_loop.simps [simp del]


section \<open>Range updates\<close>

definition ports :: "u32 \<Rightarrow> u32 \<Rightarrow> u32 list" where
  "ports a b = map of_nat [unat a ..< Suc (unat b)]"

lemma set_ports: "set (ports a b) = {a..b}"
proof -
  have img: "set (ports a b) = of_nat ` {unat a..unat b}"
    by (simp add: ports_def atLeastLessThanSuc_atLeastAtMost del: upt_Suc)
  have "x \<in> set (ports a b) \<longleftrightarrow> unat a \<le> unat x \<and> unat x \<le> unat b" for x
  proof
    assume "x \<in> set (ports a b)"
    then obtain n where n: "x = of_nat n" "unat a \<le> n" "n \<le> unat b" by (auto simp: img)
    have "n < 2 ^ 32" using le_less_trans [OF n(3) unat_u32] by simp
    with n show "unat a \<le> unat x \<and> unat x \<le> unat b" by (simp add: unat_of_nat_u32)
  next
    assume "unat a \<le> unat x \<and> unat x \<le> unat b"
    then show "x \<in> set (ports a b)" unfolding img by (intro image_eqI [of _ _ "unat x"]) simp_all
  qed
  then show ?thesis by (intro set_eqI) (simp only: atLeastAtMost_iff word_le_nat_alt)
qed

lemma ports_single: "ports a a = [a]"
  by (simp add: ports_def)

lemma ports_Cons: "a < b \<Longrightarrow> ports a b = a # ports (a + 1) b"
  by (simp add: ports_def unat_inc_less upt_conv_Cons word_less_nat_alt del: upt_Suc)

lemma io_map_set_bit_eq: "io_map_set_bit port c io_map m = put_bit io_map port (c \<noteq> 0) m"
  by (simp add: io_map_set_bit_def put_bit_def bit_mask_def Let_def)

lemma enable_range_fold:
  "port \<le> end_port \<Longrightarrow>
     enable_range port end_port io_map m = fold (\<lambda>p. put_bit io_map p False) (ports port end_port) m"
proof (induction port end_port io_map m rule: enable_range.induct)
  case (1 port end_port io_map m)
  show ?case
  proof (cases "port = end_port")
    case True
    then show ?thesis
      by (subst enable_range.simps) (simp add: ports_single io_map_set_bit_eq)
  next
    case False
    with "1.prems" have lt: "port < end_port" by simp
    then have le: "port + 1 \<le> end_port" by (rule inc_le)
    show ?thesis using "1.IH" [OF False le]
      by (subst enable_range.simps) (simp add: False ports_Cons [OF lt] io_map_set_bit_eq)
  qed
qed

lemma disable_range_fold:
  "port \<le> end_port \<Longrightarrow>
     disable_range port end_port io_map m = fold (\<lambda>p. put_bit io_map p True) (ports port end_port) m"
proof (induction port end_port io_map m rule: disable_range.induct)
  case (1 port end_port io_map m)
  show ?case
  proof (cases "port = end_port")
    case True
    then show ?thesis
      by (subst disable_range.simps) (simp add: ports_single io_map_set_bit_eq)
  next
    case False
    with "1.prems" have lt: "port < end_port" by simp
    then have le: "port + 1 \<le> end_port" by (rule inc_le)
    show ?thesis using "1.IH" [OF False le]
      by (subst disable_range.simps) (simp add: False ports_Cons [OF lt] io_map_set_bit_eq)
  qed
qed

text \<open>A range update changes exactly the bits of the range, and no byte outside the bitmap.\<close>

lemma bit_at_enable_range:
  "s \<le> e \<Longrightarrow> bit_at io_map (enable_range s e io_map m) p \<longleftrightarrow> p \<notin> {s..e} \<and> bit_at io_map m p"
  by (auto simp: enable_range_fold bits.get_fold_put set_ports)

lemma bit_at_disable_range:
  "s \<le> e \<Longrightarrow> bit_at io_map (disable_range s e io_map m) p \<longleftrightarrow> p \<in> {s..e} \<or> bit_at io_map m p"
  by (auto simp: disable_range_fold bits.get_fold_put set_ports)

lemma fold_put_bit_other:
  "(\<And>p. p \<in> set ps \<Longrightarrow> x \<noteq> base + drop_bit 3 p) \<Longrightarrow> fold (\<lambda>p. put_bit base p b) ps m x = m x"
  by (induction ps arbitrary: m) (simp_all add: put_bit_other)

lemma drop_bit_3_port: "p < 65536 \<Longrightarrow> drop_bit 3 p < (8192 :: u32)"
  unfolding word_less_nat_alt unat_drop_bit_eq
  by (simp add: drop_bit_eq_div less_mult_imp_div_less)

lemma range_other:
  assumes "s \<le> e" and "e < 65536" and "\<And>j. j < 8192 \<Longrightarrow> x \<noteq> io_map + j"
  shows "enable_range s e io_map m x = m x" and "disable_range s e io_map m x = m x"
proof -
  have "x \<noteq> io_map + drop_bit 3 p" if "p \<in> set (ports s e)" for p
    using that assms(2) by (intro assms(3) drop_bit_3_port) (auto simp: set_ports)
  then show "enable_range s e io_map m x = m x" "disable_range s e io_map m x = m x"
    using assms(1) by (simp_all add: enable_range_fold disable_range_fold fold_put_bit_other)
qed

section \<open>The abstract table\<close>

record port_entry =
  pe_tid :: u32
  pe_start :: u32
  pe_end :: u32

definition port_entry_at :: "mem \<Rightarrow> u32 \<Rightarrow> nat \<Rightarrow> port_entry" where
  "port_entry_at m rp i =
     \<lparr>pe_tid = load_u32 m (rp + of_nat (16 * i)),
      pe_start = load_u32 m (rp + of_nat (16 * i + 4)),
      pe_end = load_u32 m (rp + of_nat (16 * i + 8))\<rparr>"

definition port_count :: "mem \<Rightarrow> u32 \<Rightarrow> nat" where
  "port_count m rp = unat (load_u32 m rp)"

definition port_table :: "mem \<Rightarrow> u32 \<Rightarrow> port_entry list" where
  "port_table m rp = map (port_entry_at m rp) [1..<Suc (port_count m rp)]"

definition covers :: "port_entry \<Rightarrow> u32 \<Rightarrow> bool" where
  "covers x p \<longleftrightarrow> pe_start x \<le> p \<and> p \<le> pe_end x"

definition overlaps :: "u32 \<Rightarrow> u32 \<Rightarrow> port_entry \<Rightarrow> bool" where
  "overlaps s e x \<longleftrightarrow> s \<le> pe_end x \<and> pe_start x \<le> e"

text \<open>What the two operations promise of the list of reservations.\<close>

definition reserve_spec :: "port_entry \<Rightarrow> port_entry list \<Rightarrow> port_entry list option" where
  "reserve_spec x t =
     (if pe_end x < pe_start x \<or> 65536 \<le> pe_end x \<or> 255 \<le> length t
         \<or> list_ex (overlaps (pe_start x) (pe_end x)) t
      then None else Some (t @ [x]))"

definition free_spec :: "port_entry \<Rightarrow> port_entry list \<Rightarrow> port_entry list option" where
  "free_spec x t = (if x \<in> set t then Some (rev (remove1 x (rev t))) else None)"

text \<open>The table block (256 entries after the count) and the bitmap do not share a byte.\<close>

definition port_layout :: "u32 \<Rightarrow> u32 \<Rightarrow> bool" where
  "port_layout rp io_map \<longleftrightarrow> (\<forall>i < 4112. \<forall>j < 8192. rp + of_nat i \<noteq> io_map + of_nat j)"

lemma length_port_table [simp]: "length (port_table m rp) = port_count m rp"
  by (simp add: port_table_def del: upt_Suc)

lemma nth_port_table: "i < port_count m rp \<Longrightarrow> port_table m rp ! i = port_entry_at m rp (Suc i)"
  by (simp add: port_table_def del: upt_Suc)

lemma set_port_table: "set (port_table m rp) = port_entry_at m rp ` {1..port_count m rp}"
  by (simp add: port_table_def atLeastLessThanSuc_atLeastAtMost del: upt_Suc)

lemma entry_ptr_loads:
  "load_u32 m (entry_ptr rp eax + OFF_TID) = pe_tid (port_entry_at m rp (unat eax))"
  "load_u32 m (entry_ptr rp eax + OFF_START) = pe_start (port_entry_at m rp (unat eax))"
  "load_u32 m (entry_ptr rp eax + OFF_END) = pe_end (port_entry_at m rp (unat eax))"
  by (simp_all add: entry_ptr_def port_entry_at_def port_consts algebra_simps)

lemma port_layout_other:
  assumes "port_layout rp io_map" and "i < 4112" and "j < 8192"
  shows "rp + of_nat i \<noteq> io_map + j"
proof -
  from assms(3) have "unat j < 8192" by (simp add: word_less_nat_alt)
  with assms(1,2) have "rp + of_nat i \<noteq> io_map + of_nat (unat j)"
    unfolding port_layout_def by blast
  then show ?thesis by simp
qed

section \<open>Scanning\<close>

lemma reserve_scan_iff:
  "eax \<noteq> 0 \<Longrightarrow>
     reserve_scan m rp s e eax \<longleftrightarrow> (\<exists>i \<in> {1..unat eax}. overlaps s e (port_entry_at m rp i))"
proof (induction m rp s e eax rule: reserve_scan.induct)
  case (1 m rp s e eax)
  let ?o = "\<lambda>i. overlaps s e (port_entry_at m rp i)"
  have hit: "s \<le> load_u32 m (entry_ptr rp eax + OFF_END) \<and> load_u32 m (entry_ptr rp eax + OFF_START) \<le> e
      \<longleftrightarrow> ?o (unat eax)"
    by (simp add: overlaps_def entry_ptr_loads)
  have split: "{Suc 0..unat eax} = insert (unat eax) {Suc 0..unat (eax - 1)}"
    using "1.prems" by (auto simp: unat_dec unat_gt_0 Suc_le_eq)
  show ?case
  proof (cases "?o (unat eax) \<or> eax - 1 = 0")
    case True
    then show ?thesis
      by (subst reserve_scan.simps) (auto simp: hit split Let_def)
  next
    case False
    then have "reserve_scan m rp s e (eax - 1) \<longleftrightarrow> (\<exists>i \<in> {1..unat (eax - 1)}. ?o i)"
      using "1.IH" [OF refl refl] hit by blast
    with False show ?thesis
      by (subst reserve_scan.simps) (simp add: hit split Let_def)
  qed
qed

section \<open>Reserving\<close>

lemma port_table_frame:
  assumes "\<And>i. i < 4112 \<Longrightarrow> m' (rp + of_nat i) = m (rp + of_nat i)" and "port_count m rp \<le> 255"
  shows "port_table m' rp = port_table m rp"
proof -
  have ld: "load_u32 m' (rp + of_nat n) = load_u32 m (rp + of_nat n)" if "n + 4 \<le> 4112" for n
  proof (rule load_u32_cong)
    fix k :: u32 assume "k < 4"
    then have "n + unat k < 4112" using that by (simp add: word_less_nat_alt)
    then show "m' (rp + of_nat n + k) = m (rp + of_nat n + k)"
      using assms(1) [of "n + unat k"] by (simp add: add.assoc)
  qed
  have "port_count m' rp = port_count m rp" using ld [of 0] by (simp add: port_count_def)
  moreover have "port_entry_at m' rp i = port_entry_at m rp i" if "i \<le> port_count m rp" for i
    using that assms(2) by (simp add: port_entry_at_def ld del: of_nat_add of_nat_mult)
  ultimately show ?thesis by (simp add: port_table_def del: upt_Suc)
qed

text \<open>The four stores at the end of \<^verbatim>\<open>reserve_port_area\<close> push one entry.\<close>

definition push_entry :: "u32 \<Rightarrow> u32 \<Rightarrow> port_entry \<Rightarrow> mem \<Rightarrow> mem" where
  "push_entry rp count x m =
     store_u32 (rp + of_nat (24 + 16 * unat count)) (pe_end x)
      (store_u32 (rp + of_nat (20 + 16 * unat count)) (pe_start x)
       (store_u32 (rp + of_nat (16 + 16 * unat count)) (pe_tid x)
        (store_u32 rp (count + 1) m)))"

lemmas off_simps = load_store_u32_above load_store_u32_below load_store_u32_base load_store_u32

lemma port_table_push:
  assumes "load_u32 m rp = count" and "unat count < 255"
  shows "port_table (push_entry rp count x m) rp = port_table m rp @ [x]"
proof -
  let ?m = "push_entry rp count x m"
  let ?c = "unat count"
  have "load_u32 ?m rp = count + 1"
    using assms(2) by (simp add: push_entry_def off_simps del: of_nat_add of_nat_mult)
  then have count: "port_count ?m rp = Suc ?c"
    using assms(2) unat_inc_less [of count 255] by (simp add: port_count_def word_less_nat_alt)
  have old: "port_entry_at ?m rp i = port_entry_at m rp i" if "1 \<le> i" "i \<le> ?c" for i
    using that assms(2)
    by (simp add: port_entry_at_def push_entry_def off_simps del: of_nat_add of_nat_mult)
  have new: "port_entry_at ?m rp (?c + 1) = x"
    using assms(2)
    by (simp add: port_entry_at_def push_entry_def off_simps del: of_nat_add of_nat_mult)
  have "port_count m rp = ?c" using assms(1) by (simp add: port_count_def)
  then show ?thesis using new
    by (auto simp: port_table_def count intro: old)
qed

lemma push_entry_other:
  assumes "port_layout rp io_map" and "unat count < 255" and "j < 8192"
  shows "push_entry rp count x m (io_map + j) = m (io_map + j)"
proof -
  have "io_map + j \<noteq> rp + of_nat i" if "i < 4112" for i
    using port_layout_other [OF assms(1) that assms(3)] by metis
  then show ?thesis using assms(2)
    unfolding push_entry_def
    by (simp add: store_u32_at_off store_u32_at_off [where n = 0, simplified] del: of_nat_add of_nat_mult)
qed

lemma reserve_success_eq:
  assumes "load_u32 m rp = count"
  shows "(let m1 = enable_range s e io_map m;
              new_count = count + 1;
              m2 = store_u32 rp new_count m1;
              ent = entry_ptr rp new_count;
              m3 = store_u32 (ent + OFF_TID) tid m2;
              m4 = store_u32 (ent + OFF_START) s m3;
              m5 = store_u32 (ent + OFF_END) e m4
          in (0 :: u32, m5)) =
     (0, push_entry rp count \<lparr>pe_tid = tid, pe_start = s, pe_end = e\<rparr> (enable_range s e io_map m))"
  by (simp add: push_entry_def entry_ptr_def port_consts Let_def algebra_simps)


text \<open>The reserve operation refines the abstract one.\<close>

lemma reserve_refines:
  fixes tid s e :: u32
  defines "x \<equiv> \<lparr>pe_tid = tid, pe_start = s, pe_end = e\<rparr>"
  assumes layout: "port_layout rp io_map" and count: "port_count m rp \<le> 255"
  shows "case reserve_spec x (port_table m rp) of
      None \<Rightarrow> reserve_port_area s e rp tid io_map m = (1, m)
    | Some t \<Rightarrow> (\<exists>m'. reserve_port_area s e rp tid io_map m = (0, m') \<and> port_table m' rp = t
        \<and> (\<forall>p < 65536. bit_at io_map m' p \<longleftrightarrow> \<not> covers x p \<and> bit_at io_map m p))"
proof -
  let ?c = "load_u32 m rp"
  let ?m1 = "enable_range s e io_map m"
  let ?bad = "e < s \<or> 65536 \<le> e \<or> 255 \<le> unat ?c \<or> list_ex (overlaps s e) (port_table m rp)"
  have ex: "list_ex (overlaps s e) (port_table m rp) \<longleftrightarrow> ?c \<noteq> 0 \<and> reserve_scan m rp s e ?c"
    by (cases "?c = 0") (simp_all add: list_ex_iff set_port_table reserve_scan_iff port_count_def)
  have max: "MAX_RESERVED \<le> ?c \<longleftrightarrow> 255 \<le> unat ?c" "255 \<le> unat ?c \<Longrightarrow> ?c \<noteq> 0"
    by (auto simp: MAX_RESERVED_def word_le_nat_alt)
  show ?thesis
  proof (cases ?bad)
    case True
    then have "reserve_spec x (port_table m rp) = None"
      by (auto simp: reserve_spec_def x_def port_count_def)
    moreover have "reserve_port_area s e rp tid io_map m = (1, m)"
      using True ex max unfolding reserve_port_area_def by (auto simp: Let_def)
    ultimately show ?thesis by simp
  next
    case False
    then have spec: "reserve_spec x (port_table m rp) = Some (port_table m rp @ [x])"
      by (auto simp: reserve_spec_def x_def port_count_def)
    have se: "s \<le> e" "e < 65536" "unat ?c < 255" using False by auto
    have eq: "reserve_port_area s e rp tid io_map m = (0, push_entry rp ?c x ?m1)"
      using False ex max unfolding reserve_port_area_def x_def reserve_success_eq [OF refl, symmetric]
      by (auto simp: Let_def)
    have frame: "?m1 (rp + of_nat i) = m (rp + of_nat i)" if "i < 4112" for i
      using that by (intro range_other se) (rule port_layout_other [OF layout])
    have tab: "port_table ?m1 rp = port_table m rp" using frame count by (rule port_table_frame)
    have "?m1 (rp + k) = m (rp + k)" if "k < 4" for k
      using that frame [of "unat k"] by (simp add: word_less_nat_alt)
    then have "load_u32 ?m1 rp = ?c" by (rule load_u32_cong)
    then have "port_table (push_entry rp ?c x ?m1) rp = port_table m rp @ [x]"
      using se(3) tab by (simp add: port_table_push)
    moreover have "bit_at io_map (push_entry rp ?c x ?m1) p \<longleftrightarrow> \<not> covers x p \<and> bit_at io_map m p"
      if "p < 65536" for p
      using bit_at_enable_range [OF se(1)] push_entry_other [OF layout se(3) drop_bit_3_port [OF that]]
      by (auto simp: bit_at_def covers_def x_def)
    ultimately show ?thesis using spec eq by simp
  qed
qed


section \<open>Freeing\<close>

lemma compact_loop_spec:
  assumes "unat bytes \<le> 2 ^ 31" and "k < 2 ^ 32"
  shows "compact_loop edi i bytes m (edi + of_nat k) =
    (if unat i \<le> k \<and> k < unat bytes then m (edi + of_nat (k + 16)) else m (edi + of_nat k))"
  using assms
proof (induction edi i bytes m rule: compact_loop.induct)
  case (1 edi i bytes m)
  show ?case
  proof (cases "i < bytes")
    case False
    then show ?thesis by (subst compact_loop.simps) (auto simp: word_less_nat_alt)
  next
    case True
    let ?m = "m(edi + i := m (edi + (ENTRY_SIZE + i)))"
    have i: "edi + i = edi + of_nat (unat i)" by simp
    have at: "?m (edi + of_nat n) = (if n = unat i then m (edi + of_nat (n + 16)) else m (edi + of_nat n))"
      if "n < 2 ^ 32" for n
      using of_nat_u32_eq_iff [OF that, of "unat i"]
      by (auto simp: ENTRY_SIZE_def add.commute add.left_commute)
    have lt: "unat i < unat bytes" using True by (simp add: word_less_nat_alt)
    have "compact_loop edi i bytes m (edi + of_nat k) = compact_loop edi (i + 1) bytes ?m (edi + of_nat k)"
      using True by (subst compact_loop.simps) simp
    also have "\<dots> = (if Suc (unat i) \<le> k \<and> k < unat bytes then ?m (edi + of_nat (k + 16))
        else ?m (edi + of_nat k))"
      by (simp only: "1.IH" [OF True "1.prems"] unat_inc_less [OF True])
    also have "\<dots> = (if unat i \<le> k \<and> k < unat bytes then m (edi + of_nat (k + 16)) else m (edi + of_nat k))"
      using lt "1.prems" at [of k] at [of "k + 16"] by (auto simp del: of_nat_add)
    finally show ?thesis .
  qed
qed


text \<open>The memory after the entry with 1-based index \<open>eax\<close> was removed, before the bitmap update.\<close>

definition drop_entry :: "u32 \<Rightarrow> u32 \<Rightarrow> mem \<Rightarrow> mem" where
  "drop_entry rp eax m =
     (let m1 = compact_loop (entry_ptr rp eax) 0 ((256 - eax) * ENTRY_SIZE) m
      in store_u32 rp (load_u32 m1 rp - 1) m1)"

lemma compact_bytes:
  assumes "1 \<le> unat eax" and "unat eax \<le> 255"
  shows "16 * unat eax + unat ((256 - eax) * ENTRY_SIZE) = 4096"
proof -
  have "unat (256 - eax) = 256 - unat eax"
    using assms(2) by (subst unat_sub) (simp_all add: word_le_nat_alt)
  moreover from this have "unat ((256 - eax) * 16) = unat (256 - eax) * unat (16 :: u32)"
    by (intro iffD1 [OF unat_mult_lem]) simp
  ultimately show ?thesis using assms by (simp add: ENTRY_SIZE_def)
qed

lemma compacted_at:
  assumes "1 \<le> unat eax" and "unat eax \<le> 255" and "k < 4112"
  shows "compact_loop (entry_ptr rp eax) 0 ((256 - eax) * ENTRY_SIZE) m (rp + of_nat k) =
     (if 16 * unat eax \<le> k \<and> k < 4096 then m (rp + of_nat (k + 16)) else m (rp + of_nat k))"
proof -
  let ?d = "16 * unat eax"
  have edi: "entry_ptr rp eax = rp + of_nat ?d" by (simp add: entry_ptr_def ENTRY_SIZE_def)
  have bytes: "unat ((256 - eax) * ENTRY_SIZE) = 4096 - ?d" using compact_bytes [OF assms(1,2)] by simp
  note spec = compact_loop_spec [of "(256 - eax) * ENTRY_SIZE", unfolded bytes, of _ "rp + of_nat ?d" 0 m]
  show ?thesis
  proof (cases "?d \<le> k")
    case True
    then have k: "rp + of_nat k = rp + of_nat ?d + of_nat (k - ?d)"
      by (simp add: add.assoc flip: of_nat_add)
    show ?thesis
      unfolding edi k by (subst spec) (use True assms in \<open>auto simp: add.assoc simp flip: of_nat_add\<close>)
  next
    case False
    have "of_nat (?d + (2 ^ 32 - ?d + k)) = (of_nat (2 ^ 32 + k) :: u32)"
      using assms(2) by (intro arg_cong [of _ _ of_nat]) simp
    then have "rp + of_nat k = rp + of_nat ?d + of_nat (2 ^ 32 - ?d + k)"
      by (simp only: of_nat_add add.assoc) simp
    then show ?thesis
      unfolding edi by (simp only:) (subst spec, use False assms in auto)
  qed
qed


lemma compacted_load:
  fixes m :: mem and rp :: u32
  assumes "1 \<le> unat eax" and "unat eax \<le> 255"
  defines "m1 \<equiv> compact_loop (entry_ptr rp eax) 0 ((256 - eax) * ENTRY_SIZE) m"
  shows "n + 4 \<le> 16 * unat eax \<Longrightarrow> load_u32 m1 (rp + of_nat n) = load_u32 m (rp + of_nat n)"
    and "16 * unat eax \<le> n \<Longrightarrow> n + 4 \<le> 4096 \<Longrightarrow>
       load_u32 m1 (rp + of_nat n) = load_u32 m (rp + of_nat (n + 16))"
proof -
  have at: "m1 (rp + of_nat n + k) =
     (if 16 * unat eax \<le> n + unat k \<and> n + unat k < 4096
      then m (rp + of_nat (n + 16) + k) else m (rp + of_nat n + k))" if "n + 4 \<le> 4112" "k < 4" for n k
    using compacted_at [OF assms(1,2), of "n + unat k" rp m] that
    by (simp add: m1_def word_less_nat_alt add.assoc add.commute [of k])
  show "load_u32 m1 (rp + of_nat n) = load_u32 m (rp + of_nat n)" if "n + 4 \<le> 16 * unat eax"
    using that assms(2) by (intro load_u32_cong) (subst at, auto simp: word_less_nat_alt)
  show "load_u32 m1 (rp + of_nat n) = load_u32 m (rp + of_nat (n + 16))"
    if "16 * unat eax \<le> n" "n + 4 \<le> 4096"
    using that at [of n 0] at [of n 1] at [of n 2] at [of n 3] unfolding load_u32_def by simp
qed

lemma port_table_drop:
  assumes "1 \<le> unat eax" and "unat eax \<le> port_count m rp" and "port_count m rp \<le> 255"
  shows "port_table (drop_entry rp eax m) rp =
     take (unat eax - 1) (port_table m rp) @ drop (unat eax) (port_table m rp)"
proof -
  let ?e = "unat eax"
  let ?m1 = "compact_loop (entry_ptr rp eax) 0 ((256 - eax) * ENTRY_SIZE) m"
  let ?m = "drop_entry rp eax m"
  have e: "?e \<le> 255" using assms by simp
  note ld = compacted_load [OF assms(1) e, where rp = rp and m = m]
  have c1: "load_u32 ?m1 rp = load_u32 m rp" using ld(1) [of 0] assms(1) by simp
  have m: "?m = store_u32 rp (load_u32 m rp - 1) ?m1" by (simp add: drop_entry_def c1 Let_def)
  have "load_u32 m rp \<noteq> 0" using assms by (auto simp: port_count_def)
  then have count: "port_count ?m rp = port_count m rp - 1"
    by (simp add: m port_count_def load_store_u32 unat_dec)
  have lo: "port_entry_at ?m rp i = port_entry_at m rp i" if "1 \<le> i" "i < ?e" for i
    using that e by (simp add: m port_entry_at_def off_simps ld(1) del: of_nat_add of_nat_mult)
  have hi: "port_entry_at ?m rp i = port_entry_at m rp (i + 1)" if "?e \<le> i" "i \<le> 254" for i
    using that assms(1)
    by (simp add: m port_entry_at_def off_simps ld(2) del: of_nat_add of_nat_mult)
       (simp add: add.commute add.left_commute)
  show ?thesis
  proof (rule nth_equalityI)
    show "length (port_table ?m rp) = length (take (?e - 1) (port_table m rp) @ drop ?e (port_table m rp))"
      using assms by (simp add: count)
    fix i assume "i < length (port_table ?m rp)"
    then have i: "i < port_count m rp - 1" by (simp add: count)
    show "port_table ?m rp ! i = (take (?e - 1) (port_table m rp) @ drop ?e (port_table m rp)) ! i"
    proof (cases "i < ?e - 1")
      case True
      with i assms show ?thesis by (simp add: nth_append nth_port_table count lo)
    next
      case False
      with i assms show ?thesis by (simp add: nth_append nth_port_table count hi min_def)
    qed
  qed
qed


lemma compact_loop_other:
  "(\<And>k. k < unat bytes \<Longrightarrow> x \<noteq> edi + of_nat k) \<Longrightarrow> compact_loop edi i bytes m x = m x"
proof (induction edi i bytes m rule: compact_loop.induct)
  case (1 edi i bytes m)
  show ?case
  proof (cases "i < bytes")
    case True
    then have "x \<noteq> edi + i" using "1.prems" [of "unat i"] by (simp add: word_less_nat_alt)
    moreover have "compact_loop edi (i + 1) bytes (m(edi + i := m (edi + (ENTRY_SIZE + i)))) x
        = (m(edi + i := m (edi + (ENTRY_SIZE + i)))) x"
      using True "1.prems" by (rule "1.IH")
    ultimately show ?thesis using True by (subst compact_loop.simps) (simp only: if_True fun_upd_other simp_thms if_False fun_upd_apply)
  next
    case False
    then show ?thesis by (subst compact_loop.simps) simp
  qed
qed

lemma drop_entry_other:
  assumes layout: "port_layout rp io_map" and e: "1 \<le> unat eax" "unat eax \<le> 255" and j: "j < 8192"
  shows "drop_entry rp eax m (io_map + j) = m (io_map + j)"
proof -
  let ?b = "(256 - eax) * ENTRY_SIZE"
  have ne: "io_map + j \<noteq> rp + of_nat i" if "i < 4112" for i
    using port_layout_other [OF layout that j] by metis
  have b: "16 * unat eax + unat ?b = 4096" by (rule compact_bytes [OF e])
  have "compact_loop (entry_ptr rp eax) 0 ?b m (io_map + j) = m (io_map + j)"
  proof (rule compact_loop_other)
    fix k assume "k < unat ?b"
    with b have "io_map + j \<noteq> rp + of_nat (16 * unat eax + k)" by (intro ne) simp
    then show "io_map + j \<noteq> entry_ptr rp eax + of_nat k"
      by (simp add: entry_ptr_def ENTRY_SIZE_def mult.commute add.assoc)
  qed
  then show ?thesis
    unfolding drop_entry_def Let_def
    by (subst store_u32_at_off [where n = 0, simplified]) (auto simp: ne)
qed

lemma free_loop_cases:
  fixes s e tid :: u32
  defines "x \<equiv> \<lparr>pe_tid = tid, pe_start = s, pe_end = e\<rparr>"
  shows "eax \<noteq> 0 \<Longrightarrow>
    (free_loop s e rp tid io_map m eax = (1, m) \<and> (\<forall>i \<in> {1..unat eax}. port_entry_at m rp i \<noteq> x)) \<or>
    (\<exists>i. i \<noteq> 0 \<and> i \<le> eax \<and> port_entry_at m rp (unat i) = x
       \<and> (\<forall>j \<in> {unat i<..unat eax}. port_entry_at m rp j \<noteq> x)
       \<and> free_loop s e rp tid io_map m eax = (0, disable_range s e io_map (drop_entry rp i m)))"
proof (induction "unat eax" arbitrary: eax)
  case 0
  then show ?case by (simp add: unat_0_iff)
next
  case (Suc n)
  let ?hit = "port_entry_at m rp (unat eax) = x"
  have hit: "load_u32 m (entry_ptr rp eax + OFF_TID) = tid \<and> load_u32 m (entry_ptr rp eax + OFF_START) = s
      \<and> load_u32 m (entry_ptr rp eax + OFF_END) = e \<longleftrightarrow> ?hit"
    by (auto simp: entry_ptr_loads x_def)
  show ?case
  proof (cases ?hit)
    case True
    then have "free_loop s e rp tid io_map m eax = (0, disable_range s e io_map (drop_entry rp eax m))"
      by (subst free_loop.simps) (simp add: hit Let_def drop_entry_def)
    with True Suc.prems show ?thesis by (intro disjI2 exI [of _ eax]) auto
  next
    case False
    have pred: "unat (eax - 1) = n" using Suc by (simp add: unat_dec)
    show ?thesis
    proof (cases "eax - 1 = 0")
      case True
      then have one: "eax = 1" by simp
      have "free_loop s e rp tid io_map m eax = (1, m)"
        using False True by (subst free_loop.simps) (simp only: hit Let_def if_False if_True simp_thms)
      with one False show ?thesis by auto
    next
      case nz: False
      have eq: "free_loop s e rp tid io_map m eax = free_loop s e rp tid io_map m (eax - 1)"
        using False nz by (subst free_loop.simps) (simp add: hit Let_def)
      have below: "j \<le> unat (eax - 1)" if "j \<le> unat eax" "j \<noteq> unat eax" for j
        using that pred Suc(2) by simp
      have le: "i \<le> eax" if "i \<le> eax - 1" for i
        using that pred Suc(2) by (simp add: word_le_nat_alt)
      show ?thesis
        using Suc.hyps(1) [OF pred [symmetric] nz] below le False unfolding eq
        by (metis (no_types, lifting) atLeastAtMost_iff greaterThanAtMost_iff)
    qed
  qed
qed

lemma remove_last_eq:
  assumes "k < length t" and "t ! k = x" and "\<And>j. k < j \<Longrightarrow> j < length t \<Longrightarrow> t ! j \<noteq> x"
  shows "rev (remove1 x (rev t)) = take k t @ drop (Suc k) t"
proof -
  have t: "t = take k t @ x # drop (Suc k) t" using id_take_nth_drop [OF assms(1)] assms(2) by simp
  have "x \<notin> set (drop (Suc k) t)"
    using assms(3) by (auto simp: in_set_conv_nth)
  then show ?thesis by (subst t) (simp add: remove1_append)
qed


text \<open>The free operation refines the abstract one, on tables whose entries are proper ranges.\<close>

lemma free_refines:
  fixes tid s e :: u32
  defines "x \<equiv> \<lparr>pe_tid = tid, pe_start = s, pe_end = e\<rparr>"
  assumes layout: "port_layout rp io_map" and count: "port_count m rp \<le> 255"
    and ranges: "x \<in> set (port_table m rp) \<Longrightarrow> s \<le> e \<and> e < 65536"
  shows "case free_spec x (port_table m rp) of
      None \<Rightarrow> free_port_area s e rp tid io_map m = (1, m)
    | Some t \<Rightarrow> (\<exists>m'. free_port_area s e rp tid io_map m = (0, m') \<and> port_table m' rp = t
        \<and> (\<forall>p < 65536. bit_at io_map m' p \<longleftrightarrow> covers x p \<or> bit_at io_map m p))"
proof -
  let ?c = "load_u32 m rp"
  have mem: "x \<in> set (port_table m rp) \<longleftrightarrow> (\<exists>i \<in> {1..unat ?c}. port_entry_at m rp i = x)"
    by (auto simp: set_port_table port_count_def)
  show ?thesis
  proof (cases "x \<in> set (port_table m rp)")
    case False
    then have "?c = 0 \<or> free_loop s e rp tid io_map m ?c = (1, m)"
      using free_loop_cases [of ?c s e rp tid io_map m] mem
      unfolding x_def by (force simp: word_le_nat_alt unat_gt_0 Suc_le_eq)
    with False show ?thesis by (auto simp: free_spec_def free_port_area_def Let_def)
  next
    case True
    from ranges [OF True] have range: "s \<le> e" "e < 65536" by auto
    from True have nz: "?c \<noteq> 0" unfolding mem by (auto simp: unat_gt_0)
    from True nz obtain i where i: "i \<noteq> 0" "i \<le> ?c" "port_entry_at m rp (unat i) = x"
      and last: "\<And>j. j \<in> {unat i<..unat ?c} \<Longrightarrow> port_entry_at m rp j \<noteq> x"
      and eq: "free_loop s e rp tid io_map m ?c = (0, disable_range s e io_map (drop_entry rp i m))"
      using free_loop_cases [of ?c s e rp tid io_map m] mem unfolding x_def by blast
    let ?i = "unat i" let ?m = "drop_entry rp i m"
    have ib: "1 \<le> ?i" "?i \<le> port_count m rp" "?i \<le> 255"
      using i count by (auto simp: word_le_nat_alt port_count_def Suc_le_eq unat_gt_0)
    have "rev (remove1 x (rev (port_table m rp))) = take (?i - 1) (port_table m rp) @ drop (Suc (?i - 1)) (port_table m rp)"
      using ib i(3) last by (intro remove_last_eq) (auto simp: nth_port_table port_count_def)
    then have tab: "port_table ?m rp = rev (remove1 x (rev (port_table m rp)))"
      using ib port_table_drop [OF ib(1,2) count] by simp
    have frame: "disable_range s e io_map ?m (rp + of_nat k) = ?m (rp + of_nat k)" if "k < 4112" for k
      using that by (intro range_other range) (rule port_layout_other [OF layout])
    have "length (port_table ?m rp) \<le> 255" unfolding tab using count by (auto simp: length_remove1)
    then have "port_table (disable_range s e io_map ?m) rp = port_table ?m rp"
      using frame by (intro port_table_frame) simp_all
    moreover have "free_port_area s e rp tid io_map m = (0, disable_range s e io_map ?m)"
      using nz eq by (simp add: free_port_area_def)
    moreover have "bit_at io_map (disable_range s e io_map ?m) p \<longleftrightarrow> covers x p \<or> bit_at io_map m p"
      if "p < 65536" for p
      using bit_at_disable_range [OF range(1)] drop_entry_other [OF layout ib(1,3) drop_bit_3_port [OF that]]
      by (auto simp: bit_at_def covers_def x_def)
    ultimately show ?thesis using True tab by (simp add: free_spec_def)
  qed
qed


section \<open>Consistency of the two tables\<close>

text \<open>
  The invariant of the component: proper, pairwise disjoint ranges, at most 255 of them,
  and a port is open (its bit is clear) exactly when a reservation covers it.
\<close>

definition port_inv :: "u32 \<Rightarrow> u32 \<Rightarrow> mem \<Rightarrow> bool" where
  "port_inv rp io_map m \<longleftrightarrow>
     port_count m rp \<le> 255
     \<and> (\<forall>x \<in> set (port_table m rp). pe_start x \<le> pe_end x \<and> pe_end x < 65536)
     \<and> sorted_wrt (\<lambda>x y. \<not> overlaps (pe_start x) (pe_end x) y) (port_table m rp)
     \<and> (\<forall>p < 65536. \<not> bit_at io_map m p \<longleftrightarrow> (\<exists>x \<in> set (port_table m rp). covers x p))"

lemma overlaps_sym:
  "overlaps (pe_start x) (pe_end x) y \<longleftrightarrow> overlaps (pe_start y) (pe_end y) x"
  by (auto simp: overlaps_def)

lemma covers_overlaps: "covers x p \<Longrightarrow> covers y p \<Longrightarrow> overlaps (pe_start x) (pe_end x) y"
  unfolding covers_def overlaps_def by (meson order_trans)

lemma reserve_preserves:
  assumes inv: "port_inv rp io_map m" and layout: "port_layout rp io_map"
    and res: "reserve_port_area s e rp tid io_map m = (r, m')"
  shows "port_inv rp io_map m'"
proof -
  let ?x = "\<lparr>pe_tid = tid, pe_start = s, pe_end = e\<rparr>"
  let ?t = "port_table m rp"
  have count: "port_count m rp \<le> 255" using inv by (simp add: port_inv_def)
  note ref = reserve_refines [OF layout count, where tid = tid and s = s and e = e]
  show ?thesis
  proof (cases "reserve_spec ?x ?t")
    case None
    with ref res inv show ?thesis by simp
  next
    case (Some t)
    then have t: "t = ?t @ [?x]" and ok: "s \<le> e" "e < 65536" "length ?t < 255"
      and dis: "\<forall>y \<in> set ?t. \<not> overlaps s e y"
      by (auto simp: reserve_spec_def list_ex_iff split: if_splits)
    from Some ref res have tab: "port_table m' rp = ?t @ [?x]"
      and bits: "\<forall>p < 65536. bit_at io_map m' p \<longleftrightarrow> \<not> covers ?x p \<and> bit_at io_map m p"
      by (auto simp: t)
    have "port_count m' rp \<le> 255" using ok(3) tab by (metis length_append_singleton length_port_table Suc_leI)
    moreover have "sorted_wrt (\<lambda>x y. \<not> overlaps (pe_start x) (pe_end x) y) (?t @ [?x])"
      using inv dis overlaps_sym [of _ ?x] by (simp add: port_inv_def sorted_wrt_append)
    ultimately show ?thesis using inv ok bits by (auto simp: port_inv_def tab)
  qed
qed


lemma free_preserves:
  assumes inv: "port_inv rp io_map m" and layout: "port_layout rp io_map"
    and res: "free_port_area s e rp tid io_map m = (r, m')"
  shows "port_inv rp io_map m'"
proof -
  let ?x = "\<lparr>pe_tid = tid, pe_start = s, pe_end = e\<rparr>"
  let ?t = "port_table m rp"
  have count: "port_count m rp \<le> 255" using inv by (simp add: port_inv_def)
  have rng: "?x \<in> set ?t \<Longrightarrow> s \<le> e \<and> e < 65536" using inv by (fastforce simp: port_inv_def)
  note ref = free_refines [where tid = tid and s = s and e = e, OF layout count rng]
  show ?thesis
  proof (cases "?x \<in> set ?t")
    case False
    with ref res inv show ?thesis by (simp add: free_spec_def)
  next
    case True
    then obtain a b where ab: "?t = a @ ?x # b" "?x \<notin> set b" by (meson split_list_last)
    then have "rev (remove1 ?x (rev ?t)) = a @ b" by (simp add: remove1_append)
    with True ref res have tab: "port_table m' rp = a @ b"
      and bits: "\<forall>p < 65536. bit_at io_map m' p \<longleftrightarrow> covers ?x p \<or> bit_at io_map m p"
      by (auto simp: free_spec_def)
    have dis: "\<not> (covers ?x p \<and> covers y p)" if "y \<in> set (a @ b)" for y p
      using inv that covers_overlaps overlaps_sym unfolding port_inv_def ab
      by (fastforce simp: sorted_wrt_append)
    have len: "port_count m' rp \<le> 255"
      using count tab ab by (simp flip: length_port_table)
    have "sorted_wrt (\<lambda>x y. \<not> overlaps (pe_start x) (pe_end x) y) (a @ b)"
      using inv by (simp add: port_inv_def ab sorted_wrt_append)
    moreover have "\<not> bit_at io_map m' p \<longleftrightarrow> (\<exists>y \<in> set (a @ b). covers y p)" if "p < 65536" for p
    proof -
      have "\<not> bit_at io_map m p \<longleftrightarrow> covers ?x p \<or> (\<exists>y \<in> set (a @ b). covers y p)"
        using inv that by (auto simp: port_inv_def ab)
      with bits that dis [of _ p] show ?thesis by blast
    qed
    ultimately show ?thesis using inv len unfolding port_inv_def tab by (simp add: ab)
  qed
qed


section \<open>The syscall as a state machine\<close>

text \<open>
  Sequences of \<^verbatim>\<open>r_f_port_area\<close> calls by any threads, from a memory in which no range is
  reserved and every port is closed.
\<close>

definition port_init :: "u32 \<Rightarrow> u32 \<Rightarrow> mem \<Rightarrow> bool" where
  "port_init rp io_map m \<longleftrightarrow> load_u32 m rp = 0 \<and> (\<forall>p < 65536. bit_at io_map m p)"

inductive port_reachable :: "u32 \<Rightarrow> u32 \<Rightarrow> mem \<Rightarrow> bool" for rp io_map where
  init: "port_init rp io_map m \<Longrightarrow> port_reachable rp io_map m"
| call: "port_reachable rp io_map m \<Longrightarrow> r_f_port_area op s e rp tid io_map m = (r, m') \<Longrightarrow>
     port_reachable rp io_map m'"

lemma port_init_inv: "port_init rp io_map m \<Longrightarrow> port_inv rp io_map m"
  by (simp add: port_init_def port_inv_def port_table_def port_count_def)

lemma port_step_inv:
  "port_inv rp io_map m \<Longrightarrow> port_layout rp io_map \<Longrightarrow>
     r_f_port_area op s e rp tid io_map m = (r, m') \<Longrightarrow> port_inv rp io_map m'"
  by (auto simp: r_f_port_area_def intro: reserve_preserves free_preserves split: if_splits)

lemma port_reachable_inv: "port_reachable rp io_map m \<Longrightarrow> port_layout rp io_map \<Longrightarrow> port_inv rp io_map m"
  by (induction rule: port_reachable.induct) (auto intro: port_init_inv port_step_inv)


section \<open>Properties\<close>


definition port_example :: mem where
  "port_example a = (if a - 0x10000 < 4 then 0 else 255)"

lemma port_layout_example: "port_layout 0x10000 0x20000"
  unfolding port_layout_def
proof (intro allI impI)
  fix i j :: nat assume "i < 4112" "j < 8192"
  then show "0x10000 + of_nat i \<noteq> (0x20000 + of_nat j :: u32)"
    using of_nat_u32_eq_iff [of "0x10000 + i" "0x20000 + j"] by simp
qed

lemma port_init_example: "port_init 0x10000 0x20000 port_example"
proof -
  have "port_example (0x20000 + drop_bit 3 p) = 255" if "p < 65536" for p
  proof -
    have "\<not> (0x10000 + drop_bit 3 p :: u32) < 4"
      using drop_bit_3_port [OF that] unat_add_lem [of "0x10000" "drop_bit 3 p"]
      by (simp add: word_less_nat_alt)
    then show ?thesis by (simp add: port_example_def algebra_simps)
  qed
  moreover have "bit (255 :: u8) (unat (p AND 7))" for p :: u32
    using bit_mask_iff [where 'a = u8 and m = 8 and n = "unat (p AND 7)"] unat_and_7_less [of p]
    by (simp add: mask_eq_exp_minus_1)
  ultimately show ?thesis
    by (simp add: port_init_def bit_at_def load_u32_def port_example_def le32_def)
qed


text \<open>C38: A reserve call succeeds exactly when the range is proper and below 65536, fewer than 255
  ranges are reserved and none of them overlaps the new one; then it appends the range to the
  table, opens exactly its ports and leaves every other port as it was. When it fails it returns 1
  and changes no byte of memory.\<close>

theorem reserve_call_refines:
  fixes tid s e :: u32
  assumes "port_layout rp io_map" and "port_count m rp \<le> 255"
  shows "case reserve_spec \<lparr>pe_tid = tid, pe_start = s, pe_end = e\<rparr> (port_table m rp) of
      None \<Rightarrow> r_f_port_area 0 s e rp tid io_map m = (1, m)
    | Some t \<Rightarrow> (\<exists>m'. r_f_port_area 0 s e rp tid io_map m = (0, m') \<and> port_table m' rp = t
        \<and> (\<forall>p < 65536. io_map_bit m' io_map p = (if s \<le> p \<and> p \<le> e then 0 else io_map_bit m io_map p)))"
  using reserve_refines [OF assms, where tid = tid and s = s and e = e]
  by (fastforce simp: r_f_port_area_def io_map_bit_eq covers_def split: option.splits)

theorem reserve_call_refines_witness:
  "\<exists>m'. r_f_port_area 0 0x3F8 0x3FF 0x10000 7 0x20000 port_example = (0, m')
     \<and> port_table m' 0x10000 = [\<lparr>pe_tid = 7, pe_start = 0x3F8, pe_end = 0x3FF\<rparr>]
     \<and> io_map_bit m' 0x20000 0x3FA = 0"
proof -
  have zero: "load_u32 port_example 0x10000 = 0" using port_init_example by (simp add: port_init_def)
  then have c: "port_count port_example 0x10000 = 0" by (simp add: port_count_def)
  then have t: "port_table port_example 0x10000 = []" by (simp add: port_table_def)
  show ?thesis
    using reserve_call_refines [OF port_layout_example, of port_example, where tid = 7 and s = "0x3F8" and e = "0x3FF"]
    by (auto simp: c t reserve_spec_def)
qed

text \<open>Freeing a range right after reserving it succeeds, gives back the reservation table that was
  there before, and closes exactly the ports of the range again.\<close>

theorem reserve_then_free:
  fixes tid s e :: u32
  assumes inv: "port_inv rp io_map m" and layout: "port_layout rp io_map"
    and res: "r_f_port_area 0 s e rp tid io_map m = (0, m1)" and op: "op \<noteq> 0"
  shows "\<exists>m2. r_f_port_area op s e rp tid io_map m1 = (0, m2) \<and> port_table m2 rp = port_table m rp
    \<and> (\<forall>p < 65536. io_map_bit m2 io_map p = io_map_bit m io_map p)"
proof -
  let ?x = "\<lparr>pe_tid = tid, pe_start = s, pe_end = e\<rparr>"
  let ?t = "port_table m rp"
  have count: "port_count m rp \<le> 255" using inv by (simp add: port_inv_def)
  have sp: "reserve_spec ?x ?t = Some (?t @ [?x])"
    and tab: "port_table m1 rp = ?t @ [?x]"
    and bits: "\<forall>p < 65536. bit_at io_map m1 p \<longleftrightarrow> \<not> covers ?x p \<and> bit_at io_map m p"
    using reserve_refines [OF layout count, where tid = tid and s = s and e = e] res
    by (auto simp: r_f_port_area_def reserve_spec_def split: option.splits if_splits)
  then have rng: "s \<le> e \<and> e < 65536" and dis: "\<forall>y \<in> set ?t. \<not> overlaps s e y"
    by (auto simp: reserve_spec_def list_ex_iff split: if_splits)
  have closed: "bit_at io_map m p" if "covers ?x p" "p < 65536" for p
    using that inv dis covers_overlaps [OF that(1)] by (fastforce simp: port_inv_def)
  have inv1: "port_inv rp io_map m1"
    using port_step_inv [OF inv layout res] .
  then have "port_count m1 rp \<le> 255" by (simp add: port_inv_def)
  from free_refines [where tid = tid and s = s and e = e, OF layout this rng]
  show ?thesis using op bits closed
    by (fastforce simp: free_spec_def tab r_f_port_area_def io_map_bit_eq)
qed

theorem reserve_then_free_witness:
  "\<exists>m1 m2. r_f_port_area 0 0x60 0x64 0x10000 3 0x20000 port_example = (0, m1)
     \<and> r_f_port_area 1 0x60 0x64 0x10000 3 0x20000 m1 = (0, m2)
     \<and> port_table m2 0x10000 = port_table port_example 0x10000"
proof -
  have inv: "port_inv 0x10000 0x20000 port_example" by (rule port_init_inv [OF port_init_example])
  have zero: "load_u32 port_example 0x10000 = 0" using port_init_example by (simp add: port_init_def)
  obtain m1 where "r_f_port_area 0 0x60 0x64 0x10000 3 0x20000 port_example = (0, m1)"
    by (simp add: r_f_port_area_def reserve_port_area_def zero Let_def)
  with reserve_then_free [OF inv port_layout_example this, of 1] show ?thesis by auto
qed

end
