(* ===== verification/Phys_Bitmap.thy ===== *)
theory Phys_Bitmap
  imports Bit_Table
begin

text \<open>
  The physical page allocator: \<^verbatim>\<open>phys_bitmap.rs\<close> and \<^verbatim>\<open>release_bitmap_page.rs\<close>.
  A set bit of the map means a free page. \<open>pg_state\<close> holds what the functions reach through
  their pointer arguments: the memory with the map at address \<open>pmap\<close>, the search cursor
  \<open>page_start\<close> and the limit \<open>page_end\<close> (byte offsets from \<open>pmap\<close>), and the free page
  counter \<open>pages_free\<close>. The scan of \<^verbatim>\<open>alloc_page\<close> adds 4 with wrap-around, so it is a
  partial function whose result \<open>None\<close> means that the loop does not end.
\<close>

section \<open>Model\<close>

record pg_state =
  pg_map :: mem
  page_start :: u32
  page_end :: u32
  pages_free :: u32

definition trailing_zeros :: "'a::len word \<Rightarrow> nat" where
  "trailing_zeros w = length (takeWhile (\<lambda>i. \<not> bit w i) [0..<LENGTH('a)])"

definition bitmap_bts_free_delta :: "u32 \<Rightarrow> u32 \<Rightarrow> mem \<Rightarrow> u32 \<times> mem" where
  "bitmap_bts_free_delta page_index pmap m =
     (let p = pmap + drop_bit 3 page_index;
          bit = (ucast (page_index AND 7) :: u8);
          old_byte = m p;
          old = drop_bit (unat bit) old_byte AND 1
      in (if old = 0 then 1 else 0, m(p := old_byte OR push_bit (unat bit) 1)))"

definition release_bitmap_page_without_cursor_update :: "u32 \<Rightarrow> u32 \<Rightarrow> mem \<Rightarrow> u32 \<times> mem" where
  "release_bitmap_page_without_cursor_update page_index pmap m =
     (let p = pmap + drop_bit 3 page_index;
          bit = (ucast (page_index AND 7) :: u8);
          old_byte = m p;
          old = drop_bit (unat bit) old_byte AND 1
      in (if old = 0 then 1 else 0, m(p := old_byte OR push_bit (unat bit) 1)))"

definition release_bitmap_page_mode_b :: "u32 \<Rightarrow> u32 \<Rightarrow> pg_state \<Rightarrow> u32 \<times> pg_state" where
  "release_bitmap_page_mode_b page_index pmap s =
     (let (delta, m) = bitmap_bts_free_delta page_index pmap (pg_map s);
          s = s\<lparr>pg_map := m\<rparr>
      in (delta, if delta \<noteq> 0 then s\<lparr>pages_free := pages_free s + delta\<rparr> else s))"

text \<open>The scan loop of \<^verbatim>\<open>alloc_page\<close>, with the work done on the first non-zero word.\<close>

partial_function (option) alloc_page_loop :: "u32 \<Rightarrow> u32 \<Rightarrow> u32 \<Rightarrow> pg_state \<Rightarrow> (u32 \<times> pg_state) option" where
  "alloc_page_loop pmap end_off ebx s =
     (if ebx < end_off then
        let off = ebx; word = load_u32 (pg_map s) (pmap + off) in
        if word \<noteq> 0 then
          let bit = trailing_zeros word;
              s = s\<lparr>pages_free := pages_free s - 1\<rparr> in
          if pages_free s = 0 then Some (0, s\<lparr>pages_free := 1\<rparr>)
          else
            let new_word = word AND NOT (push_bit bit 1);
                s = s\<lparr>pg_map := store_u32 (pmap + off) new_word (pg_map s), page_start := ebx\<rparr>;
                page_index = of_nat bit + ebx * 8
            in Some (push_bit 12 page_index, s)
        else alloc_page_loop pmap end_off (ebx + 4) s
      else Some (0, s))"

definition alloc_page :: "u32 \<Rightarrow> pg_state \<Rightarrow> (u32 \<times> pg_state) option" where
  "alloc_page pmap s =
     (if sint (pages_free s) \<le> 1 then Some (0, s\<lparr>pages_free := 1\<rparr>)
      else alloc_page_loop pmap (page_end s) (page_start s) s)"

definition free_page :: "u32 \<Rightarrow> u32 \<Rightarrow> pg_state \<Rightarrow> pg_state" where
  "free_page phys pmap s =
     (let page_index = drop_bit 12 phys;
          (delta, m) = bitmap_bts_free_delta page_index pmap (pg_map s);
          s = s\<lparr>pg_map := m\<rparr>;
          s = (if delta \<noteq> 0 then s\<lparr>pages_free := pages_free s + 1\<rparr> else s);
          dword_off = drop_bit 3 page_index AND NOT 3
      in if page_start s > dword_off then s\<lparr>page_start := dword_off\<rparr> else s)"

text \<open>
  \<^verbatim>\<open>alloc_pages\<close>: the inner loop looks at the bytes from \<open>cur\<close> on and leaves in one of three
  ways: the end of the map, a byte that is not all free (the outer loop goes on behind it), or a
  run of \<open>need_bytes\<close> free bytes.
\<close>

datatype run_exit = Run_End | Run_Broken u32 | Run_Found

function alloc_pages_inner :: "u32 \<Rightarrow> u32 \<Rightarrow> mem \<Rightarrow> u32 \<Rightarrow> u32 \<Rightarrow> run_exit" where
  "alloc_pages_inner pmap end_off m cur edx =
     (if cur \<ge> end_off then Run_End
      else if m (pmap + cur) \<noteq> 0xFF then Run_Broken (cur + 1)
      else if edx - 1 = 0 then Run_Found
      else alloc_pages_inner pmap end_off m (cur + 1) (edx - 1))"
  by pat_completeness auto
termination
  by (relation "measure (\<lambda>(pmap, end_off, m, cur, edx). unat end_off - unat cur)")
    (auto simp: not_le unat_gap_less)

declare alloc_pages_inner.simps [simp del]

function clear_loop :: "u32 \<Rightarrow> u32 \<Rightarrow> u32 \<Rightarrow> u32 \<Rightarrow> mem \<Rightarrow> mem" where
  "clear_loop pmap edi need_bytes i m =
     (if i < need_bytes then clear_loop pmap edi need_bytes (i + 1) (m(pmap + (edi + i) := 0)) else m)"
  by pat_completeness auto
termination
  by (relation "measure (\<lambda>(pmap, edi, need_bytes, i, m). unat need_bytes - unat i)")
    (auto simp: unat_gap_less)

declare clear_loop.simps [simp del]

lemma alloc_pages_inner_broken:
  "alloc_pages_inner pmap end_off m cur edx = Run_Broken ecx \<Longrightarrow> unat cur < unat ecx \<and> ecx \<le> end_off"
proof (induction pmap end_off m cur edx rule: alloc_pages_inner.induct)
  case (1 pmap end_off m cur edx)
  show ?case
  proof (cases "end_off \<le> cur \<or> m (pmap + cur) \<noteq> 255 \<or> edx = 1")
    case True
    with "1.prems" show ?thesis
      by (subst (asm) alloc_pages_inner.simps)
        (auto simp: not_le unat_inc_less inc_le split: if_splits)
  next
    case False
    then have "alloc_pages_inner pmap end_off m (cur + 1) (edx - 1) = Run_Broken ecx"
      using "1.prems" by (subst (asm) alloc_pages_inner.simps) auto
    then show ?thesis using "1.IH" False by (simp add: not_le unat_inc_less)
  qed
qed

function alloc_pages_outer :: "u32 \<Rightarrow> u32 \<Rightarrow> u32 \<Rightarrow> u32 \<Rightarrow> pg_state \<Rightarrow> u32 \<times> pg_state" where
  "alloc_pages_outer pmap end_off need_bytes ecx s =
     (if ecx < end_off then
        let edi = ecx in
        case alloc_pages_inner pmap end_off (pg_map s) ecx need_bytes of
          Run_End \<Rightarrow> (0, s)
        | Run_Broken ecx \<Rightarrow> alloc_pages_outer pmap end_off need_bytes ecx s
        | Run_Found \<Rightarrow>
            let s = s\<lparr>pg_map := clear_loop pmap edi need_bytes 0 (pg_map s)\<rparr>;
                charge = push_bit 3 need_bytes
            in (push_bit 15 edi, s\<lparr>pages_free := pages_free s - charge\<rparr>)
      else (0, s))"
  by pat_completeness auto
termination
  by (relation "measure (\<lambda>(pmap, end_off, need_bytes, ecx, s). unat end_off - unat ecx)")
    (auto simp: word_less_nat_alt dest!: alloc_pages_inner_broken)

declare alloc_pages_outer.simps [simp del]

definition alloc_pages :: "u32 \<Rightarrow> u32 \<Rightarrow> pg_state \<Rightarrow> u32 \<times> pg_state" where
  "alloc_pages count pmap s =
     (let need_bytes = drop_bit 3 (count + 7);
          pf = pages_free s
      in if sint (pf - 9) < 0 then (0, s)
         else
           let avail = drop_bit 3 (pf - 9) in
           if sint need_bytes > sint avail then (0, s)
           else if need_bytes = 0 then (0, s)
           else alloc_pages_outer pmap (page_end s) need_bytes (page_start s) s)"

section \<open>The free pages\<close>

text \<open>
  The abstract state: the set of the free page numbers below the limit. \<open>pg_map_ok\<close> bounds the map
  to the 4 GB a 32-bit physical address reaches (2^20 pages, 2^17 bytes of map) and says that cursor
  and limit are dword offsets.
\<close>

definition page_is_free :: "u32 \<Rightarrow> pg_state \<Rightarrow> nat \<Rightarrow> bool" where
  "page_is_free pmap s n \<longleftrightarrow> bit_at pmap (pg_map s) (of_nat n)"

definition free_pages :: "u32 \<Rightarrow> pg_state \<Rightarrow> nat set" where
  "free_pages pmap s = {n. n < 8 * unat (page_end s) \<and> page_is_free pmap s n}"

definition pg_map_ok :: "pg_state \<Rightarrow> bool" where
  "pg_map_ok s \<longleftrightarrow> page_end s \<le> 0x20000 \<and> 4 dvd unat (page_end s) \<and> 4 dvd unat (page_start s)"

lemma free_pages_members:
  "pg_map_ok s \<Longrightarrow> free_pages pmap s = nbits.members pmap (pg_map s) \<inter> {..<8 * unat (page_end s)}"
  by (auto simp: free_pages_def nbits.members_def page_is_free_def pg_map_ok_def word_le_nat_alt)

lemma finite_free_pages [simp]: "finite (free_pages pmap s)"
  by (simp add: free_pages_def)

lemma page_index_split:
  assumes "k < 2 ^ 29" and "n < 32" and "k + 4 \<le> 2 ^ 29"
  shows "drop_bit 3 (of_nat (8 * k + n) :: u32) = of_nat (k + n div 8)"
    and "unat ((of_nat (8 * k + n) :: u32) AND 7) = n mod 8"
proof -
  have u: "unat (of_nat (8 * k + n) :: u32) = 8 * k + n"
    using assms by (intro unat_of_nat_u32) simp
  have "unat (drop_bit 3 (of_nat (8 * k + n) :: u32)) = k + n div 8"
    unfolding unat_drop_bit_eq u by (simp add: drop_bit_eq_div)
  then show "drop_bit 3 (of_nat (8 * k + n) :: u32) = of_nat (k + n div 8)"
    using assms by (simp only: word_unat_eq_iff) (simp add: unat_of_nat_u32 del: of_nat_add)
  show "unat ((of_nat (8 * k + n) :: u32) AND 7) = n mod 8"
    unfolding and_7_eq unsigned_take_bit_eq u by (simp add: take_bit_eq_mod)
qed

lemma bitmap_bts_free_delta_eq:
  "bitmap_bts_free_delta i pmap m = (if bit_at pmap m i then 0 else 1, put_bit pmap i True m)"
proof -
  have "drop_bit k b AND 1 = (if bit b k then 1 else 0)" for k and b :: u8
    by (rule bit_word_eqI) (auto simp: bit_simps intro: gr0I)
  then show ?thesis
    by (simp add: bitmap_bts_free_delta_def put_bit_def bit_at_def bit_mask_def Let_def unat_ucast_and_7)
qed

lemma trailing_zeros_props:
  fixes w :: "'a::len word"
  assumes "w \<noteq> 0"
  shows "trailing_zeros w < LENGTH('a)" and "bit w (trailing_zeros w)"
    and "j < trailing_zeros w \<Longrightarrow> \<not> bit w j"
proof -
  let ?P = "\<lambda>i. \<not> bit w i"
  obtain i where i: "bit w i" "i < LENGTH('a)"
    using assms by (metis bit_eq_iff bit_imp_le_length bit_0_eq bot_apply bot_bool_def)
  have less: "length (takeWhile ?P [0..<LENGTH('a)]) < length [0..<LENGTH('a)]"
  proof (rule ccontr)
    assume "\<not> ?thesis"
    then have "takeWhile ?P [0..<LENGTH('a)] = [0..<LENGTH('a)]"
      using length_takeWhile_le [of ?P "[0..<LENGTH('a)]"]
      by (metis le_antisym not_le takeWhile_eq_take take_all_iff)
    with i show False by (metis atLeastLessThan_iff le0 set_takeWhileD set_upt)
  qed
  then show "trailing_zeros w < LENGTH('a)" by (simp add: trailing_zeros_def)
  show "bit w (trailing_zeros w)"
    using nth_length_takeWhile [OF less] less by (simp add: trailing_zeros_def)
  assume j: "j < trailing_zeros w"
  then have "takeWhile ?P [0..<LENGTH('a)] ! j \<in> set (takeWhile ?P [0..<LENGTH('a)])"
    by (intro nth_mem) (simp add: trailing_zeros_def)
  then show "\<not> bit w j" using j less
    by (metis trailing_zeros_def takeWhile_nth set_takeWhileD nth_upt add_0 less_trans length_upt diff_zero)
qed

lemma bit_load_u32_map:
  assumes "k + 4 \<le> 2 ^ 29" and "n < 32"
  shows "bit (load_u32 m (pmap + of_nat k)) n \<longleftrightarrow> bit_at pmap m (of_nat (8 * k + n))"
proof -
  have k: "k < 2 ^ 29" using assms(1) by simp
  have c: "n div 8 = 0 \<or> n div 8 = 1 \<or> n div 8 = 2 \<or> n div 8 = 3" using assms(2) by auto
  have "n mod 8 = n - 8 * (n div 8)" by (simp add: minus_mult_div_eq_mod)
  then show ?thesis
    unfolding bit_at_def page_index_split [OF k assms(2,1)]
    using c by (auto simp: load_u32_def bit_le32 ac_simps)
qed

lemma put_bit_eq_store:
  assumes "k + 4 \<le> 2 ^ 29" and "n < 32"
  shows "store_u32 (pmap + of_nat k) (load_u32 m (pmap + of_nat k) AND NOT (push_bit n 1)) m =
    put_bit pmap (of_nat (8 * k + n)) False m"
proof -
  have k: "k < 2 ^ 29" using assms(1) by simp
  let ?a = "pmap + of_nat k"
  let ?w = "load_u32 m ?a AND NOT (push_bit n 1)"
  note ix = page_index_split [OF k assms(2,1)]
  define M where "M = bit_mask (of_nat (8 * k + n))"
  have mask: "bit M j \<longleftrightarrow> j = n mod 8" for j
    by (simp only: M_def bit_bit_mask ix(2))
  have load: "byte j (load_u32 m ?a) = m (?a + of_nat j)" if "j = 0 \<or> j = 1 \<or> j = 2 \<or> j = 3" for j
    using that by (auto simp: load_u32_def byte_simps)
  have b: "byte j ?w = m (?a + of_nat j) AND NOT (if n div 8 = j then M else 0)"
    if j: "j = 0 \<or> j = 1 \<or> j = 2 \<or> j = 3" for j
  proof (rule bit_word_eqI)
    fix i assume i: "i < LENGTH(8)"
    have "8 * j + i = n \<longleftrightarrow> j = n div 8 \<and> i = n mod 8" using i by auto
    moreover have "bit (load_u32 m ?a) (8 * j + i) \<longleftrightarrow> bit (m (?a + of_nat j)) i"
      using i bit_byte [of j "load_u32 m ?a" i] by (simp add: load [OF j])
    moreover have "8 * j + i < 32" using i j by auto
    ultimately show "bit (byte j ?w) i =
        bit (m (?a + of_nat j) AND NOT (if n div 8 = j then M else 0)) i"
      using i by (auto simp: bit_byte bit_and_iff bit_not_iff bit_exp_iff mask)
  qed
  define w where "w = ?w"
  have w: "byte 0 w = m ?a AND NOT (if n div 8 = 0 then M else 0)"
    "byte 1 w = m (?a + 1) AND NOT (if n div 8 = 1 then M else 0)"
    "byte 2 w = m (?a + 2) AND NOT (if n div 8 = 2 then M else 0)"
    "byte 3 w = m (?a + 3) AND NOT (if n div 8 = 3 then M else 0)"
    using b [of 0] b [of 1] b [of 2] b [of 3] unfolding w_def by simp_all
  define a where "a = ?a"
  have p: "pmap + of_nat (k + n div 8) = a + of_nat (n div 8)" by (simp add: a_def)
  have "n div 8 = 0 \<or> n div 8 = 1 \<or> n div 8 = 2 \<or> n div 8 = 3" using assms(2) by auto
  then show ?thesis
    unfolding store_u32_def put_bit_def Let_def ix(1) M_def [symmetric] w_def [symmetric] w p
    unfolding a_def [symmetric] by (elim disjE) (simp_all add: fun_eq_iff)
qed

section \<open>The scan of \<^verbatim>\<open>alloc_page\<close>\<close>

text \<open>What \<^verbatim>\<open>alloc_page\<close> does with the page it found.\<close>

definition take_page :: "u32 \<Rightarrow> nat \<Rightarrow> pg_state \<Rightarrow> u32 \<times> pg_state" where
  "take_page pmap n s =
     (if pages_free s = 1 then (0, s\<lparr>pages_free := 1\<rparr>)
      else (push_bit 12 (of_nat n),
            s\<lparr>pg_map := put_bit pmap (of_nat n) False (pg_map s), page_start := of_nat (4 * (n div 32)),
              pages_free := pages_free s - 1\<rparr>))"

definition lowest_free :: "u32 \<Rightarrow> pg_state \<Rightarrow> nat \<Rightarrow> nat \<Rightarrow> nat option" where
  "lowest_free pmap s lo hi = find (page_is_free pmap s) [lo..<hi]"

lemma lowest_free_None: "lowest_free pmap s lo hi = None \<longleftrightarrow> (\<forall>n. lo \<le> n \<and> n < hi \<longrightarrow> \<not> page_is_free pmap s n)"
  by (auto simp: lowest_free_def find_None_iff)

lemma lowest_free_Some:
  "lowest_free pmap s lo hi = Some p \<longleftrightarrow>
     lo \<le> p \<and> p < hi \<and> page_is_free pmap s p \<and> (\<forall>n. lo \<le> n \<and> n < p \<longrightarrow> \<not> page_is_free pmap s n)"
  unfolding lowest_free_def find_upt_Some ..

lemmas lowest_free_skip = find_upt_skip [where P = "page_is_free pmap s" for pmap s, folded lowest_free_def]

lemma word_pages:
  fixes s :: pg_state and pmap :: u32
  assumes "k < 2 ^ 17" and "4 dvd k"
  defines "w \<equiv> load_u32 (pg_map s) (pmap + of_nat k)"
  shows "n < 32 \<Longrightarrow> bit w n \<longleftrightarrow> page_is_free pmap s (8 * k + n)"
    and "w = 0 \<longleftrightarrow> (\<forall>n. 8 * k \<le> n \<and> n < 8 * (k + 4) \<longrightarrow> \<not> page_is_free pmap s n)"
proof -
  show b: "bit w n \<longleftrightarrow> page_is_free pmap s (8 * k + n)" if "n < 32" for n
    unfolding w_def page_is_free_def using assms(1) that by (intro bit_load_u32_map) auto
  have "w = 0 \<longleftrightarrow> (\<forall>n<32. \<not> bit w n)" by (auto simp: bit_eq_iff dest: bit_imp_le_length)
  also have "\<dots> \<longleftrightarrow> (\<forall>n<32. \<not> page_is_free pmap s (8 * k + n))" by (simp add: b)
  also have "\<dots> \<longleftrightarrow> (\<forall>n. 8 * k \<le> n \<and> n < 8 * (k + 4) \<longrightarrow> \<not> page_is_free pmap s n)"
    by (auto simp: le_iff_add)
  finally show "w = 0 \<longleftrightarrow> (\<forall>n. 8 * k \<le> n \<and> n < 8 * (k + 4) \<longrightarrow> \<not> page_is_free pmap s n)" .
qed

lemma alloc_page_loop_hit:
  assumes k: "k < 2 ^ 17" "4 dvd k" "k < e" "e \<le> 2 ^ 17" "4 dvd e"
    and w: "load_u32 (pg_map s) (pmap + of_nat k) \<noteq> 0"
  shows "\<exists>p. lowest_free pmap s (8 * k) (8 * e) = Some p \<and>
    alloc_page_loop pmap (of_nat e) (of_nat k) s = Some (take_page pmap p s)"
proof -
  let ?w = "load_u32 (pg_map s) (pmap + of_nat k)"
  define t where "t = trailing_zeros ?w"
  have t: "t < 32" "bit ?w t" "\<And>j. j < t \<Longrightarrow> \<not> bit ?w j"
    using trailing_zeros_props [OF w] by (simp_all add: t_def)
  have "k + 4 \<le> e" using k by (auto elim!: dvdE)
  then have low: "lowest_free pmap s (8 * k) (8 * e) = Some (8 * k + t)"
    using t word_pages [OF k(1,2), where s = s and pmap = pmap]
    by (auto simp: lowest_free_Some le_iff_add)
  have div: "(8 * k + t) div 32 * 4 = k" using k(2) t(1) by (auto elim!: dvdE)
  have lt: "(of_nat k :: u32) < of_nat e"
    using k by (simp add: word_less_nat_alt unat_of_nat_u32)
  have ix: "of_nat t + of_nat k * 8 = (of_nat (t + k * 8) :: u32)" by simp
  have "alloc_page_loop pmap (of_nat e) (of_nat k) s = Some (take_page pmap (8 * k + t) s)"
    using w lt put_bit_eq_store [of k t pmap "pg_map s"] k(1) t(1) div
    by (subst alloc_page_loop.simps)
      (simp add: Let_def take_page_def t_def [symmetric] ix mult.commute add.commute
        del: of_nat_add of_nat_mult)
  with low show ?thesis by blast
qed

lemma alloc_page_loop_spec:
  assumes "e \<le> 2 ^ 17" and "4 dvd e" and "4 dvd k" and "k < 2 ^ 32"
  shows "alloc_page_loop pmap (of_nat e) (of_nat k) s =
    Some (case lowest_free pmap s (8 * k) (8 * e) of None \<Rightarrow> (0, s) | Some p \<Rightarrow> take_page pmap p s)"
  using assms(3,4)
proof (induction "e - k" arbitrary: k rule: less_induct)
  case less
  show ?case
  proof (cases "k < e")
    case True
    then have k: "k < 2 ^ 17" using assms(1) by simp
    show ?thesis
    proof (cases "load_u32 (pg_map s) (pmap + of_nat k) = 0")
      case False
      then show ?thesis
        using alloc_page_loop_hit [OF k less.prems(1) True assms(1,2)] by fastforce
    next
      case zero: True
      have lt: "(of_nat k :: u32) < of_nat e"
        using k True assms(1) by (simp add: word_less_nat_alt unat_of_nat_u32)
      have "alloc_page_loop pmap (of_nat e) (of_nat k) s = alloc_page_loop pmap (of_nat e) (of_nat (k + 4)) s"
        using zero lt by (subst alloc_page_loop.simps) simp
      moreover have "lowest_free pmap s (8 * k) (8 * e) = lowest_free pmap s (8 * (k + 4)) (8 * e)"
        using zero unfolding word_pages(2) [OF k less.prems(1)]
        by (intro lowest_free_skip) auto
      ultimately show ?thesis
        using less.hyps [of "k + 4"] True k less.prems(1) by simp
    qed
  next
    case False
    then have "\<not> (of_nat k :: u32) < of_nat e"
      using less.prems(2) assms(1) by (simp add: word_less_nat_alt unat_of_nat_u32)
    moreover have "lowest_free pmap s (8 * k) (8 * e) = None"
      using False by (auto simp: lowest_free_None)
    ultimately show ?thesis by (subst alloc_page_loop.simps) simp
  qed
qed

text \<open>On a well-formed map \<^verbatim>\<open>alloc_page\<close> ends, and takes the lowest free page from the cursor on.\<close>

lemma alloc_page_eq:
  assumes "pg_map_ok s"
  shows "alloc_page pmap s =
    (if sint (pages_free s) \<le> 1 then Some (0, s\<lparr>pages_free := 1\<rparr>)
     else Some (case lowest_free pmap s (8 * unat (page_start s)) (8 * unat (page_end s)) of
        None \<Rightarrow> (0, s) | Some p \<Rightarrow> take_page pmap p s))"
  using assms alloc_page_loop_spec [of "unat (page_end s)" "unat (page_start s)" pmap s]
  by (simp add: alloc_page_def pg_map_ok_def word_le_nat_alt)

section \<open>Invariant\<close>

text \<open>
  \<open>pages_free\<close> is the number of the free pages and never reaches zero; \<open>pg_cursor_ok\<close>: no free page
  lies below the search cursor.
\<close>

definition pg_inv :: "u32 \<Rightarrow> pg_state \<Rightarrow> bool" where
  "pg_inv pmap s \<longleftrightarrow> pg_map_ok s \<and> 1 \<le> unat (pages_free s) \<and> unat (pages_free s) = card (free_pages pmap s)"

definition pg_cursor_ok :: "u32 \<Rightarrow> pg_state \<Rightarrow> bool" where
  "pg_cursor_ok pmap s \<longleftrightarrow> (\<forall>n < 8 * unat (page_start s). n < 8 * unat (page_end s) \<longrightarrow> \<not> page_is_free pmap s n)"

lemma card_free_pages_le: "card (free_pages pmap s) \<le> 8 * unat (page_end s)"
  using card_mono [of "{..<8 * unat (page_end s)}" "free_pages pmap s"] by (auto simp: free_pages_def)

lemma pg_inv_pages_free: "pg_inv pmap s \<Longrightarrow> unat (pages_free s) \<le> 2 ^ 20"
  using card_free_pages_le [of pmap s] by (auto simp: pg_inv_def pg_map_ok_def word_le_nat_alt)

section \<open>The scan of \<^verbatim>\<open>alloc_pages\<close>\<close>

text \<open>\<open>free_run\<close>: the \<open>d\<close> bytes of the map from byte \<open>j\<close> on are below the limit and all 0xFF.\<close>

definition free_run :: "u32 \<Rightarrow> mem \<Rightarrow> nat \<Rightarrow> nat \<Rightarrow> nat \<Rightarrow> bool" where
  "free_run pmap m e d j \<longleftrightarrow> j + d \<le> e \<and> (\<forall>i \<in> {j..<j + d}. m (pmap + of_nat i) = 0xFF)"

definition lowest_run :: "u32 \<Rightarrow> mem \<Rightarrow> nat \<Rightarrow> nat \<Rightarrow> nat \<Rightarrow> nat option" where
  "lowest_run pmap m e d lo = find (free_run pmap m e d) [lo..<e]"

definition inner_ok :: "u32 \<Rightarrow> mem \<Rightarrow> nat \<Rightarrow> nat \<Rightarrow> nat \<Rightarrow> run_exit \<Rightarrow> bool" where
  "inner_ok pmap m e d k r \<longleftrightarrow>
     r = Run_Found \<and> free_run pmap m e d k
     \<or> (\<exists>i. r = Run_Broken (of_nat (i + 1)) \<and> k \<le> i \<and> i < e \<and> i < k + d \<and> m (pmap + of_nat i) \<noteq> 0xFF)
     \<or> r = Run_End \<and> e < k + d"

lemma alloc_pages_inner_ok:
  assumes "0 < d" and "d < 2 ^ 32" and "e < 2 ^ 31" and "k < 2 ^ 32"
  shows "inner_ok pmap m e d k (alloc_pages_inner pmap (of_nat e) m (of_nat k) (of_nat d))"
  using assms(1,2,4)
proof (induction "e - k" arbitrary: k d rule: less_induct)
  case less
  have le: "(of_nat e :: u32) \<le> of_nat k \<longleftrightarrow> e \<le> k"
    using less.prems(3) assms(3) by (simp add: word_le_nat_alt unat_of_nat_u32)
  have one: "(of_nat d :: u32) = 1 \<longleftrightarrow> d = 1"
    using of_nat_u32_eq_iff [of d 1] less.prems(2) by simp
  show ?case
  proof (cases "e \<le> k \<or> m (pmap + of_nat k) \<noteq> 255 \<or> d = 1")
    case True
    then have "alloc_pages_inner pmap (of_nat e) m (of_nat k) (of_nat d) =
        (if e \<le> k then Run_End else if m (pmap + of_nat k) \<noteq> 255 then Run_Broken (of_nat (k + 1)) else Run_Found)"
      using le one by (subst alloc_pages_inner.simps) (auto simp: add.commute)
    then show ?thesis using True less.prems(1)
      by (auto simp: inner_ok_def free_run_def not_le intro!: exI [of _ k] simp del: of_nat_Suc)
  next
    case False
    let ?r = "alloc_pages_inner pmap (of_nat e) m (of_nat (k + 1)) (of_nat (d - 1))"
    have eq: "alloc_pages_inner pmap (of_nat e) m (of_nat k) (of_nat d) = ?r"
      using False le one less.prems(1)
      by (subst alloc_pages_inner.simps) (auto simp: of_nat_diff add.commute)
    have "{k..<k + d} = insert k {k + 1..<k + 1 + (d - 1)}" using less.prems(1) by auto
    then have "free_run pmap m e (d - 1) (k + 1) \<Longrightarrow> free_run pmap m e d k"
      using False less.prems(1) by (simp add: free_run_def)
    moreover have "inner_ok pmap m e (d - 1) (k + 1) ?r"
      using False less.prems assms(3) by (intro less.hyps) auto
    ultimately show ?thesis
      unfolding eq inner_ok_def using less.prems(1) by (auto simp del: of_nat_Suc of_nat_add)
  qed
qed

lemma lowest_run_Some:
  "lowest_run pmap m e d lo = Some j \<longleftrightarrow>
     lo \<le> j \<and> j < e \<and> free_run pmap m e d j \<and> (\<forall>i. lo \<le> i \<and> i < j \<longrightarrow> \<not> free_run pmap m e d i)"
  unfolding lowest_run_def find_upt_Some ..

lemma lowest_run_None:
  "lowest_run pmap m e d lo = None \<longleftrightarrow> (\<forall>i. lo \<le> i \<and> i < e \<longrightarrow> \<not> free_run pmap m e d i)"
  by (auto simp: lowest_run_def find_None_iff)

lemma alloc_pages_outer_eq:
  assumes "0 < d" and "d < 2 ^ 32" and "e < 2 ^ 31" and "k < 2 ^ 32"
  shows "alloc_pages_outer pmap (of_nat e) (of_nat d) (of_nat k) s =
    (case lowest_run pmap (pg_map s) e d k of
       None \<Rightarrow> (0, s)
     | Some j \<Rightarrow> (push_bit 15 (of_nat j),
         s\<lparr>pg_map := clear_loop pmap (of_nat j) (of_nat d) 0 (pg_map s),
           pages_free := pages_free s - push_bit 3 (of_nat d)\<rparr>))"
  using assms(4)
proof (induction "e - k" arbitrary: k rule: less_induct)
  case less
  let ?m = "pg_map s"
  have lt: "(of_nat k :: u32) < of_nat e \<longleftrightarrow> k < e"
    using less.prems assms(3) by (simp add: word_less_nat_alt unat_of_nat_u32)
  show ?case
  proof (cases "k < e")
    case False
    then have "lowest_run pmap ?m e d k = None" by (auto simp: lowest_run_None)
    with False lt show ?thesis by (subst alloc_pages_outer.simps) simp
  next
    case True
    let ?r = "alloc_pages_inner pmap (of_nat e) ?m (of_nat k) (of_nat d)"
    have "inner_ok pmap ?m e d k ?r" using assms(1,2,3) less.prems by (rule alloc_pages_inner_ok)
    then consider "?r = Run_Found" "free_run pmap ?m e d k"
      | i where "?r = Run_Broken (of_nat (i + 1))" "k \<le> i" "i < e" "i < k + d" "?m (pmap + of_nat i) \<noteq> 0xFF"
      | "?r = Run_End" "e < k + d"
      unfolding inner_ok_def by blast
    then show ?thesis
    proof cases
      case 1
      then have "lowest_run pmap ?m e d k = Some k" using True by (auto simp: lowest_run_Some)
      with 1 True lt show ?thesis by (subst alloc_pages_outer.simps) (simp add: Let_def)
    next
      case (2 i)
      have "\<not> free_run pmap ?m e d j" if "k \<le> j" "j \<le> i" for j
        using 2 that by (auto simp: free_run_def)
      then have "lowest_run pmap ?m e d k = lowest_run pmap ?m e d (i + 1)"
        unfolding lowest_run_def using 2 by (intro find_upt_skip) auto
      moreover have "alloc_pages_outer pmap (of_nat e) (of_nat d) (of_nat k) s =
          alloc_pages_outer pmap (of_nat e) (of_nat d) (of_nat (i + 1)) s"
        using 2 True lt by (subst alloc_pages_outer.simps) (simp add: Let_def del: of_nat_add of_nat_Suc)
      ultimately show ?thesis using less.hyps [of "i + 1"] 2 assms(3) by simp
    next
      case 3
      then have "lowest_run pmap ?m e d k = None" by (auto simp: lowest_run_None free_run_def)
      with 3 True lt show ?thesis by (subst alloc_pages_outer.simps) (simp add: Let_def)
    qed
  qed
qed

lemma clear_loop_at:
  assumes "d < 2 ^ 31" and "j + d < 2 ^ 32" and "q < 2 ^ 32" and "i < 2 ^ 32"
  shows "clear_loop pmap (of_nat j) (of_nat d) (of_nat i) m (pmap + of_nat q) =
    (if j + i \<le> q \<and> q < j + d then 0 else m (pmap + of_nat q))"
  using assms(4)
proof (induction "d - i" arbitrary: i m rule: less_induct)
  case less
  have lt: "(of_nat i :: u32) < of_nat d \<longleftrightarrow> i < d"
    using less.prems assms(1) by (simp add: word_less_nat_alt unat_of_nat_u32)
  show ?case
  proof (cases "i < d")
    case False
    then show ?thesis using lt by (subst clear_loop.simps) auto
  next
    case True
    have "(of_nat q :: u32) = of_nat (j + i) \<longleftrightarrow> q = j + i"
      using True assms by (intro of_nat_u32_eq_iff) auto
    then have "(m(pmap + (of_nat j + of_nat i) := 0)) (pmap + of_nat q) =
        (if q = j + i then 0 else m (pmap + of_nat q))" by auto
    then show ?thesis
      using less.hyps [of "i + 1" "m(pmap + (of_nat j + of_nat i) := 0)"] True lt assms(1)
      by (subst clear_loop.simps) (auto simp: add.commute)
  qed
qed

lemma bit_at_clear_loop:
  assumes "d < 2 ^ 31" and "j + d < 2 ^ 32" and "n < 2 ^ 32"
  shows "bit_at pmap (clear_loop pmap (of_nat j) (of_nat d) 0 m) (of_nat n) \<longleftrightarrow>
    \<not> (8 * j \<le> n \<and> n < 8 * (j + d)) \<and> bit_at pmap m (of_nat n)"
proof -
  have "n div 8 < 2 ^ 32" using assms(3) by simp
  from clear_loop_at [OF assms(1,2) this, of 0 pmap m]
  have "clear_loop pmap (of_nat j) (of_nat d) 0 m (pmap + of_nat (n div 8)) =
    (if 8 * j \<le> n \<and> n < 8 * (j + d) then 0 else m (pmap + of_nat (n div 8)))"
    by (auto simp: div_less_iff_less_mult less_eq_div_iff_mult_less_eq mult.commute)
  then show ?thesis
    using assms(3) by (simp add: bit_at_def drop_bit_of_nat_u32)
qed

section \<open>The operations on the set of free pages\<close>

lemma page_is_free_update [simp]:
  "page_is_free pmap (s\<lparr>pages_free := x\<rparr>) n = page_is_free pmap s n"
  "page_is_free pmap (s\<lparr>page_start := x\<rparr>) n = page_is_free pmap s n"
  by (simp_all add: page_is_free_def)

lemma free_pages_update [simp]:
  "free_pages pmap (s\<lparr>pages_free := x\<rparr>) = free_pages pmap s"
  "free_pages pmap (s\<lparr>page_start := x\<rparr>) = free_pages pmap s"
  by (simp_all add: free_pages_def)

lemma pg_map_ok_update [simp]:
  "pg_map_ok (s\<lparr>pages_free := x\<rparr>) = pg_map_ok s"
  "pg_map_ok (s\<lparr>pg_map := m\<rparr>) = pg_map_ok s"
  by (simp_all add: pg_map_ok_def)

lemma page_bound: "pg_map_ok s \<Longrightarrow> n < 8 * unat (page_end s) \<Longrightarrow> n < 2 ^ 20"
  by (simp add: pg_map_ok_def word_le_nat_alt)

lemma page_is_free_put:
  "n < 2 ^ 20 \<Longrightarrow> k < 2 ^ 20 \<Longrightarrow>
    page_is_free pmap (s\<lparr>pg_map := put_bit pmap (of_nat n) b (pg_map s)\<rparr>) k \<longleftrightarrow>
      (if k = n then b else page_is_free pmap s k)"
  by (simp add: page_is_free_def nbits.get_put)

lemma free_pages_put:
  assumes "pg_map_ok s" and "n < 8 * unat (page_end s)"
  shows "free_pages pmap (s\<lparr>pg_map := put_bit pmap (of_nat n) b (pg_map s)\<rparr>) =
    (if b then insert n (free_pages pmap s) else free_pages pmap s - {n})"
  using assms page_bound [OF assms] page_bound [OF assms(1)]
  by (auto simp: free_pages_def page_is_free_put split: if_splits)

lemma card_free_pages_put:
  assumes "pg_map_ok s" and "n < 8 * unat (page_end s)"
  shows "card (free_pages pmap (s\<lparr>pg_map := put_bit pmap (of_nat n) True (pg_map s)\<rparr>)) =
      card (free_pages pmap s) + (if page_is_free pmap s n then 0 else 1)"
    and "page_is_free pmap s n \<Longrightarrow>
      Suc (card (free_pages pmap (s\<lparr>pg_map := put_bit pmap (of_nat n) False (pg_map s)\<rparr>))) =
      card (free_pages pmap s)"
  using assms page_bound [OF assms]
    nbits.card_put_True [of "{..<8 * unat (page_end s)}" n pmap "pg_map s"]
    nbits.card_put_False [of "{..<8 * unat (page_end s)}" n pmap "pg_map s"]
  by (simp_all add: free_pages_members page_is_free_def)

text \<open>\<^verbatim>\<open>alloc_page\<close>.\<close>

lemma alloc_page_cases:
  assumes inv: "pg_inv pmap s" and res: "alloc_page pmap s = Some (r, s')"
  obtains (none) "r = 0" "s' = s"
  | (page) p where "2 \<le> unat (pages_free s)" "8 * unat (page_start s) \<le> p" "p \<in> free_pages pmap s"
      "\<forall>n. 8 * unat (page_start s) \<le> n \<and> n < p \<longrightarrow> n \<notin> free_pages pmap s"
      "r = push_bit 12 (of_nat p)"
      "s' = s\<lparr>pg_map := put_bit pmap (of_nat p) False (pg_map s),
             page_start := of_nat (4 * (p div 32)), pages_free := pages_free s - 1\<rparr>"
proof -
  have ok: "pg_map_ok s" and pos: "1 \<le> unat (pages_free s)" using inv by (simp_all add: pg_inv_def)
  have sint: "sint (pages_free s) = int (unat (pages_free s))"
    using pg_inv_pages_free [OF inv] by (intro sint_u32_small) simp
  note eq = alloc_page_eq [OF ok, of pmap] 
  show ?thesis
  proof (cases "unat (pages_free s) = 1")
    case True
    then have "pages_free s = 1" by (simp add: word_unat_eq_iff)
    moreover from this have "s\<lparr>pages_free := 1\<rparr> = s" by (cases s) simp
    ultimately show ?thesis using res none by (auto simp: eq)
  next
    case False
    then have two: "2 \<le> unat (pages_free s)" using pos by simp
    then have "\<not> int (unat (pages_free s)) \<le> 1" by linarith
    then have ne: "\<not> sint (pages_free s) \<le> 1" by (simp only: sint not_False_eq_True)
    have ne1: "pages_free s \<noteq> 1" using False by auto
    show ?thesis
    proof (cases "lowest_free pmap s (8 * unat (page_start s)) (8 * unat (page_end s))")
      case None
      then show ?thesis using res none ne by (simp add: eq)
    next
      case (Some p)
      then show ?thesis
        using res ne ne1 two page [of p] unfolding lowest_free_Some
        by (auto simp: eq Some take_page_def free_pages_def)
    qed
  qed
qed

lemma alloc_page_inv:
  assumes inv: "pg_inv pmap s" and res: "alloc_page pmap s = Some (r, s')"
  shows "pg_inv pmap s'"
  using assms
proof (cases rule: alloc_page_cases)
  case none
  with inv show ?thesis by simp
next
  case (page p)
  have ok: "pg_map_ok s" using inv by (simp add: pg_inv_def)
  have p: "p < 8 * unat (page_end s)" "page_is_free pmap s p"
    using page(3) by (simp_all add: free_pages_def)
  have "4 * (p div 32) < 2 ^ 32" using page_bound [OF ok p(1)] by simp
  then have "4 dvd unat (of_nat (4 * (p div 32)) :: u32)" by (simp only: unat_of_nat_u32) simp
  then have "pg_map_ok s'" using ok by (simp add: page(6) pg_map_ok_def)
  moreover have "unat (pages_free s - 1) = unat (pages_free s) - 1"
    using page(1) by (intro unat_dec) auto
  ultimately show ?thesis
    using inv card_free_pages_put(2) [OF ok p, symmetric] page(1)
    by (simp add: pg_inv_def page(6)) 
qed

lemma alloc_page_cursor:
  assumes inv: "pg_inv pmap s" and res: "alloc_page pmap s = Some (r, s')" and cur: "pg_cursor_ok pmap s"
  shows "pg_cursor_ok pmap s'"
  using inv res
proof (cases rule: alloc_page_cases)
  case none
  with cur show ?thesis by simp
next
  case (page p)
  have ok: "pg_map_ok s" using inv by (simp add: pg_inv_def)
  have p: "p < 8 * unat (page_end s)" using page(3) by (simp add: free_pages_def)
  have b: "p < 2 ^ 20" by (rule page_bound [OF ok p])
  then have start: "unat (page_start s') = 4 * (p div 32)"
    unfolding page(6) by (simp del: of_nat_mult add: unat_of_nat_u32)
  have "\<not> page_is_free pmap s' n" if "n < 8 * unat (page_start s')" "n < 8 * unat (page_end s')" for n
  proof -
    have n: "n < p" "n < 2 ^ 20" using that(1) b unfolding start by auto
    then have "\<not> page_is_free pmap s n"
      using cur page(4) p
      by (cases "8 * unat (page_start s) \<le> n") (auto simp: pg_cursor_ok_def free_pages_def)
    with n b show ?thesis by (simp add: page(6) page_is_free_put)
  qed
  then show ?thesis by (simp add: pg_cursor_ok_def)
qed

text \<open>\<^verbatim>\<open>free_page\<close> and \<^verbatim>\<open>release_bitmap_page_mode_b\<close>.\<close>

lemma free_page_eq:
  assumes ok: "pg_map_ok s" and n: "drop_bit 12 phys = of_nat n" "n < 8 * unat (page_end s)"
  shows "free_page phys pmap s =
    s\<lparr>pg_map := put_bit pmap (of_nat n) True (pg_map s),
      page_start := (if 4 * (n div 32) < unat (page_start s) then of_nat (4 * (n div 32)) else page_start s),
      pages_free := (if page_is_free pmap s n then pages_free s else pages_free s + 1)\<rparr>"
proof -
  have b: "n < 2 ^ 32" using page_bound [OF ok n(2)] by simp
  define off where "off = (drop_bit 3 (of_nat n) :: u32) AND NOT 3"
  have "off = push_bit 2 (of_nat (n div 32))"
    unfolding off_def and_not_3 using b
    by (simp add: drop_bit_of_nat_u32 le_less_trans [OF div_le_dividend] flip: div_mult2_eq)
  also have "\<dots> = of_nat (4 * (n div 32))" by (simp add: push_bit_eq_mult)
  finally have off: "of_nat (4 * (n div 32)) = off" by simp
  then have u: "unat off = 4 * (n div 32)" using b unat_of_nat_u32 [of "4 * (n div 32)"] by simp
  show ?thesis
    unfolding free_page_def Let_def n(1) off_def [symmetric] off
    by (auto simp: bitmap_bts_free_delta_eq page_is_free_def word_less_nat_alt u split: if_splits)
qed

lemma release_mode_b_eq:
  "release_bitmap_page_mode_b (of_nat n) pmap s =
    (if page_is_free pmap s n then 0 else 1,
     s\<lparr>pg_map := put_bit pmap (of_nat n) True (pg_map s),
       pages_free := (if page_is_free pmap s n then pages_free s else pages_free s + 1)\<rparr>)"
  by (simp add: release_bitmap_page_mode_b_def bitmap_bts_free_delta_eq page_is_free_def Let_def)

lemma free_put_inv:
  assumes inv: "pg_inv pmap s" and n: "n < 8 * unat (page_end s)"
  shows "pg_inv pmap (s\<lparr>pg_map := put_bit pmap (of_nat n) True (pg_map s),
      pages_free := (if page_is_free pmap s n then pages_free s else pages_free s + 1)\<rparr>)"
proof -
  have "unat (pages_free s + 1) = Suc (unat (pages_free s))"
    using pg_inv_pages_free [OF inv] unat_add_lem [of "pages_free s" 1] by simp
  then show ?thesis
    using inv n card_free_pages_put(1) [of s n pmap] by (auto simp: pg_inv_def)
qed

lemma free_page_inv:
  assumes inv: "pg_inv pmap s" and n: "drop_bit 12 phys = of_nat n" "n < 8 * unat (page_end s)"
  shows "pg_inv pmap (free_page phys pmap s)"
proof -
  have ok: "pg_map_ok s" using inv by (simp add: pg_inv_def)
  have "4 * (n div 32) < 2 ^ 32" using page_bound [OF ok n(2)] by simp
  then have "4 dvd unat (of_nat (4 * (n div 32)) :: u32)" by (simp only: unat_of_nat_u32) simp
  then show ?thesis
    unfolding free_page_eq [OF ok n] using free_put_inv [OF inv n(2)]
    by (simp add: pg_inv_def pg_map_ok_def free_pages_def page_is_free_def)
qed

lemma free_page_cursor:
  assumes inv: "pg_inv pmap s" and n: "drop_bit 12 phys = of_nat n" "n < 8 * unat (page_end s)"
    and cur: "pg_cursor_ok pmap s"
  shows "pg_cursor_ok pmap (free_page phys pmap s)"
proof -
  have ok: "pg_map_ok s" using inv by (simp add: pg_inv_def)
  have b: "n < 2 ^ 20" by (rule page_bound [OF ok n(2)])
  then have u: "unat (of_nat (4 * (n div 32)) :: u32) = 4 * (n div 32)"
    by (intro unat_of_nat_u32) simp
  have lt: "k < 2 ^ 20" if "k < 8 * unat (page_end s)" for k by (rule page_bound [OF ok that])
  show ?thesis
    unfolding free_page_eq [OF ok n] pg_cursor_ok_def
    using cur u b lt by (auto simp: pg_cursor_ok_def page_is_free_put simp del: of_nat_mult)
qed

text \<open>\<^verbatim>\<open>alloc_pages\<close>.\<close>

lemma alloc_pages_eq:
  fixes count :: u32
  assumes inv: "pg_inv pmap s"
  defines "d \<equiv> unat (drop_bit 3 (count + 7))"
  shows "alloc_pages count pmap s =
    (if d = 0 \<or> unat (pages_free s) < 8 * d + 9 then (0, s)
     else case lowest_run pmap (pg_map s) (unat (page_end s)) d (unat (page_start s)) of
       None \<Rightarrow> (0, s)
     | Some j \<Rightarrow> (push_bit 15 (of_nat j),
         s\<lparr>pg_map := clear_loop pmap (of_nat j) (of_nat d) 0 (pg_map s),
           pages_free := pages_free s - of_nat (8 * d)\<rparr>))"
proof -
  let ?pf = "unat (pages_free s)"
  have pf: "?pf \<le> 2 ^ 20" using inv by (rule pg_inv_pages_free)
  have e: "unat (page_end s) < 2 ^ 31" using inv by (simp add: pg_inv_def pg_map_ok_def word_le_nat_alt)
  have d: "d < 2 ^ 29" using unat_u32 [of "count + 7"] unfolding d_def unat_drop_bit_eq
    by (simp add: drop_bit_eq_div less_mult_imp_div_less del: unat_u32)
  have dn: "drop_bit 3 (count + 7) = of_nat d" by (simp add: d_def)
  have charge: "push_bit 3 (of_nat d :: u32) = of_nat (8 * d)" by (simp add: push_bit_eq_mult)
  show ?thesis
  proof (cases "?pf < 9")
    case True
    then have "2 ^ 31 \<le> unat (pages_free s - 9)"
      by (simp add: unat_sub_if_size word_size word_le_nat_alt)
    then show ?thesis using True
      by (simp add: alloc_pages_def sint_neg_iff)
  next
    case False
    then have u: "unat (pages_free s - 9) = ?pf - 9"
      by (subst unat_sub) (simp_all add: word_le_nat_alt)
    have av: "unat (drop_bit 3 (pages_free s - 9)) = (?pf - 9) div 8"
      unfolding unat_drop_bit_eq u by (simp add: drop_bit_eq_div)
    have "sint (drop_bit 3 (count + 7)) = int d" "sint (drop_bit 3 (pages_free s - 9)) = int ((?pf - 9) div 8)"
      unfolding av [symmetric] d_def using d pf av by (intro sint_u32_small; simp add: d_def)+
    then have "sint (drop_bit 3 (count + 7)) > sint (drop_bit 3 (pages_free s - 9)) \<longleftrightarrow> (?pf - 9) div 8 < d"
      by (simp only: of_nat_less_iff)
    also have "\<dots> \<longleftrightarrow> ?pf < 8 * d + 9" using False by auto
    finally have "sint (drop_bit 3 (count + 7)) > sint (drop_bit 3 (pages_free s - 9)) \<longleftrightarrow> ?pf < 8 * d + 9" .
    moreover have "\<not> sint (pages_free s - 9) < 0" using u pf by (simp add: sint_neg_iff)
    ultimately show ?thesis
      using alloc_pages_outer_eq [of d "unat (page_end s)" "unat (page_start s)" pmap s, unfolded charge] d e False
        of_nat_u32_eq_iff [of d 0]
      by (simp add: alloc_pages_def Let_def dn del: of_nat_mult)
  qed
qed

lemma byte_all_free:
  assumes "k < 2 ^ 17"
  shows "pg_map s (pmap + of_nat k) = 0xFF \<longleftrightarrow> (\<forall>n. 8 * k \<le> n \<and> n < 8 * (k + 1) \<longrightarrow> page_is_free pmap s n)"
proof -
  have ff: "bit (0xFF :: u8) n \<longleftrightarrow> n < 8" for n
    using bit_mask_iff [where 'a = u8 and m = 8 and n = n]
    by (auto simp: mask_eq_exp_minus_1 dest: bit_imp_le_length)
  have "pg_map s (pmap + of_nat k) = 0xFF \<longleftrightarrow> (\<forall>n<8. bit (pg_map s (pmap + of_nat k)) n)"
    unfolding bit_eq_iff [where a = "pg_map s (pmap + of_nat k)"] ff
    by (auto dest: bit_imp_le_length)
  also have "\<dots> \<longleftrightarrow> (\<forall>n<8. page_is_free pmap s (8 * k + n))"
    using assms page_index_split [of k] by (simp add: page_is_free_def bit_at_def)
  also have "\<dots> \<longleftrightarrow> (\<forall>n. 8 * k \<le> n \<and> n < 8 * (k + 1) \<longrightarrow> page_is_free pmap s n)"
    by (auto simp: le_iff_add)
  finally show ?thesis .
qed

lemma free_run_pages:
  assumes "pg_map_ok s"
  shows "free_run pmap (pg_map s) (unat (page_end s)) d j \<longleftrightarrow>
    j + d \<le> unat (page_end s) \<and> {8 * j..<8 * (j + d)} \<subseteq> free_pages pmap s"
proof (cases "j + d \<le> unat (page_end s)")
  case True
  have e: "unat (page_end s) \<le> 2 ^ 17" using assms by (simp add: pg_map_ok_def word_le_nat_alt)
  have "(\<forall>i \<in> {j..<j + d}. pg_map s (pmap + of_nat i) = 0xFF) \<longleftrightarrow>
      (\<forall>i \<in> {j..<j + d}. \<forall>n. 8 * i \<le> n \<and> n < 8 * (i + 1) \<longrightarrow> page_is_free pmap s n)"
    using True e by (intro ball_cong) (auto simp: byte_all_free)
  also have "\<dots> \<longleftrightarrow> (\<forall>n. 8 * j \<le> n \<and> n < 8 * (j + d) \<longrightarrow> page_is_free pmap s n)"
  proof (intro iffI allI impI ballI)
    fix n assume "\<forall>i \<in> {j..<j + d}. \<forall>n. 8 * i \<le> n \<and> n < 8 * (i + 1) \<longrightarrow> page_is_free pmap s n"
      and "8 * j \<le> n \<and> n < 8 * (j + d)"
    then show "page_is_free pmap s n" by (auto dest!: bspec [of _ _ "n div 8"])
  qed auto
  finally show ?thesis using True by (auto simp: free_run_def free_pages_def)
next
  case False
  then show ?thesis by (simp add: free_run_def)
qed

lemma alloc_pages_cases:
  assumes inv: "pg_inv pmap s" and res: "alloc_pages count pmap s = (r, s')"
  obtains (none) "r = 0" "s' = s"
  | (run) j d where "d = unat (drop_bit 3 (count + 7))" "0 < d" "8 * d + 9 \<le> unat (pages_free s)"
      "lowest_run pmap (pg_map s) (unat (page_end s)) d (unat (page_start s)) = Some j"
      "r = push_bit 15 (of_nat j)"
      "s' = s\<lparr>pg_map := clear_loop pmap (of_nat j) (of_nat d) 0 (pg_map s),
             pages_free := pages_free s - of_nat (8 * d)\<rparr>"
proof -
  define d where "d = unat (drop_bit 3 (count + 7))"
  note eq = alloc_pages_eq [OF inv, of count, folded d_def]
  show ?thesis
  proof (cases "d = 0 \<or> unat (pages_free s) < 8 * d + 9")
    case True
    then show ?thesis using none res eq by simp
  next
    case False
    show ?thesis
    proof (cases "lowest_run pmap (pg_map s) (unat (page_end s)) d (unat (page_start s))")
      case None
      then show ?thesis using none res eq False by simp
    next
      case (Some j)
      show ?thesis
        using False res eq Some by (intro run [of d j]) (simp_all add: d_def del: of_nat_mult)
    qed
  qed
qed

lemma alloc_pages_run:
  assumes inv: "pg_inv pmap s" and d: "0 < d" "8 * d + 9 \<le> unat (pages_free s)"
    and j: "lowest_run pmap (pg_map s) (unat (page_end s)) d (unat (page_start s)) = Some j"
  defines "s' \<equiv> s\<lparr>pg_map := clear_loop pmap (of_nat j) (of_nat d) 0 (pg_map s),
             pages_free := pages_free s - of_nat (8 * d)\<rparr>"
  shows "{8 * j..<8 * (j + d)} \<subseteq> free_pages pmap s"
    and "n < 2 ^ 20 \<Longrightarrow> page_is_free pmap s' n \<longleftrightarrow> n \<notin> {8 * j..<8 * (j + d)} \<and> page_is_free pmap s n"
    and "free_pages pmap s' = free_pages pmap s - {8 * j..<8 * (j + d)}"
    and "pg_inv pmap s'"
proof -
  have ok: "pg_map_ok s" using inv by (simp add: pg_inv_def)
  have run: "j + d \<le> unat (page_end s)" "{8 * j..<8 * (j + d)} \<subseteq> free_pages pmap s"
    using j free_run_pages [OF ok] by (auto simp: lowest_run_Some)
  then show "{8 * j..<8 * (j + d)} \<subseteq> free_pages pmap s" by simp
  have e: "unat (page_end s) \<le> 2 ^ 17" using ok by (simp add: pg_map_ok_def word_le_nat_alt)
  show one: "page_is_free pmap s' n \<longleftrightarrow> n \<notin> {8 * j..<8 * (j + d)} \<and> page_is_free pmap s n"
    if "n < 2 ^ 20" for n
    using bit_at_clear_loop [of d j n pmap "pg_map s"] that run(1) e
    by (simp add: s'_def page_is_free_def)
  show fp: "free_pages pmap s' = free_pages pmap s - {8 * j..<8 * (j + d)}"
    using one page_bound [OF ok] by (auto simp: free_pages_def s'_def)
  have "unat (pages_free s') = unat (pages_free s) - 8 * d"
    using d(2) pg_inv_pages_free [OF inv] unat_of_nat_u32 [of "8 * d"]
    by (simp add: s'_def unat_sub word_le_nat_alt del: of_nat_mult)
  moreover have "card (free_pages pmap s') = card (free_pages pmap s) - 8 * d"
    using run(2) by (simp add: fp card_Diff_subset)
  ultimately show "pg_inv pmap s'"
    using inv d(2) by (simp add: pg_inv_def) (simp add: s'_def)
qed

lemma alloc_pages_inv:
  assumes inv: "pg_inv pmap s" and res: "alloc_pages count pmap s = (r, s')"
  shows "pg_inv pmap s'"
  using assms
proof (cases rule: alloc_pages_cases)
  case (run j d)
  then show ?thesis using alloc_pages_run(4) [OF inv run(2-4)] by simp
qed (use inv in simp)

lemma alloc_pages_cursor:
  assumes inv: "pg_inv pmap s" and res: "alloc_pages count pmap s = (r, s')" and cur: "pg_cursor_ok pmap s"
  shows "pg_cursor_ok pmap s'"
  using inv res
proof (cases rule: alloc_pages_cases)
  case (run j d)
  have "pg_map_ok s" using inv by (simp add: pg_inv_def)
  then show ?thesis
    using alloc_pages_run(2) [OF inv run(2-4)] cur page_bound [of s]
    unfolding pg_cursor_ok_def run(6) by (simp del: of_nat_mult)
qed (use cur in simp)

section \<open>Runs of the allocator\<close>

text \<open>
  The states reached from an initial one by the four operations, on pages below the limit. The flag
  is true as long as no page was released past the cursor by \<^verbatim>\<open>release_bitmap_page_mode_b\<close>,
  which does not lower it.
\<close>

inductive pg_reachable :: "u32 \<Rightarrow> bool \<Rightarrow> pg_state \<Rightarrow> bool" for pmap where
  init: "pg_inv pmap s \<Longrightarrow> pg_cursor_ok pmap s \<Longrightarrow> pg_reachable pmap True s"
| alloc: "pg_reachable pmap c s \<Longrightarrow> alloc_page pmap s = Some (r, s') \<Longrightarrow> pg_reachable pmap c s'"
| free: "pg_reachable pmap c s \<Longrightarrow> unat (drop_bit 12 phys) < 8 * unat (page_end s) \<Longrightarrow>
    pg_reachable pmap c (free_page phys pmap s)"
| allocs: "pg_reachable pmap c s \<Longrightarrow> alloc_pages count pmap s = (r, s') \<Longrightarrow> pg_reachable pmap c s'"
| release: "pg_reachable pmap c s \<Longrightarrow> unat page < 8 * unat (page_end s) \<Longrightarrow>
    release_bitmap_page_mode_b page pmap s = (r, s') \<Longrightarrow>
    pg_reachable pmap (c \<and> 8 * unat (page_start s) \<le> unat page) s'"

lemma release_inv:
  assumes inv: "pg_inv pmap s" and n: "unat page < 8 * unat (page_end s)"
    and res: "release_bitmap_page_mode_b page pmap s = (r, s')"
  shows "pg_inv pmap s'" and "pg_cursor_ok pmap s \<Longrightarrow> 8 * unat (page_start s) \<le> unat page \<Longrightarrow> pg_cursor_ok pmap s'"
proof -
  have ok: "pg_map_ok s" using inv by (simp add: pg_inv_def)
  let ?n = "unat page"
  have s': "s' = s\<lparr>pg_map := put_bit pmap (of_nat ?n) True (pg_map s),
       pages_free := (if page_is_free pmap s ?n then pages_free s else pages_free s + 1)\<rparr>"
    using res release_mode_b_eq [of ?n pmap s] by simp
  show "pg_inv pmap s'" unfolding s' by (rule free_put_inv [OF inv n])
  show "pg_cursor_ok pmap s'" if "pg_cursor_ok pmap s" "8 * unat (page_start s) \<le> unat page"
    using that page_bound [OF ok] n unfolding s' pg_cursor_ok_def
    by (auto simp: page_is_free_put simp del: of_nat_unat)
qed

lemma pg_reachable_inv: "pg_reachable pmap c s \<Longrightarrow> pg_inv pmap s \<and> (c \<longrightarrow> pg_cursor_ok pmap s)"
proof (induction rule: pg_reachable.induct)
  case (free c s phys)
  then show ?case
    using free_page_inv [of pmap s phys "unat (drop_bit 12 phys)"]
      free_page_cursor [of pmap s phys "unat (drop_bit 12 phys)"] by simp
qed (auto intro: alloc_page_inv alloc_page_cursor alloc_pages_inv alloc_pages_cursor release_inv)

lemma alloc_page_lowest:
  assumes inv: "pg_inv pmap s" and cur: "pg_cursor_ok pmap s"
  shows "alloc_page pmap s = Some (if pages_free s = 1 then (0, s) else
    let p = Min (free_pages pmap s) in
    (push_bit 12 (of_nat p),
     s\<lparr>pg_map := put_bit pmap (of_nat p) False (pg_map s), page_start := of_nat (4 * (p div 32)),
       pages_free := pages_free s - 1\<rparr>))"
proof -
  have ok: "pg_map_ok s" and pos: "1 \<le> unat (pages_free s)" and card: "unat (pages_free s) = card (free_pages pmap s)"
    using inv by (auto simp: pg_inv_def)
  have sint: "sint (pages_free s) = int (unat (pages_free s))"
    using pg_inv_pages_free [OF inv] by (intro sint_u32_small) simp
  show ?thesis
  proof (cases "pages_free s = 1")
    case True
    then have "s\<lparr>pages_free := 1\<rparr> = s" by (cases s) simp
    with True show ?thesis by (simp add: alloc_page_def)
  next
    case False
    then have two: "2 \<le> unat (pages_free s)" using pos by (simp add: word_unat_eq_iff)
    then have "\<not> int (unat (pages_free s)) \<le> 1" by linarith
    then have ne: "\<not> sint (pages_free s) \<le> 1" by (simp only: sint not_False_eq_True)
    define p where "p = Min (free_pages pmap s)"
    have nonempty: "free_pages pmap s \<noteq> {}" using card two by auto
    then have p: "p \<in> free_pages pmap s" unfolding p_def by (intro Min_in) simp_all
    have least: "n \<notin> free_pages pmap s" if "n < p" for n
    proof
      assume "n \<in> free_pages pmap s"
      then have "p \<le> n" unfolding p_def by (intro Min_le) simp_all
      with that show False by simp
    qed
    have "lowest_free pmap s (8 * unat (page_start s)) (8 * unat (page_end s)) = Some p"
      unfolding lowest_free_Some
      using p least cur by (fastforce simp: pg_cursor_ok_def free_pages_def not_le [symmetric])
    then show ?thesis
      using alloc_page_eq [OF ok, of pmap] ne False by (simp add: take_page_def p_def Let_def)
  qed
qed

section \<open>Batched release\<close>

text \<open>
  Two ways of releasing a list of pages: mode A calls
  \<^verbatim>\<open>release_bitmap_page_without_cursor_update\<close> on each page, adds up the deltas and adds the
  sum to \<open>pages_free\<close> at the end; mode B calls \<^verbatim>\<open>release_bitmap_page_mode_b\<close> on each page.
\<close>

fun release_sum :: "u32 \<Rightarrow> u32 list \<Rightarrow> mem \<Rightarrow> u32 \<times> mem" where
  "release_sum pmap [] m = (0, m)"
| "release_sum pmap (p # ps) m =
     (let (delta, m) = release_bitmap_page_without_cursor_update p pmap m;
          (rest, m) = release_sum pmap ps m
      in (delta + rest, m))"

definition release_mode_a :: "u32 \<Rightarrow> u32 list \<Rightarrow> pg_state \<Rightarrow> pg_state" where
  "release_mode_a pmap ps s =
     (let (sum, m) = release_sum pmap ps (pg_map s)
      in s\<lparr>pg_map := m, pages_free := pages_free s + sum\<rparr>)"

definition release_mode_b :: "u32 \<Rightarrow> u32 list \<Rightarrow> pg_state \<Rightarrow> pg_state" where
  "release_mode_b pmap ps s = fold (\<lambda>p s. snd (release_bitmap_page_mode_b p pmap s)) ps s"

section \<open>Properties\<close>

text \<open>A small map for the witnesses: 32 pages at 0x1000, all free but page 0.\<close>

definition pg_example :: pg_state where
  "pg_example = \<lparr>pg_map = put_bit 0x1000 0 False (\<lambda>_. 0xFF), page_start = 0, page_end = 4, pages_free = 31\<rparr>"

lemma pg_example_free: "free_pages 0x1000 pg_example = {1..<32}"
proof -
  have "bit (0xFF :: u8) (unat (p AND 7))" for p :: u32
    using bit_mask_iff [where 'a = u8 and m = 8 and n = "unat (p AND 7)"] unat_and_7_less [of p]
    by (simp add: mask_eq_exp_minus_1)
  then have "bit_at 0x1000 (\<lambda>_. 0xFF) p" for p by (simp add: bit_at_def)
  then have "page_is_free 0x1000 pg_example n \<longleftrightarrow> n \<noteq> 0" if "n < 32" for n
    using that of_nat_u32_eq_iff [of n 0] by (simp add: page_is_free_def pg_example_def bit_at_put_bit)
  then show ?thesis by (auto simp: free_pages_def pg_example_def)
qed

lemma pg_example_reachable: "pg_reachable 0x1000 True pg_example"
  by (rule pg_reachable.init)
    (simp_all add: pg_inv_def pg_map_ok_def pg_cursor_ok_def pg_example_free, simp_all add: pg_example_def)

text \<open>C2: In every state reached by page allocations, frees and releases, the counter
  \<^verbatim>\<open>pages_free\<close> is exactly the number of free pages in the bitmap and is at least one.\<close>

theorem pages_free_counts:
  assumes "pg_reachable pmap c s"
  shows "unat (pages_free s) = card (free_pages pmap s) \<and> 1 \<le> unat (pages_free s)"
  using pg_reachable_inv [OF assms] by (simp add: pg_inv_def)



theorem pages_free_counts_witness:
  "unat (pages_free (free_page 0 0x1000 pg_example)) = card (free_pages 0x1000 (free_page 0 0x1000 pg_example))"
proof -
  have "pg_reachable 0x1000 True (free_page 0 0x1000 pg_example)"
    by (rule pg_reachable.free [OF pg_example_reachable]) (simp add: pg_example_def)
  then show ?thesis using pages_free_counts by blast
qed

text \<open>C3: In a reachable state \<^verbatim>\<open>alloc_pages\<close> serves a request of \<^verbatim>\<open>count\<close> pages,
  rounded up to \<open>d\<close> whole bytes of the map, exactly when \<open>d\<close> is not zero, at least \<open>8 d + 9\<close> pages are
  free and some \<open>8 d\<close> consecutive pages from a byte boundary at or above the cursor are free. It then takes
  the first such run, returns its address, and exactly the pages of the run stop being free; otherwise
  it returns 0 and changes nothing.\<close>

theorem alloc_pages_first_fit:
  fixes count :: u32
  assumes "pg_reachable pmap c s"
  defines "d \<equiv> unat (drop_bit 3 (count + 7))"
  defines "run \<equiv> \<lambda>j. unat (page_start s) \<le> j \<and> j + d \<le> unat (page_end s) \<and> {8 * j..<8 * (j + d)} \<subseteq> free_pages pmap s"
  shows "if 0 < d \<and> 8 * d + 9 \<le> unat (pages_free s) \<and> (\<exists>j. run j)
    then \<exists>s'. alloc_pages count pmap s = (push_bit 12 (of_nat (8 * (LEAST j. run j))), s')
      \<and> free_pages pmap s' = free_pages pmap s - {8 * (LEAST j. run j)..<8 * ((LEAST j. run j) + d)}
      \<and> unat (pages_free s') = unat (pages_free s) - 8 * d
      \<and> page_start s' = page_start s \<and> page_end s' = page_end s
    else alloc_pages count pmap s = (0, s)"
proof -
  have inv: "pg_inv pmap s" using pg_reachable_inv [OF assms(1)] by simp
  then have ok: "pg_map_ok s" by (simp add: pg_inv_def)
  let ?lr = "lowest_run pmap (pg_map s) (unat (page_end s)) d (unat (page_start s))"
  note eq = alloc_pages_eq [OF inv, of count, folded d_def]
  have run_iff: "run j \<longleftrightarrow> unat (page_start s) \<le> j \<and> free_run pmap (pg_map s) (unat (page_end s)) d j" for j
    unfolding run_def free_run_pages [OF ok] by simp
  show ?thesis
  proof (cases "0 < d \<and> 8 * d + 9 \<le> unat (pages_free s)")
    case False
    then show ?thesis using eq by auto
  next
    case d: True
    show ?thesis
    proof (cases ?lr)
      case None
      then have "\<nexists>j. run j" using d by (auto simp: lowest_run_None run_iff) (auto simp: free_run_def)
      with None d eq show ?thesis by simp
    next
      case (Some j)
      then have j: "run j" and least: "i < j \<Longrightarrow> \<not> run i" for i
        by (auto simp: lowest_run_Some run_iff)
      then have L: "(LEAST j. run j) = j" by (metis Least_equality not_le)
      have "push_bit 15 (of_nat j :: u32) = push_bit 12 (of_nat (8 * j))"
        by (simp add: push_bit_eq_mult)
      moreover have "unat (pages_free s - of_nat (8 * d)) = unat (pages_free s) - 8 * d"
        using d pg_inv_pages_free [OF inv] unat_of_nat_u32 [of "8 * d"]
        by (simp add: unat_sub word_le_nat_alt del: of_nat_mult)
      ultimately show ?thesis
        using eq d Some j alloc_pages_run(3) [OF inv _ _ Some] unfolding L by auto
    qed
  qed
qed

theorem alloc_pages_first_fit_witness:
  "\<exists>s'. alloc_pages 10 0x1000 pg_example = (0x8000, s') \<and> free_pages 0x1000 s' = {1..<8} \<union> {24..<32}"
proof -
  have d: "unat (drop_bit 3 (10 + 7 :: u32)) = 2" by simp
  define run where "run j \<longleftrightarrow> unat (page_start pg_example) \<le> j \<and> j + 2 \<le> unat (page_end pg_example)
    \<and> {8 * j..<8 * (j + 2)} \<subseteq> free_pages 0x1000 pg_example" for j
  have run: "run j \<longleftrightarrow> 1 \<le> j \<and> j \<le> 2" for j
    by (auto simp: run_def pg_example_free) (simp_all add: pg_example_def)
  have L: "(LEAST j. run j) = 1" unfolding run by (rule Least_equality) auto
  have "\<exists>j. run j" unfolding run by auto
  moreover have "unat (pages_free pg_example) = 31" by (simp add: pg_example_def)
  moreover have "{1..<32} - {8..<24} = {1..<8} \<union> {24..<32::nat}" by auto
  ultimately show ?thesis
    using alloc_pages_first_fit [OF pg_example_reachable, of 10, unfolded d, folded run_def]
    by (auto simp: L pg_example_free)
qed

text \<open>Allocating a page and giving its address to \<^verbatim>\<open>free_page\<close> restores the set of free
  pages and the counter.\<close>

theorem alloc_then_free:
  assumes "pg_reachable pmap True s" and "pages_free s \<noteq> 1"
  shows "\<exists>phys s1. alloc_page pmap s = Some (phys, s1)
    \<and> free_pages pmap (free_page phys pmap s1) = free_pages pmap s
    \<and> pages_free (free_page phys pmap s1) = pages_free s"
proof -
  have inv: "pg_inv pmap s" and cur: "pg_cursor_ok pmap s" using pg_reachable_inv [OF assms(1)] by auto
  then have ok: "pg_map_ok s" and card: "unat (pages_free s) = card (free_pages pmap s)" "1 \<le> unat (pages_free s)"
    by (auto simp: pg_inv_def)
  define p where "p = Min (free_pages pmap s)"
  have "free_pages pmap s \<noteq> {}" using card by auto
  then have p: "p \<in> free_pages pmap s" unfolding p_def by (intro Min_in) simp_all
  then have pe: "p < 8 * unat (page_end s)" by (simp add: free_pages_def)
  have p20: "p < 2 ^ 20" by (rule page_bound [OF ok pe])
  define s1 where "s1 = s\<lparr>pg_map := put_bit pmap (of_nat p) False (pg_map s),
     page_start := of_nat (4 * (p div 32)), pages_free := pages_free s - 1\<rparr>"
  define phys :: u32 where "phys = push_bit 12 (of_nat p)"
  have alloc: "alloc_page pmap s = Some (phys, s1)"
    using alloc_page_lowest [OF inv cur] assms(2) by (simp add: s1_def phys_def p_def Let_def)
  have ok1: "pg_map_ok s1" using alloc_page_inv [OF inv alloc] by (simp add: pg_inv_def)
  have phys: "phys = of_nat (4096 * p)" by (simp add: phys_def push_bit_eq_mult)
  have ph: "drop_bit 12 phys = of_nat p"
    unfolding phys using p20 drop_bit_of_nat_u32 [of "4096 * p" 12] by (simp del: of_nat_mult)
  have "\<not> page_is_free pmap s1 p" using p20 by (simp add: s1_def page_is_free_put)
  then have eq: "free_page phys pmap s1 = s1\<lparr>pg_map := put_bit pmap (of_nat p) True (pg_map s1),
      pages_free := pages_free s\<rparr>"
    using free_page_eq [OF ok1 ph, of pmap] pe p20 unat_of_nat_u32 [of "4 * (p div 32)"]
    by (simp add: s1_def del: of_nat_mult)
  have "free_pages pmap s1 = free_pages pmap s - {p}"
    using free_pages_put [OF ok pe, of pmap False] by (simp add: s1_def)
  moreover have "p < 8 * unat (page_end s1)" using pe by (simp add: s1_def)
  ultimately have "free_pages pmap (free_page phys pmap s1) = free_pages pmap s"
    unfolding eq using free_pages_put [OF ok1, of p pmap True] p by auto
  with alloc eq show ?thesis by auto
qed

theorem alloc_then_free_witness:
  "\<exists>phys s1. alloc_page 0x1000 pg_example = Some (phys, s1)
    \<and> free_pages 0x1000 (free_page phys 0x1000 s1) = {1..<32}"
proof -
  have "pages_free pg_example \<noteq> 1" by (simp add: pg_example_def)
  from alloc_then_free [OF pg_example_reachable this] show ?thesis by (auto simp: pg_example_free)
qed

text \<open>Releasing pages one by one with \<^verbatim>\<open>release_bitmap_page_mode_b\<close> ends in the same state as
  the batched scheme that sums the deltas of \<^verbatim>\<open>release_bitmap_page_without_cursor_update\<close> and
  adds them to \<^verbatim>\<open>pages_free\<close> once.\<close>

theorem release_modes_agree: "release_mode_b pmap ps s = release_mode_a pmap ps s"
proof (induction ps arbitrary: s)
  case Nil
  show ?case by (simp add: release_mode_a_def release_mode_b_def)
next
  case (Cons p ps)
  have same: "release_bitmap_page_without_cursor_update = bitmap_bts_free_delta"
    by (intro ext) (simp add: release_bitmap_page_without_cursor_update_def bitmap_bts_free_delta_def)
  obtain \<delta> m where d: "bitmap_bts_free_delta p pmap (pg_map s) = (\<delta>, m)" by (meson surj_pair)
  obtain \<sigma> m' where m: "release_sum pmap ps m = (\<sigma>, m')" by (meson surj_pair)
  have "release_mode_b pmap (p # ps) s = release_mode_b pmap ps (snd (release_bitmap_page_mode_b p pmap s))"
    by (simp add: release_mode_b_def)
  also have "\<dots> = release_mode_a pmap ps (s\<lparr>pg_map := m, pages_free := pages_free s + \<delta>\<rparr>)"
    unfolding Cons.IH by (simp add: release_bitmap_page_mode_b_def d Let_def)
  also have "\<dots> = release_mode_a pmap (p # ps) s"
    by (simp add: release_mode_a_def same d m Let_def)
  finally show ?case .
qed

end
