(* ===== verification/Calendar.thy ===== *)
theory Calendar
  imports Prelude
begin

text \<open>
  The calendar of the file systems, \<^verbatim>\<open>time.rs\<close>: the BDFE date block, its conversion to
  seconds since 2001-01-01 (\<^verbatim>\<open>fs_calculate_time\<close>) and back (\<^verbatim>\<open>fs_time2bdfe\<close>). The
  month loop of \<^verbatim>\<open>fs_time2bdfe\<close> subtracts month lengths from a 16-bit register in two
  halves and would run on for ever over an all-zero table, so it is a partial function; it is shown to
  return on every input.
\<close>

section \<open>Model\<close>

record BdfeTime =
  bt_sec :: u8
  bt_min :: u8
  bt_hour :: u8
  bt_day :: u8
  bt_month :: u8
  bt_year :: u16

definition to_bytes :: "BdfeTime \<Rightarrow> u8 list" where
  "to_bytes t =
     [bt_sec t, bt_min t, bt_hour t, 0, bt_day t, bt_month t, ucast (bt_year t), ucast (drop_bit 8 (bt_year t))]"

definition from_bytes :: "u8 list \<Rightarrow> BdfeTime" where
  "from_bytes b =
     \<lparr>bt_sec = b ! 0, bt_min = b ! 1, bt_hour = b ! 2, bt_day = b ! 4, bt_month = b ! 5,
      bt_year = le16 (b ! 6) (b ! 7)\<rparr>"

definition month_tables :: "u8 list" where
  "month_tables =
     [31, 28, 31, 30, 31, 30, 31, 31, 30, 31, 30, 31,
      31, 29, 31, 30, 31, 30, 31, 31, 30, 31, 30, 31]"

text \<open>The reads of the table: entries past its end count as 0.\<close>

definition month_table_at :: "nat \<Rightarrow> u8" where
  "month_table_at idx = (if idx < 24 then month_tables ! idx else 0)"

function month_sum_loop :: "nat \<Rightarrow> int \<Rightarrow> u32 \<Rightarrow> u32" where
  "month_sum_loop table_base month_idx month_sum =
     (let month_idx = month_idx - 1 in
      if month_idx < 0 then month_sum
      else month_sum_loop table_base month_idx
             (month_sum + ucast (month_table_at (table_base + nat month_idx))))"
  by pat_completeness auto
termination
  by (relation "measure (\<lambda>(table_base, month_idx, month_sum). nat month_idx)") auto

declare month_sum_loop.simps [simp del]

definition fs_calculate_time :: "BdfeTime \<Rightarrow> u32" where
  "fs_calculate_time t =
     (let year = (ucast (bt_year t) :: u32);
          years = (if year < 2001 then 0 else year - 2001);
          table_base = (if (years + 1) AND 3 = 0 then 12 else 0);
          month_sum = month_sum_loop table_base (uint (bt_month t) - 1) 0;
          days = years * 365 + drop_bit 2 years + month_sum;
          days = days - 1 + ucast (bt_day t);
          total = days * 24 + ucast (bt_hour t);
          total = total * 60 + ucast (bt_min t)
      in total * 60 + ucast (bt_sec t))"

text \<open>The month loop of \<^verbatim>\<open>fs_time2bdfe\<close>: month number and day of the month.\<close>

partial_function (option) month_peel :: "nat \<Rightarrow> u32 \<Rightarrow> u16 \<Rightarrow> (u8 \<times> u8) option" where
  "month_peel table_base month dx =
     (let month = month + 1;
          mlen = month_table_at (table_base + unat (month - 1));
          new_dl = ucast dx - mlen;
          borrow = (ucast dx < mlen)
      in if \<not> borrow then month_peel table_base month ((dx AND 0xFF00) OR ucast new_dl)
         else
           let new_dh = (ucast (drop_bit 8 dx) :: u8) - 1 in
           if 0 \<le> sint new_dh then month_peel table_base month (push_bit 8 (ucast new_dh) OR ucast new_dl)
           else Some (ucast month, new_dl + mlen + 1))"

definition fs_time2bdfe :: "u32 \<Rightarrow> BdfeTime option" where
  "fs_time2bdfe secs =
     (let eax = secs;
          sec = ucast (eax mod 60); eax = eax div 60;
          min = ucast (eax mod 60); eax = eax div 60;
          hour = ucast (eax mod 24); eax = eax div 24;
          edx = eax mod 365; eax = eax div 365;
          ebx = eax + 2001;
          leaps = drop_bit 2 eax;
          subbed = edx - leaps;
          (ebx, edx) =
            (if sint subbed < 0 then
               let ebx = ebx - 1; edx = subbed + 365 in
               (ebx, if ebx AND 3 = 0 then edx + 1 else edx)
             else (ebx, subbed));
          table_base = (if ebx AND 3 = 0 then 12 else 0)
      in map_option (\<lambda>(month, day).
           \<lparr>bt_sec = sec, bt_min = min, bt_hour = hour, bt_day = day, bt_month = month, bt_year = ucast ebx\<rparr>)
         (month_peel table_base 0 (ucast (edx AND 0xFFFF))))"

text \<open>The pointer forms.\<close>

definition fs_calculate_time_ptr :: "u32 \<Rightarrow> mem \<Rightarrow> u32" where
  "fs_calculate_time_ptr block m = fs_calculate_time (from_bytes (mem_bytes m block 8))"

definition fs_time2bdfe_ptr :: "u32 \<Rightarrow> u32 \<Rightarrow> mem \<Rightarrow> mem option" where
  "fs_time2bdfe_ptr secs out m = map_option (\<lambda>t. put_bytes out (to_bytes t) m) (fs_time2bdfe secs)"

section \<open>The BDFE block\<close>

lemma from_bytes_to_bytes: "from_bytes (to_bytes t) = t"
proof -
  have "le16 (ucast y) (ucast (drop_bit 8 y)) = y" for y :: u16
    by (rule bit_word_eqI) (auto simp: bit_simps)
  then show ?thesis by (simp add: from_bytes_def to_bytes_def)
qed

lemma length_to_bytes: "length (to_bytes t) = 8"
  by (simp add: to_bytes_def)

section \<open>The calendar of the kernel\<close>

text \<open>
  Every fourth year from 2004 on has 366 days. \<open>year_start y\<close> is the day number of January 1st of year
  \<open>2001 + y\<close>, \<open>month_lens\<close> the month lengths.
\<close>

definition leap :: "nat \<Rightarrow> bool" where
  "leap y \<longleftrightarrow> y mod 4 = 3"

definition month_lens :: "bool \<Rightarrow> nat list" where
  "month_lens l = [31, if l then 29 else 28, 31, 30, 31, 30, 31, 31, 30, 31, 30, 31]"

definition year_len :: "nat \<Rightarrow> nat" where
  "year_len y = (if leap y then 366 else 365)"

definition year_start :: "nat \<Rightarrow> nat" where
  "year_start y = 365 * y + y div 4"

lemma length_month_lens [simp]: "length (month_lens l) = 12"
  by (simp add: month_lens_def)

lemma sum_month_lens: "sum_list (month_lens (leap y)) = year_len y"
  by (simp add: month_lens_def year_len_def)

lemma year_start_Suc: "year_start (Suc y) = year_start y + year_len y"
  unfolding year_start_def year_len_def leap_def by (cases "y mod 4 = 3") (auto, presburger, presburger)

lemma year_start_mono: "y \<le> z \<Longrightarrow> year_start y \<le> year_start z"
  by (simp add: year_start_def div_le_mono add_mono)

lemma year_unique:
  assumes "year_start y + d = year_start z + e" and "d < year_len y" and "e < year_len z"
  shows "y = z" and "d = e"
proof -
  have no: "False" if "a < b" "year_start a + f = year_start b + g" "f < year_len a" for a b f g
    using that year_start_mono [of "Suc a" b] year_start_Suc [of a] by simp
  then show "y = z" using assms no [of y z d e] no [of z y e d] by (metis linorder_neqE_nat)
  with assms(1) show "d = e" by simp
qed

fun peel :: "nat list \<Rightarrow> nat \<Rightarrow> nat \<times> nat" where
  "peel [] d = (0, d)"
| "peel (l # ls) d = (if d < l then (0, d) else case peel ls (d - l) of (k, r) \<Rightarrow> (Suc k, r))"

lemma peel_iff:
  "d < sum_list ls \<Longrightarrow> peel ls d = (k, r) \<longleftrightarrow> k < length ls \<and> r < ls ! k \<and> d = sum_list (take k ls) + r"
proof (induction ls arbitrary: d k)
  case Nil
  then show ?case by simp
next
  case (Cons l ls)
  show ?case
  proof (cases "d < l")
    case True
    then show ?thesis by (cases k) auto
  next
    case False
    then have lt: "d - l < sum_list ls" using Cons.prems by simp
    show ?thesis
    proof (cases k)
      case 0
      with False show ?thesis by (auto split: prod.splits)
    next
      case (Suc j)
      have "peel (l # ls) d = (k, r) \<longleftrightarrow> peel ls (d - l) = (j, r)"
        using False Suc by (auto split: prod.splits)
      also have "\<dots> \<longleftrightarrow> j < length ls \<and> r < ls ! j \<and> d - l = sum_list (take j ls) + r"
        by (rule Cons.IH [OF lt])
      finally show ?thesis using False Suc by auto
    qed
  qed
qed

lemma peel_total: "d < sum_list ls \<Longrightarrow> fst (peel ls d) < length ls"
  using peel_iff [of d ls "fst (peel ls d)" "snd (peel ls d)"] by simp

text \<open>Subtracting a byte from a 16-bit value held in two bytes, without and with a borrow.\<close>

lemma le16_sub_low:
  assumes "d < 2 ^ 15" and "unat l = d mod 256" and "unat h = d div 256" and "unat k \<le> d mod 256"
  shows "le16 (l - k) h = of_nat (d - unat k)"
proof -
  have "unat (l - k) = d mod 256 - unat k" using assms by (simp add: unat_sub word_le_nat_alt)
  moreover have "d = 256 * (d div 256) + d mod 256" by simp
  ultimately have "unat (le16 (l - k) h) = d - unat k" using assms(3,4) by (simp add: unat_le16)
  then show ?thesis using assms(1) by (simp add: word_unat_eq_iff unat_of_nat_u16)
qed

lemma le16_sub_borrow:
  assumes "d < 2 ^ 15" and "unat l = d mod 256" and "unat h = d div 256" and "d mod 256 < unat k" and "d div 256 \<noteq> 0"
  shows "le16 (l - k) (h - 1) = of_nat (d - unat k)" and "0 \<le> sint (h - 1)"
proof -
  have h: "unat (h - 1) = d div 256 - 1" using assms(3,5) by (subst unat_dec) auto
  moreover have "unat (l - k) = 256 + d mod 256 - unat k"
    using assms(2,4) by (simp add: unat_sub_if_size word_size word_le_nat_alt)
  moreover have "256 * (d div 256) \<ge> 256" using assms(5) by simp
  moreover have "d = 256 * (d div 256) + d mod 256" by simp
  ultimately have "unat (le16 (l - k) (h - 1)) = d - unat k"
    using unat_u8 [of k] assms(4) by (simp only: unat_le16) linarith
  then show "le16 (l - k) (h - 1) = of_nat (d - unat k)" using assms(1) by (simp add: word_unat_eq_iff unat_of_nat_u16)
  show "0 \<le> sint (h - 1)"
    using h assms(1) sint_less_0_iff [of "h - 1"] by (simp add: not_less [symmetric] del: not_less)
qed

text \<open>One round of the month loop is a 16-bit subtraction.\<close>

lemma month_peel_step:
  assumes d: "d < 2 ^ 15" and L: "unat (month_table_at (table_base + m)) = L" and m: "m < 2 ^ 31"
  shows "month_peel table_base (of_nat m) (of_nat d) =
    (if d < L then Some (of_nat (m + 1), of_nat (d + 1))
     else month_peel table_base (of_nat (m + 1)) (of_nat (d - L)))"
proof -
  define dl dh where "dl = (ucast (of_nat d :: u16) :: u8)" and "dh = (ucast (drop_bit 8 (of_nat d :: u16)) :: u8)"
  define mlen where "mlen = month_table_at (table_base + m)"
  have ud: "unat (of_nat d :: u16) = d" using d by (intro unat_of_nat_u16) simp
  have dl: "unat dl = d mod 256"
    by (simp add: dl_def unsigned_ucast_eq ud take_bit_eq_mod)
  have dh: "unat dh = d div 256"
    unfolding dh_def unsigned_ucast_eq unat_drop_bit_eq ud using d by (simp add: drop_bit_eq_div take_bit_eq_mod)
  have Lm: "unat mlen = L" "L < 256" using L unat_u8 [of mlen] by (simp_all add: mlen_def)
  have FF00: "(0xFF00 :: u16) = push_bit 8 (mask 8)" by (simp add: mask_eq_exp_minus_1)
  have keep: "((of_nat d :: u16) AND 0xFF00) OR ucast x = le16 x dh" for x :: u8
    unfolding FF00 by (rule bit_word_eqI) (auto simp: bit_simps dh_def dest: bit_imp_le_length)
  have join: "push_bit 8 (ucast h) OR ucast x = le16 x h" for x h :: u8
    by (simp add: le16_def or.commute)
  have mon: "(of_nat m :: u32) + 1 = of_nat (m + 1)" "unat (of_nat m :: u32) = m"
      "unat ((of_nat (Suc m) :: u32) - 1) = m"
    using m by (simp_all add: unat_of_nat_u32 add.commute)
  have step: "month_peel table_base (of_nat m) (of_nat d) =
      (if \<not> dl < mlen then month_peel table_base (of_nat (m + 1)) (le16 (dl - mlen) dh)
       else if 0 \<le> sint (dh - 1) then month_peel table_base (of_nat (m + 1)) (le16 (dl - mlen) (dh - 1))
       else Some (ucast (of_nat (m + 1) :: u32), dl + 1))"
    by (subst month_peel.simps)
      (simp add: Let_def mon keep [unfolded dh_def] join dl_def dh_def mlen_def del: of_nat_add of_nat_Suc)
  consider (sub) "L \<le> d mod 256" | (stop) "d mod 256 < L" "d div 256 = 0"
    | (borrow) "d mod 256 < L" "d div 256 \<noteq> 0" by linarith
  then show ?thesis
  proof cases
    case sub
    have "le16 (dl - mlen) dh = of_nat (d - L)" using le16_sub_low [OF d dl dh, of mlen] sub Lm by simp
    moreover have "\<not> dl < mlen" using sub dl Lm by (simp add: word_less_nat_alt)
    moreover have "\<not> d < L" using sub by (metis le_trans mod_less_eq_dividend not_le)
    ultimately show ?thesis by (simp add: step)
  next
    case stop
    then have dd: "d < 256" "dl = of_nat d" "dh = 0"
      using dl dh by (simp_all add: word_unat_eq_iff unat_of_nat_u8)
    moreover have "dl < mlen" using stop dl Lm by (simp add: word_less_nat_alt)
    ultimately show ?thesis using stop
      by (simp add: step ucast_of_nat_down add.commute del: of_nat_add of_nat_Suc) simp
  next
    case borrow
    note le16_sub_borrow [OF d dl dh, of mlen, unfolded Lm(1), OF borrow]
    moreover have "dl < mlen" using borrow dl Lm by (simp add: word_less_nat_alt)
    moreover have "\<not> d < L" using borrow Lm(2) by (metis div_less not_less_iff_gr_or_eq less_trans)
    ultimately show ?thesis by (simp add: step)
  qed
qed

lemma month_table_lens:
  "m < 12 \<Longrightarrow> unat (month_table_at ((if l then 12 else 0) + m)) = month_lens l ! m"
proof -
  assume "m < 12"
  then have "m = 0 \<or> m = 1 \<or> m = 2 \<or> m = 3 \<or> m = 4 \<or> m = 5 \<or> m = 6 \<or> m = 7 \<or> m = 8 \<or> m = 9 \<or> m = 10 \<or> m = 11"
    by arith
  then show ?thesis
    by (elim disjE) (simp_all add: month_table_at_def month_tables_def month_lens_def)
qed

lemma month_peel_eq:
  assumes "m < 12" and "d < sum_list (drop m (month_lens l))" and "d < 2 ^ 15"
    and "peel (drop m (month_lens l)) d = (k, r)"
  shows "month_peel (if l then 12 else 0) (of_nat m) (of_nat d) = Some (of_nat (m + k + 1), of_nat (r + 1))"
  using assms
proof (induction k arbitrary: m d)
  case 0
  have "drop m (month_lens l) = month_lens l ! m # drop (Suc m) (month_lens l)"
    using "0.prems"(1) by (simp add: Cons_nth_drop_Suc)
  then show ?case
    using "0.prems" month_peel_step [OF "0.prems"(3) month_table_lens [OF "0.prems"(1)], of l]
    by (auto split: prod.splits if_splits)
next
  case (Suc k)
  let ?L = "month_lens l ! m"
  have cons: "drop m (month_lens l) = ?L # drop (Suc m) (month_lens l)"
    using Suc.prems(1) by (simp add: Cons_nth_drop_Suc)
  then have big: "\<not> d < ?L" and rest: "peel (drop (Suc m) (month_lens l)) (d - ?L) = (k, r)"
    using Suc.prems(4) by (auto split: prod.splits if_splits)
  have lt: "d - ?L < sum_list (drop (Suc m) (month_lens l))" using Suc.prems(2) big cons by simp
  then have "Suc m < 12" by (cases "Suc m < 12") auto
  from Suc.IH [OF this lt _ rest] Suc.prems(3)
  have "month_peel (if l then 12 else 0) (of_nat (Suc m)) (of_nat (d - ?L)) =
      Some (of_nat (Suc m + k + 1), of_nat (r + 1))" by simp
  then show ?case
    using month_peel_step [OF Suc.prems(3) month_table_lens [OF Suc.prems(1)], of l] big Suc.prems(1)
    by (simp del: of_nat_Suc of_nat_add)
qed

text \<open>The year of a day number, as \<^verbatim>\<open>fs_time2bdfe\<close> finds it.\<close>

definition split_year :: "nat \<Rightarrow> nat \<times> nat" where
  "split_year D =
     (let q = D div 365; r = D mod 365 in
      if r < q div 4 then (q - 1, r + (if leap (q - 1) then 366 else 365) - q div 4)
      else (q, r - q div 4))"

lemma split_year_iff:
  assumes "D < 100000"
  shows "split_year D = (y, d) \<longleftrightarrow> D = year_start y + d \<and> d < year_len y"
proof -
  obtain y0 d0 where e: "split_year D = (y0, d0)" by fastforce
  define q r where "q = D div 365" and "r = D mod 365"
  have D: "D = 365 * q + r" "r < 365" "q < 300" using assms by (simp_all add: q_def r_def)
  have "D = year_start y0 + d0 \<and> d0 < year_len y0"
  proof (cases "r < q div 4")
    case True
    then obtain p where p: "q = Suc p" by (cases q) auto
    have y: "y0 = p" "d0 = r + (if leap p then 366 else 365) - q div 4"
      using True e p by (auto simp: split_year_def Let_def q_def [symmetric] r_def [symmetric])
    define c where "c = q div 4"
    have c: "c \<le> 75" using D(3) by (simp add: c_def)
    have pc: "p div 4 + (if leap p then 1 else 0) = c" unfolding leap_def p c_def by presburger
    have "365 * q = 365 * p + 365" by (simp add: p)
    then show ?thesis
      unfolding y year_start_def year_len_def using D(1,2) True c pc unfolding c_def [symmetric]
      by (auto split: if_splits)
  next
    case False
    then have "y0 = q" "d0 = r - q div 4"
      using e by (auto simp: split_year_def Let_def q_def [symmetric] r_def [symmetric])
    moreover have "r - q div 4 < 365" using D(2) by linarith
    ultimately show ?thesis using D(1) False by (simp add: year_start_def year_len_def)
  qed
  then show ?thesis using e year_unique [of y d y0 d0] by auto
qed

definition date_of :: "nat \<Rightarrow> BdfeTime" where
  "date_of n =
     (let (y, d) = split_year (n div 86400); (k, r) = peel (month_lens (leap y)) d
      in \<lparr>bt_sec = of_nat (n mod 60), bt_min = of_nat (n div 60 mod 60), bt_hour = of_nat (n div 3600 mod 24),
          bt_day = of_nat (r + 1), bt_month = of_nat (k + 1), bt_year = of_nat (2001 + y)\<rparr>)"

lemma year_and_3: "(of_nat (2001 + y) :: u32) AND 3 = 0 \<longleftrightarrow> leap y"
proof -
  have "(of_nat ((2001 + y) mod 4) :: u32) = of_nat 0 \<longleftrightarrow> (2001 + y) mod 4 = 0"
    by (rule of_nat_u32_eq_iff) (auto intro: less_trans [OF mod_less_divisor])
  also have "\<dots> \<longleftrightarrow> y mod 4 = 3" by presburger
  finally show ?thesis unfolding of_nat_and_3 leap_def by simp
qed

lemma fs_time2bdfe_year:
  assumes "D < 50000"
  defines "eax \<equiv> (of_nat D :: u32)"
  defines "q \<equiv> eax div 365" and "subbed \<equiv> eax mod 365 - drop_bit 2 (eax div 365)"
  shows "(if sint subbed < 0
      then let ebx = q + 2001 - 1; edx = subbed + 365 in (ebx, if ebx AND 3 = 0 then edx + 1 else edx)
      else (q + 2001, subbed)) = (of_nat (2001 + fst (split_year D)), of_nat (snd (split_year D)))"
proof -
  define Q R where "Q = D div 365" and "R = D mod 365"
  have b: "Q < 200" "R < 365" using assms(1) by (auto simp: Q_def R_def)
  have q: "q = of_nat Q" and r: "eax mod 365 = of_nat R"
    using assms(1) of_nat_div_u32 [of D 365] of_nat_mod_u32 [of D 365]
    by (simp_all add: q_def eax_def Q_def R_def)
  have lp: "drop_bit 2 (eax div 365) = of_nat (Q div 4)"
    using q b drop_bit_of_nat_u32 [of Q 2] by (simp add: q_def)
  have sub: "subbed = of_nat R - of_nat (Q div 4)" by (simp add: subbed_def r lp)
  show ?thesis
  proof (cases "R < Q div 4")
    case True
    then have Q: "1 \<le> Q" by auto
    have "unat (of_nat R :: u32) = R" "unat (of_nat (Q div 4) :: u32) = Q div 4"
      using b by (simp_all add: unat_of_nat_u32)
    then have "unat subbed = R + 2 ^ 32 - Q div 4"
      unfolding sub unat_sub_if_size using True by (simp add: word_size)
    then have "sint subbed < 0" using b by (simp add: sint_neg_iff)
    moreover have e: "q + 2001 - 1 = of_nat (2001 + (Q - 1))" using Q by (simp add: q of_nat_diff)
    moreover have "(of_nat (2001 + (Q - 1)) :: u32) AND 3 = 0 \<longleftrightarrow> leap (Q - 1)"
      by (rule year_and_3)
    moreover have "subbed + 365 = of_nat (R + 365 - Q div 4)" "subbed + 365 + 1 = of_nat (R + 366 - Q div 4)"
      unfolding sub using b by (simp_all add: of_nat_diff)
    ultimately show ?thesis using True
      by (simp add: split_year_def Let_def Q_def [symmetric] R_def [symmetric] del: of_nat_add)
  next
    case False
    then have s: "subbed = of_nat (R - Q div 4)" by (simp add: sub of_nat_diff)
    then have "unat subbed = R - Q div 4" using b by (simp only: unat_of_nat_u32) (simp add: unat_of_nat_u32)
    then have "\<not> sint subbed < 0" using b by (simp add: sint_neg_iff)
    then show ?thesis using False
      by (simp add: s q split_year_def Let_def Q_def [symmetric] R_def [symmetric])
  qed
qed

lemma of_nat_and_FFFF: "(ucast ((of_nat n :: u32) AND 0xFFFF) :: u16) = of_nat n"
proof -
  have m: "(0xFFFF :: u32) = mask 16" by (simp add: mask_eq_exp_minus_1)
  show ?thesis unfolding m
    by (intro bit_word_eqI) (auto simp: bit_simps bit_of_nat_iff)
qed

text \<open>\<^verbatim>\<open>fs_time2bdfe\<close> returns on every number of seconds.\<close>

lemma fs_time2bdfe_eq: "fs_time2bdfe secs = Some (date_of (unat secs))"
proof -
  define n where "n = unat secs"
  have n: "n < 2 ^ 32" and secs: "secs = of_nat n" by (simp_all add: n_def)
  define D where "D = n div 86400"
  have D: "D < 50000" using n by (simp add: D_def)
  have m60: "(of_nat k :: u32) mod 60 = of_nat (k mod 60)" "(of_nat k :: u32) div 60 = of_nat (k div 60)"
    "(of_nat k :: u32) mod 24 = of_nat (k mod 24)" "(of_nat k :: u32) div 24 = of_nat (k div 24)"
    if "k < 2 ^ 32" for k
    using that of_nat_mod_u32 [of k 60] of_nat_div_u32 [of k 60] of_nat_mod_u32 [of k 24] of_nat_div_u32 [of k 24]
    by simp_all
  have b: "n div 60 < 2 ^ 32" "n div 60 div 60 < 2 ^ 32" using n by simp_all
  have hms: "(ucast (secs mod 60) :: u8) = of_nat (n mod 60)"
    "(ucast (secs div 60 mod 60) :: u8) = of_nat (n div 60 mod 60)"
    "(ucast (secs div 60 div 60 mod 24) :: u8) = of_nat (n div 3600 mod 24)"
    using n b by (simp_all add: secs m60 ucast_of_nat_down flip: div_mult2_eq)
  have days: "secs div 60 div 60 div 24 = of_nat D"
    using n b by (simp add: secs m60 D_def flip: div_mult2_eq)
  obtain y d where yd: "split_year D = (y, d)" by fastforce
  then have "D = year_start y + d" "d < year_len y" using split_year_iff [of D y d] D by simp_all
  then have d: "d < sum_list (month_lens (leap y))" "d < 2 ^ 15"
    unfolding sum_month_lens by (auto simp: year_len_def split: if_splits)
  obtain k r where kr: "peel (month_lens (leap y)) d = (k, r)" by fastforce
  have pl: "month_peel (if leap y then 12 else 0) 0 (of_nat d) = Some (of_nat (k + 1), of_nat (r + 1))"
    using month_peel_eq [of 0 d "leap y" k r] d kr by simp
  note year = fs_time2bdfe_year [OF D, unfolded yd fst_conv snd_conv, unfolded Let_def]
  have "(ucast (of_nat (2001 + y) :: u32) :: u16) = of_nat (2001 + y)" by (rule ucast_of_nat_down) simp
  then show ?thesis
    unfolding fs_time2bdfe_def Let_def hms days year case_prod_conv year_and_3 of_nat_and_FFFF pl
    by (simp add: date_of_def n_def [symmetric] D_def [symmetric] yd kr del: of_nat_add)
qed

lemma month_sum_loop_eq:
  "k \<le> 12 \<Longrightarrow> month_sum_loop (if l then 12 else 0) (int k) acc = acc + of_nat (sum_list (take k (month_lens l)))"
proof (induction k arbitrary: acc)
  case 0
  show ?case by (subst month_sum_loop.simps) simp
next
  case (Suc k)
  have "(ucast (month_table_at ((if l then 12 else 0) + k)) :: u32) = of_nat (month_lens l ! k)"
    using month_table_lens [of k l, symmetric] Suc.prems by simp
  then show ?case using Suc
    by (subst month_sum_loop.simps) (simp add: take_Suc_conv_app_nth Let_def)
qed

text \<open>The number of seconds a valid date stands for.\<close>

definition bdfe_secs :: "BdfeTime \<Rightarrow> nat" where
  "bdfe_secs t =
     (let y = unat (bt_year t) - 2001 in
      86400 * (year_start y + sum_list (take (unat (bt_month t) - 1) (month_lens (leap y))) + (unat (bt_day t) - 1))
      + 3600 * unat (bt_hour t) + 60 * unat (bt_min t) + unat (bt_sec t))"

definition valid_bdfe :: "BdfeTime \<Rightarrow> bool" where
  "valid_bdfe t \<longleftrightarrow>
     bt_sec t < 60 \<and> bt_min t < 60 \<and> bt_hour t < 24 \<and> 2001 \<le> bt_year t
     \<and> 1 \<le> bt_month t \<and> bt_month t \<le> 12 \<and> 1 \<le> bt_day t
     \<and> unat (bt_day t) \<le> month_lens (leap (unat (bt_year t) - 2001)) ! (unat (bt_month t) - 1)
     \<and> bdfe_secs t < 2 ^ 32"

lemma year_plus_1_and_3: "(of_nat y + 1 :: u32) AND 3 = 0 \<longleftrightarrow> leap y"
proof -
  have "(of_nat ((y + 1) mod 4) :: u32) = of_nat 0 \<longleftrightarrow> (y + 1) mod 4 = 0"
    by (rule of_nat_u32_eq_iff) (auto intro: less_trans [OF mod_less_divisor])
  also have "\<dots> \<longleftrightarrow> y mod 4 = 3" by presburger
  finally show ?thesis using of_nat_and_3 [of "y + 1"] by (simp add: leap_def add.commute)
qed

lemma fs_calculate_time_eq:
  assumes "2001 \<le> bt_year t" and "1 \<le> bt_month t" and "bt_month t \<le> 12" and "1 \<le> bt_day t"
  shows "fs_calculate_time t = of_nat (bdfe_secs t)"
proof -
  define y where "y = unat (bt_year t) - 2001"
  define k where "k = unat (bt_month t) - 1"
  define S where "S = sum_list (take k (month_lens (leap y)))"
  define r where "r = unat (bt_day t) - 1"
  have ge: "2001 \<le> unat (bt_year t)" using assms(1) by (simp add: word_le_nat_alt)
  then have "(of_nat (unat (bt_year t)) :: u32) = of_nat (2001 + y)" by (simp only: y_def) simp
  then have year: "(ucast (bt_year t) :: u32) = of_nat (2001 + y)" by simp
  have y: "y < 65536" using unat_u16 [of "bt_year t"] unfolding y_def by linarith
  have "unat (bt_month t) = k + 1" and k: "k < 12"
    using assms(2,3) by (simp_all add: k_def word_le_nat_alt)
  then have "int (unat (bt_month t)) = int (k + 1)" by (simp only: )
  then have month: "uint (bt_month t) - 1 = int k" by simp
  have "unat (bt_day t) = r + 1" using assms(4) by (simp add: r_def word_le_nat_alt)
  then have "(of_nat (unat (bt_day t)) :: u32) = of_nat (r + 1)" by (simp only: )
  then have day: "(ucast (bt_day t) :: u32) = of_nat r + 1" by simp
  have ny: "\<not> (of_nat (2001 + y) :: u32) < 2001"
    using y by (simp add: word_less_nat_alt unat_of_nat_u32 del: of_nat_add)
  have yy: "(of_nat (2001 + y) :: u32) - 2001 = of_nat y" by simp
  have d4: "drop_bit 2 (of_nat y :: u32) = of_nat (y div 4)" using y by (simp add: drop_bit_of_nat_u32)
  have sum: "month_sum_loop (if leap y then 12 else 0) (int k) 0 = of_nat S"
    using month_sum_loop_eq [of k "leap y" 0] k by (simp add: S_def)
  have days: "(of_nat y :: u32) * 365 + of_nat (y div 4) + of_nat S - 1 + (of_nat r + 1) = of_nat (year_start y + S + r)"
    by (simp add: year_start_def)
  have spec: "bdfe_secs t = 86400 * (year_start y + S + r) + 3600 * unat (bt_hour t) + 60 * unat (bt_min t) + unat (bt_sec t)"
    by (simp add: bdfe_secs_def Let_def y_def k_def S_def r_def)
  have "fs_calculate_time t =
      ((of_nat (year_start y + S + r) * 24 + ucast (bt_hour t)) * 60 + ucast (bt_min t)) * 60 + ucast (bt_sec t)"
    unfolding fs_calculate_time_def Let_def year if_not_P [OF ny] yy year_plus_1_and_3 d4 month sum day days ..
  also have "\<dots> = of_nat (bdfe_secs t)" unfolding spec by (simp add: algebra_simps)
  finally show ?thesis .
qed

text \<open>Both directions are exact on the whole range of 32-bit seconds.\<close>

lemma date_of_valid:
  assumes "n < 2 ^ 32"
  shows "valid_bdfe (date_of n)" and "bdfe_secs (date_of n) = n"
proof -
  define D where "D = n div 86400"
  have D: "D < 50000" using assms by (simp add: D_def)
  obtain y d where yd: "split_year D = (y, d)" by fastforce
  then have d: "D = year_start y + d" "d < year_len y" using split_year_iff [of D y d] D by simp_all
  then have dl: "d < sum_list (month_lens (leap y))" unfolding sum_month_lens by simp
  obtain k r where kr: "peel (month_lens (leap y)) d = (k, r)" by fastforce
  then have k: "k < 12" "r < month_lens (leap y) ! k" "d = sum_list (take k (month_lens (leap y))) + r"
    using peel_iff [OF dl] by simp_all
  have "month_lens (leap y) ! k \<in> set (month_lens (leap y))" using k(1) by (intro nth_mem) simp
  then have "month_lens (leap y) ! k \<le> 31" by (auto simp: month_lens_def split: if_splits)
  then have r: "r < 31" using k(2) by simp
  have y: "y < 1000" using d(1) D by (simp add: year_start_def)
  define t where "t = date_of n"
  have u: "unat (bt_sec t) = n mod 60" "unat (bt_min t) = n div 60 mod 60" "unat (bt_hour t) = n div 3600 mod 24"
    "unat (bt_day t) = r + 1" "unat (bt_month t) = k + 1" "unat (bt_year t) = 2001 + y"
    using r k(1) y
    by (simp_all add: t_def date_of_def D_def [symmetric] yd kr unat_of_nat_u8 unat_of_nat_u16
        less_trans [OF mod_less_divisor] del: of_nat_add of_nat_Suc)
  have split: "n = 86400 * D + 3600 * (n div 3600 mod 24) + 60 * (n div 60 mod 60) + n mod 60"
  proof -
    define a b where "a = n div 60" and "b = n div 60 div 60"
    have "n = 60 * a + n mod 60" "a = 60 * b + a mod 60" "b = 24 * (b div 24) + b mod 24"
      unfolding a_def b_def by (simp_all only: mult_div_mod_eq)
    moreover have e: "n div 3600 = b" "n div 86400 = b div 24" by (simp_all add: b_def flip: div_mult2_eq)
    ultimately show ?thesis unfolding D_def e a_def [symmetric] by linarith
  qed
  have "bdfe_secs t = 86400 * (year_start y + sum_list (take k (month_lens (leap y))) + r)
      + 3600 * (n div 3600 mod 24) + 60 * (n div 60 mod 60) + n mod 60"
    unfolding bdfe_secs_def Let_def u by simp
  also have "\<dots> = n" using split d(1) k(3) by (simp add: add.assoc)
  finally have secs: "bdfe_secs t = n" .
  then show "bdfe_secs (date_of n) = n" by (simp add: t_def)
  have "valid_bdfe t"
    unfolding valid_bdfe_def word_less_nat_alt word_le_nat_alt u secs using assms k by simp
  then show "valid_bdfe (date_of n)" by (simp add: t_def)
qed

lemma hms_split:
  fixes n X h m s :: nat
  assumes "n = 86400 * X + 3600 * h + 60 * m + s" and "h < 24" and "m < 60" and "s < 60"
  shows "n div 86400 = X" and "n div 3600 mod 24 = h" and "n div 60 mod 60 = m" and "n mod 60 = s"
proof -
  show "n div 86400 = X" using assms by (intro div_nat_eqI) auto
  have h: "n div 3600 = 24 * X + h" using assms by (intro div_nat_eqI) auto
  show "n div 3600 mod 24 = h" unfolding h using assms(2) by simp
  have m: "n div 60 = 60 * (24 * X + h) + m" using assms by (intro div_nat_eqI) auto
  have mod60: "(60 * a + b) mod 60 = b" if "b < 60" for a b :: nat using that by simp
  show "n div 60 mod 60 = m" unfolding m by (rule mod60 [OF assms(3)])
  have "n = 60 * (60 * (24 * X + h) + m) + s" using assms(1) by simp
  then show "n mod 60 = s" by (simp only: mod60 [OF assms(4)])
qed

lemma date_of_bdfe_secs:
  assumes "valid_bdfe t"
  shows "date_of (bdfe_secs t) = t"
proof -
  define y k r where "y = unat (bt_year t) - 2001" and "k = unat (bt_month t) - 1" and "r = unat (bt_day t) - 1"
  define d where "d = sum_list (take k (month_lens (leap y))) + r"
  define n where "n = bdfe_secs t"
  note v = assms [unfolded valid_bdfe_def word_less_nat_alt word_le_nat_alt]
  have "1 \<le> unat (bt_month t)" "unat (bt_month t) \<le> 12" using v by simp_all
  then have k: "k < 12" "unat (bt_month t) = k + 1" by (simp_all add: k_def)
  have "1 \<le> unat (bt_day t)" "unat (bt_day t) \<le> month_lens (leap y) ! k" using v by (simp_all add: k_def y_def)
  then have r: "r < month_lens (leap y) ! k" "unat (bt_day t) = r + 1" by (simp_all add: r_def)
  have y: "unat (bt_year t) = 2001 + y" using v by (simp add: y_def)
  have n: "n = 86400 * (year_start y + d) + 3600 * unat (bt_hour t) + 60 * unat (bt_min t) + unat (bt_sec t)"
    by (simp add: n_def bdfe_secs_def Let_def y_def k_def r_def d_def)
  have hms: "unat (bt_hour t) < 24" "unat (bt_min t) < 60" "unat (bt_sec t) < 60" using v by simp_all
  note D = hms_split [OF n hms]
  have "sum_list (take (Suc k) (month_lens (leap y))) \<le> sum_list (month_lens (leap y))"
    by (metis append_take_drop_id le_add1 sum_list_append)
  then have d: "d < year_len y"
    using r(1) k(1) unfolding sum_month_lens d_def by (simp add: take_Suc_conv_app_nth)
  have "n < 2 ^ 32" using v by (simp add: n_def)
  then have lt: "n div 86400 < 100000" by simp
  have sy: "split_year (n div 86400) = (y, d)" using split_year_iff [OF lt] D(1) d by simp
  have "d < sum_list (month_lens (leap y))" using d by (simp add: sum_month_lens)
  then have pl: "peel (month_lens (leap y)) d = (k, r)" using k(1) r(1) by (simp add: peel_iff d_def)
  have "date_of n = \<lparr>bt_sec = of_nat (unat (bt_sec t)), bt_min = of_nat (unat (bt_min t)),
      bt_hour = of_nat (unat (bt_hour t)), bt_day = of_nat (unat (bt_day t)),
      bt_month = of_nat (unat (bt_month t)), bt_year = of_nat (unat (bt_year t))\<rparr>"
    unfolding date_of_def sy Let_def case_prod_conv pl D(2,3,4) k(2) r(2) y ..
  then show ?thesis by (simp add: n_def)
qed

lemma fs_time2bdfe_calculate: "valid_bdfe t \<Longrightarrow> fs_time2bdfe (fs_calculate_time t) = Some t"
proof -
  assume v: "valid_bdfe t"
  then have "fs_calculate_time t = of_nat (bdfe_secs t)" and n: "bdfe_secs t < 2 ^ 32"
    by (auto simp: valid_bdfe_def intro: fs_calculate_time_eq)
  then have "fs_time2bdfe (fs_calculate_time t) = Some (date_of (bdfe_secs t))"
    by (simp add: fs_time2bdfe_eq unat_of_nat_u32)
  with v show ?thesis by (simp add: date_of_bdfe_secs)
qed

lemma fs_calculate_time_date_of: "fs_calculate_time (date_of (unat secs)) = secs"
proof -
  have n: "unat secs < 2 ^ 32" by simp
  have "fs_calculate_time (date_of (unat secs)) = of_nat (bdfe_secs (date_of (unat secs)))"
    using date_of_valid(1) [OF n] by (intro fs_calculate_time_eq) (simp_all add: valid_bdfe_def)
  then show ?thesis by (simp add: date_of_valid(2) [OF n])
qed

section \<open>Properties\<close>


text \<open>Every valid date from 2001 on whose number of seconds fits in 32 bits survives the conversion
  to seconds and back.\<close>

theorem date_round_trip: "valid_bdfe t \<Longrightarrow> fs_time2bdfe (fs_calculate_time t) = Some t"
  by (rule fs_time2bdfe_calculate)

definition date_example :: BdfeTime where
  "date_example = \<lparr>bt_sec = 56, bt_min = 34, bt_hour = 12, bt_day = 29, bt_month = 2, bt_year = 2024\<rparr>"

lemma date_example_valid: "valid_bdfe date_example"
  by (simp add: valid_bdfe_def date_example_def leap_def month_lens_def bdfe_secs_def year_start_def)

theorem date_round_trip_witness: "fs_time2bdfe (fs_calculate_time date_example) = Some date_example"
  by (rule date_round_trip [OF date_example_valid])

text \<open>The year 2100 counts as a leap year: there is a number of seconds whose date is 2100-02-29.\<close>

lemma leap_day_2100:
  "\<exists>secs t. fs_time2bdfe secs = Some t \<and> bt_day t = 29 \<and> bt_month t = 2 \<and> bt_year t = 2100"
proof -
  let ?t = "date_example\<lparr>bt_year := 2100\<rparr>"
  have "valid_bdfe ?t"
    by (simp add: valid_bdfe_def date_example_def leap_def month_lens_def bdfe_secs_def year_start_def)
  from fs_time2bdfe_calculate [OF this] show ?thesis
    by (intro exI [of _ "fs_calculate_time ?t"] exI [of _ ?t]) (simp add: date_example_def)
qed

end
