(* ===== verification/Fs_Time.thy ===== *)
theory Fs_Time
  imports Calendar
begin

text \<open>
  The time formats of the file systems: NTFS FILETIME, XFS bigtime and EXT inode times against the
  kernel's seconds since 2001 (\<^verbatim>\<open>time.rs\<close>, \<^verbatim>\<open>ntfs_get_time.rs\<close>,
  \<^verbatim>\<open>ext_write_time.rs\<close>, \<^verbatim>\<open>ext_read_all_times.rs\<close>), the FAT date and time words
  (\<^verbatim>\<open>time.rs\<close>), and the clock of the machine (\<^verbatim>\<open>fs_get_time.rs\<close>,
  \<^verbatim>\<open>fs_read_cmos.rs\<close>), whose port access is a function argument.
\<close>

section \<open>Model: 64-bit time stamps\<close>

definition NTFS_FILETIME_BIAS_LO :: u32 where "NTFS_FILETIME_BIAS_LO = 3365781504"
definition NTFS_FILETIME_BIAS_HI :: u32 where "NTFS_FILETIME_BIAS_HI = 29389701"
definition NTFS_FILETIME_PER_SEC :: u32 where "NTFS_FILETIME_PER_SEC = 10000000"
definition XFS_NANOSEC_PER_SEC :: u32 where "XFS_NANOSEC_PER_SEC = 1000000000"
definition XFS_BIGTIME_TO_KOS_OFFSET_NS_LO :: u32 where "XFS_BIGTIME_TO_KOS_OFFSET_NS_LO = 0x11350000"
definition XFS_BIGTIME_TO_KOS_OFFSET_NS_HI :: u32 where "XFS_BIGTIME_TO_KOS_OFFSET_NS_HI = 0x2B610A37"
definition XFS_BIGTIME_TO_KOS_OFFSET_NS :: u64 where
  "XFS_BIGTIME_TO_KOS_OFFSET_NS =
     push_bit 32 (ucast XFS_BIGTIME_TO_KOS_OFFSET_NS_HI) OR ucast XFS_BIGTIME_TO_KOS_OFFSET_NS_LO"
definition UNIXTIME_TO_KOS_OFFSET :: u32 where "UNIXTIME_TO_KOS_OFFSET = 978307200"

definition pack_filetime :: "u32 \<Rightarrow> u32 \<Rightarrow> u64" where
  "pack_filetime lo hi = push_bit 32 (ucast hi) OR ucast lo"

definition ntfs_filetime_to_secs :: "u32 \<Rightarrow> u32 \<Rightarrow> u32" where
  "ntfs_filetime_to_secs filetime_lo filetime_hi =
     (let eax = filetime_lo - NTFS_FILETIME_BIAS_LO;
          borrow = (filetime_lo < NTFS_FILETIME_BIAS_LO);
          edx = filetime_hi - NTFS_FILETIME_BIAS_HI - (if borrow then 1 else 0);
          edx = (if edx \<ge> NTFS_FILETIME_PER_SEC then 0 else edx);
          dividend = (push_bit 32 (ucast edx) OR ucast eax :: u64)
      in ucast (dividend div ucast NTFS_FILETIME_PER_SEC))"

definition ntfs_datetime_to_bdfe :: "u32 \<Rightarrow> u32 \<Rightarrow> BdfeTime option" where
  "ntfs_datetime_to_bdfe filetime_lo filetime_hi =
     fs_time2bdfe (ntfs_filetime_to_secs filetime_lo filetime_hi)"

definition filetime_from_secs_2001 :: "u32 \<Rightarrow> u32 \<times> u32" where
  "filetime_from_secs_2001 secs =
     (let product = (ucast secs :: u64) * ucast NTFS_FILETIME_PER_SEC;
          bias = pack_filetime NTFS_FILETIME_BIAS_LO NTFS_FILETIME_BIAS_HI;
          ft = product + bias
      in (ucast ft, ucast (drop_bit 32 ft)))"

definition ntfs_calculate_time :: "BdfeTime \<Rightarrow> u32 \<times> u32" where
  "ntfs_calculate_time t = filetime_from_secs_2001 (fs_calculate_time t)"

definition ntfs_get_time_pack :: "u32 \<Rightarrow> u32 \<times> u32" where
  "ntfs_get_time_pack kos_secs = filetime_from_secs_2001 kos_secs"

definition xfs_bigtime_to_secs :: "u32 \<Rightarrow> u32 \<Rightarrow> u32" where
  "xfs_bigtime_to_secs bigtime_lo bigtime_hi =
     (if (push_bit 32 (ucast bigtime_hi) OR ucast bigtime_lo) < XFS_BIGTIME_TO_KOS_OFFSET_NS then 0
      else
        let eax = bigtime_lo - XFS_BIGTIME_TO_KOS_OFFSET_NS_LO;
            borrow = (bigtime_lo < XFS_BIGTIME_TO_KOS_OFFSET_NS_LO);
            edx = bigtime_hi - XFS_BIGTIME_TO_KOS_OFFSET_NS_HI - (if borrow then 1 else 0);
            (eax, edx) = (if edx \<ge> XFS_NANOSEC_PER_SEC then (0xFFFFFFFF, XFS_NANOSEC_PER_SEC - 1) else (eax, edx));
            dividend = (push_bit 32 (ucast edx) OR ucast eax :: u64)
        in ucast (dividend div ucast XFS_NANOSEC_PER_SEC))"

definition xfs_conv_bigtime_to_kos_epoch :: "u32 \<Rightarrow> u32 \<Rightarrow> BdfeTime option" where
  "xfs_conv_bigtime_to_kos_epoch bigtime_lo bigtime_hi = fs_time2bdfe (xfs_bigtime_to_secs bigtime_lo bigtime_hi)"

definition xfs_conv_time_to_kos_epoch :: "u32 \<Rightarrow> BdfeTime option" where
  "xfs_conv_time_to_kos_epoch secs = fs_time2bdfe secs"

definition bigtime_from_secs_2001 :: "u32 \<Rightarrow> u32 \<times> u32" where
  "bigtime_from_secs_2001 secs =
     (let bt = XFS_BIGTIME_TO_KOS_OFFSET_NS + (ucast secs :: u64) * ucast XFS_NANOSEC_PER_SEC
      in (ucast bt, ucast (drop_bit 32 bt)))"

definition ext_unix_to_secs :: "u32 \<Rightarrow> u32 \<Rightarrow> u32" where
  "ext_unix_to_secs i_time extra =
     (let edx = extra AND 3;
          edx = (if sint i_time < 0 then edx - 1 else edx);
          eax = i_time - UNIXTIME_TO_KOS_OFFSET;
          borrow = (i_time < UNIXTIME_TO_KOS_OFFSET);
          edx = edx - (if borrow then 1 else 0)
      in if sint edx < 0 then 0 else if edx \<noteq> 0 then 0xFFFFFFFF else eax)"

definition ext_read_time :: "u32 \<Rightarrow> u32 \<Rightarrow> BdfeTime option" where
  "ext_read_time i_time extra = fs_time2bdfe (ext_unix_to_secs i_time extra)"

text \<open>\<^verbatim>\<open>ext_write_time_pack_ptr\<close>: the two dwords it stores, and the stores.\<close>

definition EXT_WRITE_TIME_NO_EXTRA :: u32 where "EXT_WRITE_TIME_NO_EXTRA = 0xFFFFFFFF"

definition ext_write_time_pack :: "u32 \<Rightarrow> u32 \<times> u32" where
  "ext_write_time_pack kos_secs =
     (let eax = kos_secs + UNIXTIME_TO_KOS_OFFSET;
          carry = (eax < kos_secs);
          edx = 0 + (if carry then 1 else 0);
          edx = (if sint eax < 0 then edx + 1 else edx)
      in (eax, edx AND 3))"

definition ext_write_time_pack_ptr :: "u32 \<Rightarrow> u32 \<Rightarrow> u32 \<Rightarrow> mem \<Rightarrow> mem" where
  "ext_write_time_pack_ptr kos_secs time_ptr extra_time_ptr m =
     (let (eax, extra) = ext_write_time_pack kos_secs;
          m = store_u32 time_ptr eax m
      in if extra_time_ptr \<noteq> EXT_WRITE_TIME_NO_EXTRA then store_u32 extra_time_ptr extra m else m)"

text \<open>\<^verbatim>\<open>ext_read_all_times_ptr\<close>.\<close>

definition INODE_EXTRA_ISIZE :: u32 where "INODE_EXTRA_ISIZE = 128"
definition INODE_ATIME :: u32 where "INODE_ATIME = 8"
definition INODE_CTIME :: u32 where "INODE_CTIME = 12"
definition INODE_MTIME :: u32 where "INODE_MTIME = 16"
definition INODE_CTIME_EXTRA :: u32 where "INODE_CTIME_EXTRA = 132"
definition INODE_MTIME_EXTRA :: u32 where "INODE_MTIME_EXTRA = 136"
definition INODE_ATIME_EXTRA :: u32 where "INODE_ATIME_EXTRA = 140"
definition INODE_CRTIME :: u32 where "INODE_CRTIME = 144"
definition INODE_CRTIME_EXTRA :: u32 where "INODE_CRTIME_EXTRA = 148"

definition write_ext_time :: "u32 \<Rightarrow> u32 \<Rightarrow> u32 \<Rightarrow> mem \<Rightarrow> mem option" where
  "write_ext_time out i_time extra m = fs_time2bdfe_ptr (ext_unix_to_secs i_time extra) out m"

definition ext_read_all_times_ptr :: "u32 \<Rightarrow> u32 \<Rightarrow> mem \<Rightarrow> mem option" where
  "ext_read_all_times_ptr inode out m =
     (let extra_i_size = (ucast (load_u16 m (inode + INODE_EXTRA_ISIZE)) :: u32); edi = out in
      if extra_i_size \<ge> 24 then
        Option.bind (write_ext_time edi (load_u32 m (inode + INODE_CRTIME)) (load_u32 m (inode + INODE_CRTIME_EXTRA)) m)
          (\<lambda>m. let edi = edi + 8 in
            Option.bind (write_ext_time edi (load_u32 m (inode + INODE_ATIME)) (load_u32 m (inode + INODE_ATIME_EXTRA)) m)
              (\<lambda>m. let edi = edi + 8 in
                write_ext_time edi (load_u32 m (inode + INODE_MTIME)) (load_u32 m (inode + INODE_MTIME_EXTRA)) m))
      else
        let ecx = (if extra_i_size < 4 then 0 else drop_bit 2 (extra_i_size - 4));
            (time0, extra0) =
              (if ecx \<ge> 4 then (load_u32 m (inode + INODE_CRTIME), 0)
               else (load_u32 m (inode + INODE_CTIME),
                     if ecx \<ge> 1 then load_u32 m (inode + INODE_CTIME_EXTRA) else 0))
        in Option.bind (write_ext_time edi time0 extra0 m)
          (\<lambda>m. let edi = edi + 8;
                    extra1 = (if ecx \<ge> 3 then load_u32 m (inode + INODE_ATIME_EXTRA) else 0) in
            Option.bind (write_ext_time edi (load_u32 m (inode + INODE_ATIME)) extra1 m)
              (\<lambda>m. let edi = edi + 8;
                        extra2 = (if ecx \<ge> 2 then load_u32 m (inode + INODE_MTIME_EXTRA) else 0) in
                write_ext_time edi (load_u32 m (inode + INODE_MTIME)) extra2 m)))"

definition pack_bigtime_be :: "u32 \<Rightarrow> u32 \<Rightarrow> u8 list" where
  "pack_bigtime_be lo hi =
     [byte 3 hi, byte 2 hi, byte 1 hi, byte 0 hi, byte 3 lo, byte 2 lo, byte 1 lo, byte 0 lo]"

section \<open>Model: FAT words\<close>

definition fat_time_to_bdfe :: "u32 \<Rightarrow> u32" where
  "fat_time_to_bdfe fat_time =
     (let hours = drop_bit 11 fat_time;
          seconds = push_bit 1 (fat_time AND 0x1F);
          minutes = drop_bit 5 fat_time AND 0x3F
      in push_bit 16 hours OR push_bit 8 minutes OR seconds)"

definition fat_date_to_bdfe :: "u32 \<Rightarrow> u32" where
  "fat_date_to_bdfe fat_date =
     (let ecx = fat_date; edx = fat_date;
          eax = drop_bit 9 fat_date;
          year = (ucast eax :: u16) + 1980;
          eax = push_bit 16 (ucast year);
          day = (ucast (edx AND 0x1F) :: u8);
          eax = (eax AND 0xFFFFFF00) OR ucast day;
          month = (ucast (drop_bit 5 ecx AND 0xF) :: u8)
      in (eax AND 0xFFFF00FF) OR push_bit 8 (ucast month))"

definition bdfe_to_fat_time :: "u32 \<Rightarrow> u32" where
  "bdfe_to_fat_time bdfe_time =
     (let edx = bdfe_time;
          eax = drop_bit 16 bdfe_time;
          dh = (ucast (drop_bit 8 edx AND 0xFF) :: u8) AND 0x3F;
          eax = push_bit 6 eax OR ucast dh;
          dl = (ucast (edx AND 0xFF) :: u8);
          dl = drop_bit 1 dl AND 0x1F
      in push_bit 5 eax OR ucast dl)"

definition bdfe_to_fat_date :: "u32 \<Rightarrow> u32" where
  "bdfe_to_fat_date bdfe_date =
     (let edx = bdfe_date;
          eax = drop_bit 16 bdfe_date;
          ax = (ucast eax :: u16) - 1980;
          eax = (ucast ax :: u32);
          dh = (ucast (drop_bit 8 edx AND 0xFF) :: u8) AND 0xF;
          eax = push_bit 4 eax OR ucast dh;
          dl = (ucast (edx AND 0xFF) :: u8) AND 0x1F
      in push_bit 5 eax OR ucast dl)"

section \<open>Model: the clock\<close>

definition fs_read_cmos_bcd :: "u8 \<Rightarrow> u16" where
  "fs_read_cmos_bcd raw =
     (let ax = (ucast (raw AND 0x7F) :: u16);
          ax = push_bit 4 ax;
          ax = (ax AND 0xFF00) OR drop_bit 4 (ax AND 0x00FF);
          ah = (ucast (drop_bit 8 ax) :: u8);
          al = (ucast (ax AND 0xFF) :: u8);
          sum = (ucast ah :: u16) * 10 + ucast al
      in sum mod 100)"

definition bdfe_from_cmos_fields :: "u16 \<Rightarrow> u16 \<Rightarrow> u16 \<Rightarrow> u16 \<Rightarrow> u16 \<Rightarrow> u16 \<Rightarrow> BdfeTime" where
  "bdfe_from_cmos_fields day month year2 sec minute hour =
     (let eax = (0 :: u32);
          eax = (eax AND 0xFFFF0000) OR ucast day;
          eax = word_rotr 8 eax;
          eax = (eax AND 0xFFFF0000) OR ucast month;
          eax = word_rotr 8 eax;
          eax = (eax AND 0xFFFF0000) OR ucast year2;
          eax = eax + 2000;
          eax = word_rotr 16 eax;
          date_part = [byte 0 eax, byte 1 eax, byte 2 eax, byte 3 eax];
          eax = (0 :: u32);
          eax = (eax AND 0xFFFF0000) OR ucast sec;
          eax = word_rotr 8 eax;
          eax = (eax AND 0xFFFF0000) OR ucast minute;
          eax = word_rotr 8 eax;
          eax = (eax AND 0xFFFF0000) OR ucast hour;
          eax = word_rotr 16 eax;
          time_part = [byte 0 eax, byte 1 eax, byte 2 eax, byte 3 eax]
      in from_bytes (time_part @ date_part))"

definition bdfe_from_cmos_reader :: "(u32 \<Rightarrow> u32) \<Rightarrow> BdfeTime" where
  "bdfe_from_cmos_reader read_cmos =
     (let read = (\<lambda>reg :: u8. (ucast (read_cmos (ucast reg) AND 0xFFFF) :: u16))
      in bdfe_from_cmos_fields (read 7) (read 8) (read 9) (read 0) (read 2) (read 4))"

definition fs_get_time :: "(u32 \<Rightarrow> u32) \<Rightarrow> u32" where
  "fs_get_time read_cmos = fs_calculate_time (bdfe_from_cmos_reader read_cmos)"

definition fs_read_cmos :: "(u32 \<Rightarrow> u32) \<Rightarrow> u8 \<Rightarrow> u16" where
  "fs_read_cmos raw_read reg = fs_read_cmos_bcd (ucast (raw_read (ucast reg)))"

definition fs_read_cmos_ptr :: "(u32 \<Rightarrow> u32) \<Rightarrow> u32 \<Rightarrow> u32" where
  "fs_read_cmos_ptr raw_read reg = ucast (fs_read_cmos raw_read (ucast reg))"

definition merge_upper_eax :: "u32 \<Rightarrow> u16 \<Rightarrow> u32" where
  "merge_upper_eax original_eax decoded_ax = (original_eax AND 0xFFFF0000) OR ucast decoded_ax"

section \<open>Double-word arithmetic\<close>

lemma pack_filetime_plus: "pack_filetime lo hi = ucast hi * 2 ^ 32 + ucast lo"
  unfolding pack_filetime_def by (rule join_dwords_plus)

lemma unat_pack_filetime: "unat (pack_filetime lo hi) = 2 ^ 32 * unat hi + unat lo"
  unfolding pack_filetime_def by (rule unat_join_dwords)

lemma pack_split: "pack_filetime (ucast w) (ucast (drop_bit 32 w)) = w" for w :: u64
  unfolding pack_filetime_def by (rule bit_word_eqI) (auto simp: bit_simps)

lemma ucast_sub_u32: "(ucast (a - b) :: u64) = ucast a - ucast b + (if a < b then 2 ^ 32 else 0)" for a b :: u32
proof -
  have "of_nat (unat (a - b)) = (of_nat (unat a) - of_nat (unat b) + (if a < b then 2 ^ 32 else 0) :: u64)"
  proof (cases "a < b")
    case True
    then have "unat (a - b) = unat a + 2 ^ 32 - unat b"
      by (simp add: unat_sub_if_size word_size word_less_nat_alt)
    moreover have "unat b \<le> unat a + 2 ^ 32" using unat_u32 [of b] by (simp add: less_imp_le trans_le_add2)
    ultimately show ?thesis using True by (simp add: of_nat_diff)
  next
    case False
    then have "unat b \<le> unat a" by (simp add: word_less_nat_alt)
    then show ?thesis using False by (simp add: unat_sub word_le_nat_alt of_nat_diff)
  qed
  then show ?thesis by simp
qed

lemma shift_32: "(ucast (a - b) :: u64) * 2 ^ 32 = ucast a * 2 ^ 32 - ucast b * 2 ^ 32" for a b :: u32
proof -
  have "(2 ^ 32 * 2 ^ 32 :: u64) = 0" by simp
  then show ?thesis by (simp add: ucast_sub_u32 algebra_simps)
qed

lemma sub_sbb:
  "pack_filetime (lo - blo) (hi - bhi - (if lo < blo then 1 else 0)) = pack_filetime lo hi - pack_filetime blo bhi"
  unfolding pack_filetime_plus shift_32 by (simp add: ucast_sub_u32 algebra_simps)

lemma unat_ucast_u64_u32: "unat x < 2 ^ 32 \<Longrightarrow> unat (ucast (x :: u64) :: u32) = unat x"
  by (simp add: unsigned_ucast_eq take_bit_nat_eq_self_iff)

section \<open>NTFS\<close>

lemma filetime_bias: "unat (pack_filetime NTFS_FILETIME_BIAS_LO NTFS_FILETIME_BIAS_HI) = 146097 * 86400 * 10 ^ 7"
  by (simp add: unat_pack_filetime NTFS_FILETIME_BIAS_LO_def NTFS_FILETIME_BIAS_HI_def)

text \<open>
  A FILETIME from the kernel's epoch on whose distance from it fits in 32 bits of seconds is decoded to
  the whole seconds since 2001.
\<close>

lemma ntfs_filetime_to_secs_eq:
  assumes "unat (pack_filetime lo hi) = 146097 * 86400 * 10 ^ 7 + d" and "d < 10 ^ 7 * 2 ^ 32"
  shows "unat (ntfs_filetime_to_secs lo hi) = d div 10 ^ 7"
proof -
  define eax where "eax = lo - NTFS_FILETIME_BIAS_LO"
  define edx where "edx = hi - NTFS_FILETIME_BIAS_HI - (if lo < NTFS_FILETIME_BIAS_LO then 1 else 0)"
  have "pack_filetime NTFS_FILETIME_BIAS_LO NTFS_FILETIME_BIAS_HI \<le> pack_filetime lo hi"
    unfolding word_le_nat_alt filetime_bias assms(1) by simp
  then have "unat (pack_filetime eax edx) = d"
    unfolding eax_def edx_def sub_sbb by (simp only: unat_sub filetime_bias assms(1) add_diff_cancel_left')
  then have d: "2 ^ 32 * unat edx + unat eax = d" by (simp only: unat_pack_filetime)
  then have "2 ^ 32 * unat edx < 2 ^ 32 * 10 ^ 7" using assms(2) by simp
  then have lt: "\<not> NTFS_FILETIME_PER_SEC \<le> edx"
    by (simp add: NTFS_FILETIME_PER_SEC_def word_le_nat_alt)
  have q: "unat (pack_filetime eax edx div ucast NTFS_FILETIME_PER_SEC) = d div 10 ^ 7"
    by (simp only: unat_div unat_pack_filetime d) (simp add: NTFS_FILETIME_PER_SEC_def)
  moreover have "d div 10 ^ 7 < 2 ^ 32" using assms(2) by (simp add: less_mult_imp_div_less mult.commute)
  moreover have "ntfs_filetime_to_secs lo hi = ucast (pack_filetime eax edx div ucast NTFS_FILETIME_PER_SEC)"
    using lt by (simp add: ntfs_filetime_to_secs_def Let_def eax_def edx_def pack_filetime_def)
  ultimately show ?thesis by (simp add: unat_ucast_u64_u32)
qed

lemma filetime_from_secs_value:
  "filetime_from_secs_2001 secs = (lo, hi) \<Longrightarrow> unat (pack_filetime lo hi) = 146097 * 86400 * 10 ^ 7 + 10 ^ 7 * unat secs"
proof -
  assume e: "filetime_from_secs_2001 secs = (lo, hi)"
  define ft where "ft = (ucast secs :: u64) * ucast NTFS_FILETIME_PER_SEC + pack_filetime NTFS_FILETIME_BIAS_LO NTFS_FILETIME_BIAS_HI"
  have "pack_filetime lo hi = ft"
    using e pack_split [of ft] by (auto simp: filetime_from_secs_2001_def Let_def ft_def)
  moreover have "ft = of_nat (146097 * 86400 * 10 ^ 7 + 10 ^ 7 * unat secs)"
  proof -
    have "pack_filetime NTFS_FILETIME_BIAS_LO NTFS_FILETIME_BIAS_HI = of_nat (146097 * 86400 * 10 ^ 7)"
      unfolding filetime_bias [symmetric] by simp
    then show ?thesis by (simp add: ft_def NTFS_FILETIME_PER_SEC_def mult.commute)
  qed
  moreover have "126227808000000000 + 10000000 * unat secs < 18446744073709551616"
    using unat_u32 [of secs] by linarith
  ultimately show ?thesis by (simp only: unat_of_nat) simp
qed

section \<open>XFS\<close>

lemma bigtime_offset: "unat XFS_BIGTIME_TO_KOS_OFFSET_NS = (2 ^ 31 + (365 * 31 + 8) * 86400) * 10 ^ 9"
    "XFS_BIGTIME_TO_KOS_OFFSET_NS = pack_filetime XFS_BIGTIME_TO_KOS_OFFSET_NS_LO XFS_BIGTIME_TO_KOS_OFFSET_NS_HI"
proof -
  show e: "XFS_BIGTIME_TO_KOS_OFFSET_NS = pack_filetime XFS_BIGTIME_TO_KOS_OFFSET_NS_LO XFS_BIGTIME_TO_KOS_OFFSET_NS_HI"
    by (simp add: XFS_BIGTIME_TO_KOS_OFFSET_NS_def pack_filetime_def)
  show "unat XFS_BIGTIME_TO_KOS_OFFSET_NS = (2 ^ 31 + (365 * 31 + 8) * 86400) * 10 ^ 9"
    unfolding e unat_pack_filetime
    by (simp add: XFS_BIGTIME_TO_KOS_OFFSET_NS_LO_def XFS_BIGTIME_TO_KOS_OFFSET_NS_HI_def)
qed

lemma xfs_bigtime_to_secs_eq:
  "unat (xfs_bigtime_to_secs lo hi) =
     min (2 ^ 32 - 1) ((unat (pack_filetime lo hi) - (2 ^ 31 + (365 * 31 + 8) * 86400) * 10 ^ 9) div 10 ^ 9)"
proof (cases "pack_filetime lo hi < XFS_BIGTIME_TO_KOS_OFFSET_NS")
  case True
  then have "unat (pack_filetime lo hi) < (2 ^ 31 + (365 * 31 + 8) * 86400) * 10 ^ 9"
    unfolding word_less_nat_alt bigtime_offset(1) .
  then show ?thesis using True by (simp add: xfs_bigtime_to_secs_def pack_filetime_def)
next
  case False
  define eax where "eax = lo - XFS_BIGTIME_TO_KOS_OFFSET_NS_LO"
  define edx where "edx = hi - XFS_BIGTIME_TO_KOS_OFFSET_NS_HI - (if lo < XFS_BIGTIME_TO_KOS_OFFSET_NS_LO then 1 else 0)"
  define d where "d = unat (pack_filetime lo hi) - (2 ^ 31 + (365 * 31 + 8) * 86400) * 10 ^ 9"
  have "unat (pack_filetime eax edx) = d"
    unfolding eax_def edx_def sub_sbb bigtime_offset(2) [symmetric] d_def bigtime_offset(1) [symmetric]
    using False by (intro unat_sub) simp
  then have "2 ^ 32 * unat edx + unat eax = d" by (simp only: unat_pack_filetime)
  then have d: "4294967296 * unat edx + unat eax = d" by simp
  have e: "xfs_bigtime_to_secs lo hi =
      (if edx \<ge> XFS_NANOSEC_PER_SEC
       then ucast (pack_filetime 0xFFFFFFFF (XFS_NANOSEC_PER_SEC - 1) div ucast XFS_NANOSEC_PER_SEC)
       else ucast (pack_filetime eax edx div ucast XFS_NANOSEC_PER_SEC))"
    using False by (simp add: xfs_bigtime_to_secs_def Let_def eax_def edx_def pack_filetime_def)
  show ?thesis
  proof (cases "XFS_NANOSEC_PER_SEC \<le> edx")
    case True
    then have "1000000000 \<le> unat edx" by (simp add: XFS_NANOSEC_PER_SEC_def word_le_nat_alt)
    then have "4294967296 * 1000000000 \<le> d" using d by linarith
    then have "2 ^ 32 \<le> d div 10 ^ 9" by (simp add: less_eq_div_iff_mult_less_eq)
    moreover have "xfs_bigtime_to_secs lo hi = 0xFFFFFFFF"
      using True by (simp add: e XFS_NANOSEC_PER_SEC_def pack_filetime_plus)
    ultimately show ?thesis by (simp add: d_def)
  next
    case False
    then have "unat edx < 1000000000" by (simp add: XFS_NANOSEC_PER_SEC_def word_le_nat_alt)
    then have "d < 4294967296 * 1000000000" using d unat_u32 [of eax] by linarith
    then have lt: "d div 10 ^ 9 < 2 ^ 32" by (simp add: div_less_iff_less_mult)
    have q: "unat (pack_filetime eax edx div ucast XFS_NANOSEC_PER_SEC) = d div 10 ^ 9"
      using d by (simp only: unat_div unat_pack_filetime) (simp add: XFS_NANOSEC_PER_SEC_def)
    have "unat (xfs_bigtime_to_secs lo hi) = d div 10 ^ 9"
      unfolding e if_not_P [OF False] using q lt by (simp only: unat_ucast_u64_u32)
    with lt show ?thesis by (simp add: d_def)
  qed
qed

lemma bigtime_from_secs_value:
  "bigtime_from_secs_2001 secs = (lo, hi) \<Longrightarrow>
    unat (pack_filetime lo hi) = (2 ^ 31 + (365 * 31 + 8) * 86400) * 10 ^ 9 + 10 ^ 9 * unat secs"
proof -
  assume e: "bigtime_from_secs_2001 secs = (lo, hi)"
  define bt where "bt = XFS_BIGTIME_TO_KOS_OFFSET_NS + (ucast secs :: u64) * ucast XFS_NANOSEC_PER_SEC"
  have "pack_filetime lo hi = bt"
    using e pack_split [of bt] by (auto simp: bigtime_from_secs_2001_def Let_def bt_def)
  moreover have "bt = of_nat ((2 ^ 31 + (365 * 31 + 8) * 86400) * 10 ^ 9 + 10 ^ 9 * unat secs)"
  proof -
    have "XFS_BIGTIME_TO_KOS_OFFSET_NS = of_nat ((2 ^ 31 + (365 * 31 + 8) * 86400) * 10 ^ 9)"
      unfolding bigtime_offset(1) [symmetric] by simp
    then show ?thesis by (simp add: bt_def XFS_NANOSEC_PER_SEC_def mult.commute)
  qed
  moreover have "3125790848000000000 + 1000000000 * unat secs < 18446744073709551616"
    using unat_u32 [of secs] by linarith
  ultimately show ?thesis by (simp only: unat_of_nat) simp
qed

section \<open>EXT\<close>

text \<open>The 34-bit Unix time of an inode: the signed seconds and two epoch bits.\<close>

definition ext_unix_time :: "u32 \<Rightarrow> u32 \<Rightarrow> int" where
  "ext_unix_time i_time extra = sint i_time + 2 ^ 32 * (uint extra mod 4)"

lemma ext_unix_to_secs_eq:
  "uint (ext_unix_to_secs i_time extra) = max 0 (min (2 ^ 32 - 1) (ext_unix_time i_time extra - 978307200))"
proof -
  define e where "e = unat extra mod 4"
  define i where "i = unat i_time"
  have i: "i < 4294967296" "uint i_time = int i" by (simp_all add: i_def)
  have "of_nat (unat extra) AND 3 = (of_nat e :: u32)" unfolding e_def by (rule of_nat_and_3)
  then have ex: "extra AND 3 = of_nat e" by simp
  have "int e = int (unat extra) mod 4" by (simp only: e_def of_nat_mod of_nat_numeral)
  then have exi: "uint extra mod 4 = int e" by simp
  have sneg: "sint i_time < 0 \<longleftrightarrow> 2147483648 \<le> i" by (simp add: sint_neg_iff i_def)
  have sint: "sint i_time = (if 2147483648 \<le> i then int i - 4294967296 else int i)"
    using sint_u32_eq [of i_time] by (simp add: i_def)
  have off: "i_time < UNIXTIME_TO_KOS_OFFSET \<longleftrightarrow> i < 978307200"
    by (simp add: UNIXTIME_TO_KOS_OFFSET_def word_less_nat_alt i_def)
  have "unat (i_time - UNIXTIME_TO_KOS_OFFSET) = (if i < 978307200 then i + 4294967296 - 978307200 else i - 978307200)"
    using off by (simp add: unat_sub_if_size word_size i_def UNIXTIME_TO_KOS_OFFSET_def word_less_nat_alt)
  then have eax: "uint (i_time - UNIXTIME_TO_KOS_OFFSET) = (if i < 978307200 then int i + 3316660096 else int i - 978307200)"
    by (simp add: uint_nat split: if_splits)
  have "e = 0 \<or> e = 1 \<or> e = 2 \<or> e = 3" unfolding e_def by auto
  then show ?thesis
    unfolding ext_unix_to_secs_def Let_def ext_unix_time_def ex exi sneg off sint using i eax
    by (elim disjE) auto
qed

lemma ext_write_time_pack_value:
  "ext_write_time_pack secs = (i_time, extra) \<Longrightarrow> ext_unix_time i_time extra = uint secs + 978307200"
proof -
  assume e: "ext_write_time_pack secs = (i_time, extra)"
  define n where "n = unat secs"
  have n: "n < 4294967296" "uint secs = int n" by (simp_all add: n_def)
  define eax where "eax = secs + UNIXTIME_TO_KOS_OFFSET"
  have u: "unat eax = (if n + 978307200 < 4294967296 then n + 978307200 else n + 978307200 - 4294967296)"
    using n unfolding eax_def by (simp add: unat_plus_if_size word_size n_def UNIXTIME_TO_KOS_OFFSET_def)
  have carry: "eax < secs \<longleftrightarrow> \<not> n + 978307200 < 4294967296"
    using n u by (auto simp: word_less_nat_alt n_def)
  have neg: "sint eax < 0 \<longleftrightarrow> 2147483648 \<le> unat eax" by (simp add: sint_neg_iff)
  have "i_time = eax" "extra = (if eax < secs then if sint eax < 0 then 2 else 1 else if sint eax < 0 then 1 else 0)"
    using e by (auto simp: ext_write_time_pack_def Let_def eax_def [symmetric])
  then show ?thesis
    using n u carry neg sint_u32_eq [of eax] by (auto simp: ext_unix_time_def split: if_splits)
qed

section \<open>The interface of a time format\<close>

text \<open>
  What the file systems rely on: the on-disk form of a number of seconds is decoded to the same number,
  and reading a date goes through the decoded seconds. Then a date written is the date read.
\<close>

locale epoch_codec =
  fixes decode :: "'a \<Rightarrow> u32" and encode :: "u32 \<Rightarrow> 'a" and read_date :: "'a \<Rightarrow> BdfeTime option"
  assumes decode_encode: "decode (encode secs) = secs"
    and read_date_decode: "read_date x = fs_time2bdfe (decode x)"
begin

lemma encode_eq_iff: "encode a = encode b \<longleftrightarrow> a = b"
  by (metis decode_encode)

lemma read_date_encode: "valid_bdfe t \<Longrightarrow> read_date (encode (fs_calculate_time t)) = Some t"
  by (simp add: read_date_decode decode_encode fs_time2bdfe_calculate)

lemma read_date_total: "\<exists>t. read_date x = Some t \<and> valid_bdfe t"
  using date_of_valid(1) [of "unat (decode x)"] by (simp add: read_date_decode fs_time2bdfe_eq)

end

interpretation ntfs: epoch_codec "\<lambda>(lo, hi). ntfs_filetime_to_secs lo hi" filetime_from_secs_2001
    "\<lambda>(lo, hi). ntfs_datetime_to_bdfe lo hi"
proof
  fix secs :: u32
  obtain lo hi where e: "filetime_from_secs_2001 secs = (lo, hi)" by fastforce
  have "10000000 * unat secs < 10000000 * 4294967296" using unat_u32 [of secs] by linarith
  then have "unat (ntfs_filetime_to_secs lo hi) = 10 ^ 7 * unat secs div 10 ^ 7"
    by (intro ntfs_filetime_to_secs_eq [OF filetime_from_secs_value [OF e]]) simp
  then show "(case filetime_from_secs_2001 secs of (lo, hi) \<Rightarrow> ntfs_filetime_to_secs lo hi) = secs"
    by (simp add: e word_unat_eq_iff)
qed (simp add: ntfs_datetime_to_bdfe_def case_prod_unfold)

interpretation xfs: epoch_codec "\<lambda>(lo, hi). xfs_bigtime_to_secs lo hi" bigtime_from_secs_2001
    "\<lambda>(lo, hi). xfs_conv_bigtime_to_kos_epoch lo hi"
proof
  fix secs :: u32
  obtain lo hi where e: "bigtime_from_secs_2001 secs = (lo, hi)" by fastforce
  have "unat (xfs_bigtime_to_secs lo hi) = min (2 ^ 32 - 1) (unat secs)"
    unfolding xfs_bigtime_to_secs_eq bigtime_from_secs_value [OF e] by simp
  moreover have "unat secs \<le> 4294967295" using unat_u32 [of secs] by linarith
  ultimately show "(case bigtime_from_secs_2001 secs of (lo, hi) \<Rightarrow> xfs_bigtime_to_secs lo hi) = secs"
    by (simp add: e word_unat_eq_iff)
qed (simp add: xfs_conv_bigtime_to_kos_epoch_def case_prod_unfold)

interpretation ext: epoch_codec "\<lambda>(i_time, extra). ext_unix_to_secs i_time extra" ext_write_time_pack
    "\<lambda>(i_time, extra). ext_read_time i_time extra"
proof
  fix secs :: u32
  obtain i x where e: "ext_write_time_pack secs = (i, x)" by fastforce
  have "uint secs < 4294967296" "0 \<le> uint secs" using uint_lt2p [of secs] by simp_all
  then have "uint (ext_unix_to_secs i x) = uint secs"
    unfolding ext_unix_to_secs_eq ext_write_time_pack_value [OF e] by simp
  then show "(case ext_write_time_pack secs of (i_time, extra) \<Rightarrow> ext_unix_to_secs i_time extra) = secs"
    by (simp add: e word_uint_eq_iff)
qed (simp add: ext_read_time_def case_prod_unfold)

section \<open>FAT\<close>

lemma fat_masks:
  "(0x1F :: u32) = mask 5" "(0x3F :: u32) = mask 6" "(0xF :: u32) = mask 4" "(0xFF :: u32) = mask 8"
  "(0x1F :: u8) = mask 5" "(0x3F :: u8) = mask 6" "(0xF :: u8) = mask 4"
  "(0xFFFFFF00 :: u32) = NOT (mask 8)" "(0xFFFF00FF :: u32) = NOT (push_bit 8 (mask 8))"
  by (simp_all add: mask_eq_exp_minus_1)

lemma fat_date_inverse:
  assumes "w < 65536"
  shows "bdfe_to_fat_date (fat_date_to_bdfe w) = w"
proof -
  have hi: "\<not> bit w n" if "16 \<le> n" for n
    using assms that bit_below [of w n 16] by (auto simp: word_less_nat_alt)
  define y where "y = (ucast (drop_bit 9 w) :: u16)"
  have y: "bit y n \<longleftrightarrow> n < 16 \<and> bit w (9 + n)" for n by (simp add: y_def bit_simps)
  have yr: "(ucast (drop_bit 16 (fat_date_to_bdfe w)) :: u16) = y + 1980"
    unfolding fat_date_to_bdfe_def Let_def fat_masks y_def [symmetric]
    by (rule bit_word_eqI) (auto simp: bit_simps)
  have lo: "drop_bit 8 (fat_date_to_bdfe w) AND 0xFF = drop_bit 5 w AND 0xF"
    "fat_date_to_bdfe w AND 0xFF = w AND 0x1F"
    unfolding fat_date_to_bdfe_def Let_def fat_masks y_def [symmetric]
    by (rule u32_eq_listI, simp add: bit_simps del: push_bit_Suc drop_bit_Suc)+
  show ?thesis
    unfolding bdfe_to_fat_date_def Let_def yr lo unfolding fat_masks
    by (rule u32_eq_listI) (simp add: bit_simps y hi del: push_bit_Suc drop_bit_Suc)
qed

lemma fat_time_inverse:
  assumes "w < 65536"
  shows "bdfe_to_fat_time (fat_time_to_bdfe w) = w"
proof -
  have hi: "\<not> bit w n" if "16 \<le> n" for n
    using assms that bit_below [of w n 16] by (auto simp: word_less_nat_alt)
  show ?thesis
    unfolding bdfe_to_fat_time_def fat_time_to_bdfe_def Let_def fat_masks
    by (rule u32_eq_listI) (simp add: bit_simps hi del: push_bit_Suc drop_bit_Suc)
qed

section \<open>The clock\<close>

definition cmos_word :: "u16 \<Rightarrow> u16 \<Rightarrow> u16 \<Rightarrow> u32" where
  "cmos_word a b c = push_bit 24 (ucast b) + push_bit 16 (ucast a) + ucast c"

lemma cmos_word_or:
  assumes "a < 256" "b < 256"
  shows "cmos_word a b c = (push_bit 24 (ucast b) OR push_bit 16 (ucast a)) OR ucast c"
proof -
  have hi: "n < 8" if "bit x n" "x < 256" for x :: u16 and n
    using that bit_below [of x n 8] by (auto simp: word_less_nat_alt)
  have "push_bit 24 (ucast b :: u32) + push_bit 16 (ucast a) = push_bit 24 (ucast b) OR push_bit 16 (ucast a)"
    using assms hi [of a] by (intro disjunctive_add) (fastforce simp: bit_simps)
  moreover have "(push_bit 24 (ucast b :: u32) OR push_bit 16 (ucast a)) + ucast c =
      (push_bit 24 (ucast b) OR push_bit 16 (ucast a)) OR ucast c"
    by (intro disjunctive_add) (auto simp: bit_simps dest: bit_imp_le_length)
  ultimately show ?thesis by (simp add: cmos_word_def)
qed

lemma bit_cmos_word:
  assumes "a < 256" "b < 256"
  shows "bit (cmos_word a b c) n \<longleftrightarrow>
    (if n < 16 then bit c n else if n < 24 then bit a (n - 16) else n < 32 \<and> bit b (n - 24))"
proof -
  have hi: "n < 8" if "bit x n" "x < 256" for x :: u16 and n
    using that bit_below [of x n 8] by (auto simp: word_less_nat_alt)
  show ?thesis
    unfolding cmos_word_or [OF assms] using hi [OF _ assms(1), of "n - 16"] hi [OF _ assms(2), of "n - 24"]
    by (auto simp: bit_simps dest: bit_imp_le_length)
qed

lemma cmos_rotations:
  assumes "a < 256" "b < 256"
  shows "word_rotr 8 (word_rotr 8 (0 AND 0xFFFF0000 OR ucast a) AND 0xFFFF0000 OR ucast b) AND 0xFFFF0000 OR ucast c = cmos_word a b c"
proof -
  have hi: "\<not> bit x n" if "x < 256" "8 \<le> n" for x :: u16 and n
    using that bit_below [of x n 8] by (auto simp: word_less_nat_alt)
  have hc: "\<not> bit c n" if "16 \<le> n" for n using that bit_imp_le_length [of c n] by auto
  have F: "(0xFFFF0000 :: u32) = NOT (mask 16)" by (simp add: mask_eq_exp_minus_1)
  show ?thesis
    unfolding F by (rule u32_eq_listI) (simp add: bit_simps bit_word_rotr_iff bit_cmos_word assms hi hc)
qed

lemma cmos_word_bytes:
  fixes c :: u16
  assumes "a < 256" "b < 256"
  defines "w \<equiv> word_rotr 16 (cmos_word a b c)"
  shows "byte 0 w = ucast a" "byte 1 w = ucast b" "byte 2 w = ucast c" "byte 3 w = ucast (drop_bit 8 c)"
proof -
  have b: "bit w n \<longleftrightarrow> n < 32 \<and> bit (cmos_word a b c) ((n + 16) mod 32)" for n
    by (simp add: w_def bit_word_rotr_iff)
  show "byte 0 w = ucast a" "byte 1 w = ucast b"
    by (rule bit_word_eqI, simp add: bit_byte b bit_cmos_word assms(1,2) bit_ucast_iff)+
  have m: "(n + 32) mod 32 = n" "(n + 40) mod 32 = n + 8" if "n < 8" for n :: nat
    using that mod_add_self2 [of "n + 8" 32] by (simp_all add: add.commute)
  show "byte 2 w = ucast c" "byte 3 w = ucast (drop_bit 8 c)"
    by (rule bit_word_eqI, simp add: bit_byte b bit_cmos_word assms(1,2) bit_ucast_iff bit_drop_bit_eq m add.commute)+
qed

lemma cmos_fields:
  assumes "day < 256" "month < 256" "year2 < 60000" "sec < 256" "minute < 256" "hour < 256"
  shows "bdfe_from_cmos_fields day month year2 sec minute hour =
    \<lparr>bt_sec = ucast sec, bt_min = ucast minute, bt_hour = ucast hour, bt_day = ucast day, bt_month = ucast month,
     bt_year = year2 + 2000\<rparr>"
proof -
  have "unat (year2 + 2000) = unat year2 + 2000"
    using assms(3) unat_add_lem [of year2 2000] by (simp add: word_less_nat_alt)
  then have "(of_nat (unat (year2 + 2000)) :: u32) = of_nat (unat year2 + 2000)" by (simp only: )
  then have "(ucast (year2 + 2000) :: u32) = ucast year2 + 2000" by simp
  then have add: "cmos_word a b year2 + 2000 = cmos_word a b (year2 + 2000)" for a b
    by (simp add: cmos_word_def)
  have y: "le16 (ucast v) (ucast (drop_bit 8 v)) = v" for v :: u16
    by (rule bit_word_eqI) (auto simp: bit_simps)
  show ?thesis
    unfolding bdfe_from_cmos_fields_def Let_def cmos_rotations [OF assms(1,2)] cmos_rotations [OF assms(4,5)] add
    using cmos_word_bytes [OF assms(1,2), of "year2 + 2000"] cmos_word_bytes [OF assms(4,5), of hour]
    by (simp add: from_bytes_def y)
qed

text \<open>The BCD decoder on proper BCD: bit 7 of the raw byte is dropped, so the tens digit is taken modulo 8.\<close>

lemma bcd_table:
  "\<forall>a \<in> set [0..<10]. \<forall>b \<in> set [0..<10].
     fs_read_cmos_bcd (of_nat (16 * a + b)) = of_nat (10 * (a mod 8) + b)"
  by code_simp

lemma bcd_decode: "a < 10 \<Longrightarrow> b < 10 \<Longrightarrow> fs_read_cmos_bcd (of_nat (16 * a + b)) = of_nat (10 * (a mod 8) + b)"
  using bcd_table by simp

section \<open>The times of an EXT inode\<close>

text \<open>The three times to report, as (seconds, extra) pairs; \<open>k\<close> is the number of extra fields present.\<close>

definition inode_times :: "u32 \<Rightarrow> mem \<Rightarrow> (u32 \<times> u32) list" where
  "inode_times inode m =
     (let size = unat (load_u16 m (inode + INODE_EXTRA_ISIZE));
          k = (size - 4) div 4;
          field = (\<lambda>off. load_u32 m (inode + off))
      in [if 4 \<le> k then (field INODE_CRTIME, if 5 \<le> k then field INODE_CRTIME_EXTRA else 0)
          else (field INODE_CTIME, if 1 \<le> k then field INODE_CTIME_EXTRA else 0),
          (field INODE_ATIME, if 3 \<le> k then field INODE_ATIME_EXTRA else 0),
          (field INODE_MTIME, if 2 \<le> k then field INODE_MTIME_EXTRA else 0)])"

definition ext_bytes :: "u32 \<times> u32 \<Rightarrow> u8 list" where
  "ext_bytes = (\<lambda>(i_time, extra). to_bytes (date_of (unat (ext_unix_to_secs i_time extra))))"

lemma write_ext_time_eq: "write_ext_time out i x m = Some (put_bytes out (ext_bytes (i, x)) m)"
  by (simp add: write_ext_time_def fs_time2bdfe_ptr_def fs_time2bdfe_eq ext_bytes_def)

lemma length_ext_bytes [simp]: "length (ext_bytes p) = 8"
  by (simp add: ext_bytes_def length_to_bytes case_prod_unfold)

definition inode_apart :: "u32 \<Rightarrow> u32 \<Rightarrow> bool" where
  "inode_apart inode out \<longleftrightarrow> (\<forall>i < 24. \<forall>j < 152. out + of_nat i \<noteq> inode + of_nat j)"

lemma inode_field_put:
  assumes "inode_apart inode out" and "off + 4 \<le> 152" and "pos + length bs \<le> 24"
  shows "load_u32 (put_bytes (out + of_nat pos) bs m) (inode + of_nat off) = load_u32 m (inode + of_nat off)"
proof (rule load_u32_put_bytes)
  fix i k assume "i < length bs" "k < (4 :: nat)"
  then have "pos + i < 24" "off + k < 152" using assms(2,3) by simp_all
  then have "out + of_nat (pos + i) \<noteq> inode + of_nat (off + k)"
    using assms(1) unfolding inode_apart_def by blast
  then show "inode + of_nat off + of_nat k \<noteq> out + of_nat pos + of_nat i"
    by (auto simp: add.assoc)
qed

lemma ext_read_all_times_eq:
  assumes "inode_apart inode out"
  shows "ext_read_all_times_ptr inode out m = Some (put_bytes out (concat (map ext_bytes (inode_times inode m))) m)"
proof -
  note fld = inode_field_put [OF assms, where pos = 0] inode_field_put [OF assms, where pos = 8]
  have f1: "load_u32 (put_bytes out (ext_bytes p) m) (inode + 8) = load_u32 m (inode + 8)"
    "load_u32 (put_bytes out (ext_bytes p) m) (inode + 140) = load_u32 m (inode + 140)"
    "load_u32 (put_bytes out (ext_bytes p) m) (inode + 16) = load_u32 m (inode + 16)"
    "load_u32 (put_bytes out (ext_bytes p) m) (inode + 136) = load_u32 m (inode + 136)" for p m
    using fld(1) [of 8 "ext_bytes p" m] fld(1) [of 140 "ext_bytes p" m] fld(1) [of 16 "ext_bytes p" m]
      fld(1) [of 136 "ext_bytes p" m] by simp_all
  have f2: "load_u32 (put_bytes (out + 8) (ext_bytes p) m) (inode + 16) = load_u32 m (inode + 16)"
    "load_u32 (put_bytes (out + 8) (ext_bytes p) m) (inode + 136) = load_u32 m (inode + 136)" for p m
    using fld(2) [of 16 "ext_bytes p" m] fld(2) [of 136 "ext_bytes p" m] by simp_all
  define x where "x = (ucast (load_u16 m (inode + INODE_EXTRA_ISIZE)) :: u32)"
  define size where "size = unat (load_u16 m (inode + INODE_EXTRA_ISIZE))"
  define ecx where "ecx = (if x < 4 then 0 else drop_bit 2 (x - 4))"
  have x: "unat x = size" by (simp add: x_def size_def unat_ucast_up)
  have ge: "x \<ge> 24 \<longleftrightarrow> 5 \<le> (size - 4) div 4"
    by (simp add: word_le_nat_alt x less_eq_div_iff_mult_less_eq le_diff_conv2) auto
  have "unat ecx = (size - 4) div 4"
  proof (cases "x < 4")
    case True
    then show ?thesis by (simp add: ecx_def word_less_nat_alt x)
  next
    case False
    then have "unat (x - 4) = size - 4" by (subst unat_sub) (simp_all add: word_le_nat_alt x not_less)
    then show ?thesis using False unfolding ecx_def by (simp add: unat_drop_bit_eq) (simp add: drop_bit_eq_div)
  qed
  then have j: "ecx \<ge> 4 \<longleftrightarrow> 4 \<le> (size - 4) div 4" "ecx \<ge> 1 \<longleftrightarrow> 1 \<le> (size - 4) div 4"
    "ecx \<ge> 3 \<longleftrightarrow> 3 \<le> (size - 4) div 4" "ecx \<ge> 2 \<longleftrightarrow> 2 \<le> (size - 4) div 4"
    by (simp_all add: word_le_nat_alt)
  show ?thesis
    unfolding ext_read_all_times_ptr_def inode_times_def Let_def x_def [symmetric] size_def [symmetric]
      ecx_def [symmetric] ge j
    by (auto simp: write_ext_time_eq put_bytes_append f1 f2 INODE_ATIME_def INODE_MTIME_def INODE_ATIME_EXTRA_def
        INODE_MTIME_EXTRA_def add.assoc)
qed

section \<open>Properties\<close>

text \<open>C19: A valid date written as an NTFS FILETIME, as an XFS bigtime or as EXT inode seconds with
  the extra epoch bits is read back as the same date.\<close>

theorem codecs_round_trip:
  assumes "valid_bdfe t"
  shows "(case ntfs_calculate_time t of (lo, hi) \<Rightarrow> ntfs_datetime_to_bdfe lo hi) = Some t
    \<and> (case bigtime_from_secs_2001 (fs_calculate_time t) of (lo, hi) \<Rightarrow> xfs_conv_bigtime_to_kos_epoch lo hi) = Some t
    \<and> (case ext_write_time_pack (fs_calculate_time t) of (i_time, extra) \<Rightarrow> ext_read_time i_time extra) = Some t"
  using ntfs.read_date_encode [OF assms] xfs.read_date_encode [OF assms] ext.read_date_encode [OF assms]
  by (simp add: ntfs_calculate_time_def)

theorem codecs_round_trip_witness:
  "(case ntfs_calculate_time date_example of (lo, hi) \<Rightarrow> ntfs_datetime_to_bdfe lo hi) = Some date_example"
  using codecs_round_trip [OF date_example_valid] by blast

text \<open>The XFS and EXT decoders are exact and saturate: XFS returns the whole seconds since 2001 of the
  64-bit nanosecond stamp, EXT the difference of the 34-bit signed Unix time to 2001, both cut to the
  range of a 32-bit number of seconds.\<close>

theorem decoders_saturate:
  "unat (xfs_bigtime_to_secs lo hi) =
     min (2 ^ 32 - 1) ((unat (pack_filetime lo hi) - (2 ^ 31 + (365 * 31 + 8) * 86400) * 10 ^ 9) div 10 ^ 9)
   \<and> uint (ext_unix_to_secs i_time extra) =
     max 0 (min (2 ^ 32 - 1) (sint i_time + 2 ^ 32 * (uint extra mod 4) - (365 * 31 + 8) * 86400))"
  using xfs_bigtime_to_secs_eq [of lo hi] ext_unix_to_secs_eq [of i_time extra]
  by (simp add: ext_unix_time_def)

text \<open>Converting a 16-bit FAT time or date word to BDFE and back gives the word again.\<close>

theorem fat_words_round_trip:
  assumes "w < 65536"
  shows "bdfe_to_fat_time (fat_time_to_bdfe w) = w \<and> bdfe_to_fat_date (fat_date_to_bdfe w) = w"
  using fat_time_inverse [OF assms] fat_date_inverse [OF assms] by blast

theorem fat_words_round_trip_witness:
  "bdfe_to_fat_time (fat_time_to_bdfe 0xBF7D) = 0xBF7D \<and> bdfe_to_fat_date (fat_date_to_bdfe 0x5A4F) = 0x5A4F"
  using fat_words_round_trip [of "0xBF7D"] fat_words_round_trip [of "0x5A4F"] by simp

text \<open>The clock registers hold the fields in binary coded decimal.\<close>

definition bcd :: "nat \<Rightarrow> u32" where
  "bcd n = of_nat (16 * (n div 10) + n mod 10)"

definition clock_shows :: "(u32 \<Rightarrow> u32) \<Rightarrow> BdfeTime \<Rightarrow> nat \<Rightarrow> bool" where
  "clock_shows raw t year2 \<longleftrightarrow>
     raw 0 = bcd (unat (bt_sec t)) \<and> raw 2 = bcd (unat (bt_min t)) \<and> raw 4 = bcd (unat (bt_hour t))
     \<and> raw 7 = bcd (unat (bt_day t)) \<and> raw 8 = bcd (unat (bt_month t)) \<and> raw 9 = bcd year2
     \<and> bt_year t = of_nat (2000 + year2)"

lemma fs_read_cmos_ptr_bcd:
  assumes "raw (ucast reg) = bcd n" and "n < 80"
  shows "(ucast (fs_read_cmos_ptr raw (ucast (reg :: u8)) AND 0xFFFF) :: u16) = of_nat n"
proof -
  have "(ucast (bcd n) :: u8) = of_nat (16 * (n div 10) + n mod 10)"
    unfolding bcd_def by (rule ucast_of_nat_down) simp
  moreover have "10 * (n div 10 mod 8) + n mod 10 = n" using assms(2) by simp
  ultimately have "fs_read_cmos raw reg = of_nat n"
    using bcd_decode [of "n div 10" "n mod 10"] assms by (simp add: fs_read_cmos_def)
  moreover have "unat (of_nat n :: u16) = n" using assms(2) by (simp add: unat_of_nat_u16)
  then have "(ucast (of_nat n :: u16) :: u32) = of_nat n" by (metis of_nat_unat)
  moreover have "(ucast (ucast reg :: u32) :: u8) = reg" by (rule bit_word_eqI) (auto simp: bit_simps)
  ultimately show ?thesis by (simp add: fs_read_cmos_ptr_def of_nat_and_FFFF)
qed

text \<open>When the clock registers hold a valid date of the years 2001 to 2079 in BCD, reading them
  through \<^verbatim>\<open>fs_read_cmos\<close> and \<^verbatim>\<open>fs_get_time\<close> gives the seconds of exactly that date.\<close>

theorem clock_reads_date:
  assumes "valid_bdfe t" and "clock_shows raw t year2" and "year2 < 80"
  shows "fs_time2bdfe (fs_get_time (fs_read_cmos_ptr raw)) = Some t"
proof -
  have b: "unat (bt_sec t) < 60" "unat (bt_min t) < 60" "unat (bt_hour t) < 24" "unat (bt_month t) \<le> 12"
    "unat (bt_day t) \<le> month_lens (leap (unat (bt_year t) - 2001)) ! (unat (bt_month t) - 1)" "1 \<le> unat (bt_month t)"
    using assms(1) by (simp_all add: valid_bdfe_def word_less_nat_alt word_le_nat_alt)
  have "month_lens l ! k \<le> 31" if "k < 12" for l k
    using nth_mem [of k "month_lens l"] that by (auto simp: month_lens_def split: if_splits)
  moreover have "unat (bt_month t) - 1 < 12" using b(4,6) by linarith
  ultimately have day: "unat (bt_day t) \<le> 31" using b(5) le_trans by blast
  note sh = assms(2) [unfolded clock_shows_def]
  let ?read = "\<lambda>reg :: u8. (ucast (fs_read_cmos_ptr raw (ucast reg) AND 0xFFFF) :: u16)"
  have r: "?read 7 = of_nat (unat (bt_day t))" "?read 8 = of_nat (unat (bt_month t))" "?read 9 = of_nat year2"
    "?read 0 = of_nat (unat (bt_sec t))" "?read 2 = of_nat (unat (bt_min t))" "?read 4 = of_nat (unat (bt_hour t))"
    by (rule fs_read_cmos_ptr_bcd; use sh b day assms(3) in simp)+
  have lt: "(ucast x :: u16) < 256" for x :: u8
    by (simp add: word_less_nat_alt unat_ucast_up)
  have u8: "(ucast (ucast x :: u16) :: u8) = x" for x
    by (rule bit_word_eqI) (auto simp: bit_simps)
  have y: "(of_nat year2 :: u16) < 60000" "of_nat year2 + 2000 = bt_year t"
    using assms(3) sh by (simp add: word_less_nat_alt unat_of_nat_u16) (use sh in simp)
  have "bdfe_from_cmos_reader (fs_read_cmos_ptr raw) = t"
    unfolding bdfe_from_cmos_reader_def Let_def r
    by (subst cmos_fields) (simp_all add: lt y u8)
  then show ?thesis by (simp add: fs_get_time_def fs_time2bdfe_calculate [OF assms(1)])
qed

theorem clock_reads_date_witness:
  "fs_time2bdfe (fs_get_time (fs_read_cmos_ptr
     (\<lambda>reg. if reg = 0 then 0x56 else if reg = 2 then 0x34 else if reg = 4 then 0x12
            else if reg = 7 then 0x29 else if reg = 8 then 0x02 else 0x24))) = Some date_example"
  by (rule clock_reads_date [OF date_example_valid, of _ 24])
    (simp_all add: clock_shows_def date_example_def bcd_def)

text \<open>A year register of 80 or more is read 80 years too low.\<close>

lemma clock_year_85: "fs_read_cmos_bcd 0x85 = 5"
  by code_simp

text \<open>For an EXT inode that does not overlap the output, \<^verbatim>\<open>ext_read_all_times_ptr\<close> returns and
  writes the BDFE blocks of three times in a row: the creation time if the inode is large enough to hold it
  and the change time otherwise, the access time, and the modification time, each with its extra epoch bits
  where the inode has them.\<close>

theorem ext_inode_times:
  assumes "inode_apart inode out"
  shows "\<exists>m'. ext_read_all_times_ptr inode out m = Some m'
    \<and> mem_bytes m' out 24 = concat (map ext_bytes (inode_times inode m))"
proof -
  have "length (concat (map ext_bytes (inode_times inode m))) = 24"
    by (simp add: inode_times_def Let_def)
  then show ?thesis
    using ext_read_all_times_eq [OF assms, of m] mem_bytes_put_bytes [of "concat (map ext_bytes (inode_times inode m))" out m]
    by simp
qed

theorem ext_inode_times_witness:
  "\<exists>m'. ext_read_all_times_ptr 0x1000 0x2000 (\<lambda>_. 0) = Some m'
     \<and> mem_bytes m' 0x2000 24 = concat (map ext_bytes (inode_times 0x1000 (\<lambda>_. 0)))"
proof (rule ext_inode_times)
  show "inode_apart 0x1000 0x2000"
    unfolding inode_apart_def
  proof (intro allI impI)
    fix i j :: nat assume "i < 24" "j < 152"
    then show "0x2000 + of_nat i \<noteq> (0x1000 + of_nat j :: u32)"
      using of_nat_u32_eq_iff [of "0x2000 + i" "0x1000 + j"] by simp
  qed
qed

end
