(* ===== verification/Hashes.thy ===== *)
theory Hashes
  imports Prelude
begin

text \<open>
  The running hashes of the file systems: the reflected CRC of \<^verbatim>\<open>crc.rs\<close>, the exFAT
  SetChecksum and NameHash of \<^verbatim>\<open>exfat_checksum.rs\<close> and the XFS directory name hash of
  \<^verbatim>\<open>xfs_hashname.rs\<close>. All three are folds of a byte step; the locale states what the step
  must satisfy for a hash to notice every change of a single byte.
\<close>

section \<open>Model\<close>

text \<open>\<^verbatim>\<open>crc32_update\<close>: the inner loop runs eight times over the bits of a byte.\<close>

fun crc32_bits :: "nat \<Rightarrow> u32 \<Rightarrow> u32 \<Rightarrow> u32 \<Rightarrow> u32" where
  "crc32_bits 0 poly b partial = partial"
| "crc32_bits (Suc n) poly b partial =
     (let mix = partial XOR b;
          partial = drop_bit 1 partial;
          partial = (if mix AND 1 \<noteq> 0 then partial XOR poly else partial)
      in crc32_bits n poly (drop_bit 1 b) partial)"

fun crc32_update :: "u32 \<Rightarrow> u32 \<Rightarrow> u8 list \<Rightarrow> u32" where
  "crc32_update partial poly [] = partial"
| "crc32_update partial poly (b # data) = crc32_update (crc32_bits 8 poly (ucast b) partial) poly data"

function exfat_rolling_loop :: "mem \<Rightarrow> u32 \<Rightarrow> u32 \<Rightarrow> bool \<Rightarrow> u32 \<Rightarrow> u16 \<Rightarrow> u16" where
  "exfat_rolling_loop m data len skip_indices_2_3 i ax =
     (if i < len then
        exfat_rolling_loop m data len skip_indices_2_3 (i + 1)
          (if \<not> (skip_indices_2_3 \<and> (i = 2 \<or> i = 3)) then
             let byte = m (data + i);
                 rotated = (if ax AND 1 \<noteq> 0 then 0x8000 else 0);
                 shifted = drop_bit 1 ax
             in rotated + shifted + ucast byte
           else ax)
      else ax)"
  by pat_completeness auto
termination
  by (relation "measure (\<lambda>(m, data, len, skip, i, ax). unat len - unat i)") (auto simp: unat_gap_less)

declare exfat_rolling_loop.simps [simp del]

definition exfat_rolling_checksum :: "mem \<Rightarrow> u32 \<Rightarrow> u32 \<Rightarrow> bool \<Rightarrow> u16" where
  "exfat_rolling_checksum m data len skip_indices_2_3 = exfat_rolling_loop m data len skip_indices_2_3 0 0"

definition calculate_set_checksum_field_sum :: "mem \<Rightarrow> u32 \<Rightarrow> u32 \<Rightarrow> u16" where
  "calculate_set_checksum_field_sum m buf len = exfat_rolling_checksum m buf len True"

definition calculate_set_checksum_field :: "u32 \<Rightarrow> u32 \<Rightarrow> mem \<Rightarrow> u16 \<times> mem" where
  "calculate_set_checksum_field buf len m =
     (let ax = calculate_set_checksum_field_sum m buf len in (ax, store_u16 (buf + 2) ax m))"

definition exfat_hash_calculate :: "mem \<Rightarrow> u32 \<Rightarrow> u32 \<Rightarrow> u16" where
  "exfat_hash_calculate m data len = exfat_rolling_checksum m data len False"

function xfs_hashname_loop :: "mem \<Rightarrow> u32 \<Rightarrow> u32 \<Rightarrow> u32 \<Rightarrow> u32 \<Rightarrow> u32" where
  "xfs_hashname_loop m name len i eax =
     (if i < len then xfs_hashname_loop m name len (i + 1) (word_rotl 7 eax XOR ucast (m (name + i))) else eax)"
  by pat_completeness auto
termination
  by (relation "measure (\<lambda>(m, name, len, i, eax). unat len - unat i)") (auto simp: unat_gap_less)

declare xfs_hashname_loop.simps [simp del]

definition xfs_hashname :: "mem \<Rightarrow> u32 \<Rightarrow> u32 \<Rightarrow> u32" where
  "xfs_hashname m name len = (if len = 0 then 0 else xfs_hashname_loop m name len 0 0)"

section \<open>The interface of a byte hash\<close>

text \<open>
  A step function that loses neither the state nor the byte. Its fold can be continued from a partial
  result, and two inputs that differ in exactly one byte have different hashes.
\<close>

locale byte_hash =
  fixes step :: "'s \<Rightarrow> u8 \<Rightarrow> 's"
  assumes step_state: "step s b = step s' b \<Longrightarrow> s = s'"
    and step_byte: "step s b = step s b' \<Longrightarrow> b = b'"
begin

definition hash :: "'s \<Rightarrow> u8 list \<Rightarrow> 's" where
  "hash s bs = foldl step s bs"

lemma hash_append: "hash s (xs @ ys) = hash (hash s xs) ys"
  by (simp add: hash_def)

lemma hash_state: "hash s bs = hash s' bs \<Longrightarrow> s = s'"
  unfolding hash_def by (induction bs arbitrary: s s') (auto dest: step_state)

lemma hash_single_byte: "hash s (xs @ a # ys) = hash s (xs @ b # ys) \<longleftrightarrow> a = b"
proof
  assume "hash s (xs @ a # ys) = hash s (xs @ b # ys)"
  then have "hash (step (hash s xs) a) ys = hash (step (hash s xs) b) ys"
    by (simp add: hash_append) (simp add: hash_def)
  then show "a = b" by (metis hash_state step_byte)
qed simp

lemma hash_update: "i < length bs \<Longrightarrow> hash s (bs[i := c]) = hash s bs \<longleftrightarrow> c = bs ! i"
proof -
  assume i: "i < length bs"
  then have "bs[i := c] = take i bs @ c # drop (Suc i) bs" by (rule upd_conv_take_nth_drop)
  moreover have "bs = take i bs @ bs ! i # drop (Suc i) bs" by (simp add: i id_take_nth_drop)
  ultimately show ?thesis by (metis hash_single_byte)
qed

end

section \<open>exFAT and XFS\<close>

definition exfat_step :: "u16 \<Rightarrow> u8 \<Rightarrow> u16" where
  "exfat_step ax b = (if ax AND 1 \<noteq> 0 then 0x8000 else 0) + drop_bit 1 ax + ucast b"

definition xfs_step :: "u32 \<Rightarrow> u8 \<Rightarrow> u32" where
  "xfs_step eax b = word_rotl 7 eax XOR ucast b"

lemma exfat_rotate: "(if ax AND 1 \<noteq> 0 then 0x8000 else 0) + drop_bit 1 ax = word_rotr 1 ax" for ax :: u16
proof -
  have b: "bit ((if ax AND 1 \<noteq> 0 then 0x8000 else 0) :: u16) n \<longleftrightarrow> n = 15 \<and> odd ax" for n
  proof -
    have "bit (2 ^ 15 :: u16) n \<longleftrightarrow> n = 15" by (simp only: bit_exp_iff possible_bit_word) auto
    moreover have "ax AND 1 \<noteq> 0 \<longleftrightarrow> odd ax" by (simp add: and_one_eq odd_iff_mod_2_eq_one)
    ultimately show ?thesis by simp
  qed
  have "(if ax AND 1 \<noteq> 0 then 0x8000 else 0) + drop_bit 1 ax = (if ax AND 1 \<noteq> 0 then 0x8000 else 0) OR drop_bit 1 ax"
    by (rule disjunctive_add) (auto simp: b bit_simps dest: bit_imp_le_length)
  also have "\<dots> = word_rotr 1 ax"
  proof (rule bit_word_eqI)
    fix n assume "n < LENGTH(16)"
    then show "bit ((if ax AND 1 \<noteq> 0 then 0x8000 else 0) OR drop_bit 1 ax) n = bit (word_rotr 1 ax) n"
      by (cases "n = 15") (auto simp: bit_or_iff b bit_simps bit_word_rotr_iff bit_0 dest: bit_imp_le_length)
  qed
  finally show ?thesis .
qed

lemma exfat_step_eq: "exfat_step ax b = word_rotr 1 ax + ucast b"
  by (simp only: exfat_step_def exfat_rotate)

lemma ucast_up_eq_iff:
  "LENGTH('a) \<le> LENGTH('b) \<Longrightarrow> (ucast (x :: 'a::len word) :: 'b::len word) = ucast y \<longleftrightarrow> x = y"
  by (metis unat_ucast_up word_unat_eq_iff)

interpretation exfat: byte_hash exfat_step
proof
  show "s = s'" if "exfat_step s b = exfat_step s' b" for s s' b
    using that by (metis add_right_cancel exfat_step_eq word_rot_rl)
  show "b = b'" if "exfat_step s b = exfat_step s b'" for s b b'
    using that by (simp add: exfat_step_eq ucast_up_eq_iff)
qed

interpretation xfs: byte_hash xfs_step
proof
  show "s = s'" if "xfs_step s b = xfs_step s' b" for s s' b
  proof -
    have "word_rotl 7 s = word_rotl 7 s'"
      using arg_cong [OF that, of "\<lambda>x. x XOR ucast b"] by (simp add: xfs_step_def xor.assoc)
    then show ?thesis by (metis word_rot_lr)
  qed
  show "b = b'" if "xfs_step s b = xfs_step s b'" for s b b'
  proof -
    have "word_rotl 7 s XOR (word_rotl 7 s XOR ucast b) = word_rotl 7 s XOR (word_rotl 7 s XOR (ucast b' :: u32))"
      using that by (simp add: xfs_step_def)
    then have "(ucast b :: u32) = ucast b'" by (simp add: xor.assoc [symmetric])
    then show ?thesis by (simp add: ucast_up_eq_iff)
  qed
qed

text \<open>The loops are folds over the bytes they visit.\<close>

definition visited :: "mem \<Rightarrow> u32 \<Rightarrow> bool \<Rightarrow> nat \<Rightarrow> nat \<Rightarrow> u8 list" where
  "visited m data skip lo hi = map (\<lambda>j. m (data + of_nat j)) (filter (\<lambda>j. \<not> (skip \<and> (j = 2 \<or> j = 3))) [lo..<hi])"

lemma visited_Cons: "i < n \<Longrightarrow> visited m data skip i n =
    (if skip \<and> (i = 2 \<or> i = 3) then [] else [m (data + of_nat i)]) @ visited m data skip (Suc i) n"
  by (simp add: visited_def upt_conv_Cons)

lemma visited_all: "visited m data False 0 n = mem_bytes m data n"
  by (rule nth_equalityI) (simp_all add: visited_def nth_mem_bytes)

lemma exfat_rolling_loop_eq:
  assumes "n < 2 ^ 32"
  shows "i \<le> n \<Longrightarrow> exfat_rolling_loop m data (of_nat n) skip (of_nat i) ax = exfat.hash ax (visited m data skip i n)"
proof (induction "n - i" arbitrary: i ax)
  case 0
  then have "i = n" by simp
  then show ?case by (subst exfat_rolling_loop.simps) (simp add: visited_def exfat.hash_def)
next
  case (Suc k)
  then have lt: "i < n" by simp
  then have w: "(of_nat i :: u32) < of_nat n"
    using assms by (simp add: word_less_nat_alt unat_of_nat_u32)
  have i23: "(of_nat i :: u32) = 2 \<longleftrightarrow> i = 2" "(of_nat i :: u32) = 3 \<longleftrightarrow> i = 3"
    using of_nat_u32_eq_iff [of i 2] of_nat_u32_eq_iff [of i 3] lt assms by simp_all
  have "exfat_rolling_loop m data (of_nat n) skip (of_nat i) ax =
      exfat_rolling_loop m data (of_nat n) skip (of_nat (Suc i))
        (if skip \<and> (i = 2 \<or> i = 3) then ax else exfat_step ax (m (data + of_nat i)))"
    using w by (subst exfat_rolling_loop.simps) (simp add: i23 Let_def exfat_step_def add.commute)
  also have "\<dots> = exfat.hash (if skip \<and> (i = 2 \<or> i = 3) then ax else exfat_step ax (m (data + of_nat i)))
      (visited m data skip (Suc i) n)"
    using Suc.hyps(2) lt by (intro Suc.hyps(1)) simp_all
  finally show ?case by (auto simp: visited_Cons [OF lt] exfat.hash_def)
qed

lemma xfs_hashname_loop_eq:
  assumes "n < 2 ^ 32"
  shows "i \<le> n \<Longrightarrow> xfs_hashname_loop m name (of_nat n) (of_nat i) eax = xfs.hash eax (visited m name False i n)"
proof (induction "n - i" arbitrary: i eax)
  case 0
  then have "i = n" by simp
  then show ?case by (subst xfs_hashname_loop.simps) (simp add: visited_def xfs.hash_def)
next
  case (Suc k)
  then have lt: "i < n" by simp
  then have w: "(of_nat i :: u32) < of_nat n"
    using assms by (simp add: word_less_nat_alt unat_of_nat_u32)
  have "xfs_hashname_loop m name (of_nat n) (of_nat i) eax =
      xfs_hashname_loop m name (of_nat n) (of_nat (Suc i)) (xfs_step eax (m (name + of_nat i)))"
    using w by (subst xfs_hashname_loop.simps) (simp add: xfs_step_def add.commute)
  also have "\<dots> = xfs.hash (xfs_step eax (m (name + of_nat i))) (visited m name False (Suc i) n)"
    using Suc.hyps(2) lt by (intro Suc.hyps(1)) simp_all
  finally show ?case by (simp add: visited_Cons [OF lt] xfs.hash_def)
qed

lemma exfat_rolling_checksum_eq:
  "exfat_rolling_checksum m data len skip = exfat.hash 0 (visited m data skip 0 (unat len))"
  using exfat_rolling_loop_eq [of "unat len" 0 m data skip 0] by (simp add: exfat_rolling_checksum_def)

lemma xfs_hashname_eq: "xfs_hashname m name len = xfs.hash 0 (mem_bytes m name (unat len))"
  using xfs_hashname_loop_eq [of "unat len" 0 m name 0]
  by (simp add: xfs_hashname_def visited_all) (simp add: xfs.hash_def)

text \<open>A change of one visited byte is a list update.\<close>

lemma mem_bytes_upd:
  assumes "j < n" and "n \<le> 2 ^ 32"
  shows "mem_bytes (m(a + of_nat j := c)) a n = (mem_bytes m a n)[j := c]"
proof (rule nth_equalityI)
  fix i assume "i < length (mem_bytes (m(a + of_nat j := c)) a n)"
  then have "i < n" by simp
  then show "mem_bytes (m(a + of_nat j := c)) a n ! i = (mem_bytes m a n)[j := c] ! i"
    using assms of_nat_u32_eq_iff [of i j] by (auto simp: nth_mem_bytes nth_list_update)
qed simp

lemma visited_split:
  "j < n \<Longrightarrow> \<not> (skip \<and> (j = 2 \<or> j = 3)) \<Longrightarrow>
    visited m data skip 0 n = visited m data skip 0 j @ m (data + of_nat j) # visited m data skip (Suc j) n"
proof -
  assume j: "j < n" "\<not> (skip \<and> (j = 2 \<or> j = 3))"
  then have "[0..<n] = [0..<j] @ j # [Suc j..<n]"
    using upt_add_eq_append [of 0 j "n - j"] by (simp add: upt_conv_Cons)
  with j(2) show ?thesis by (simp add: visited_def)
qed

lemma visited_other:
  assumes "\<And>j. j \<in> {lo..<hi} \<Longrightarrow> \<not> (skip \<and> (j = 2 \<or> j = 3)) \<Longrightarrow> m' (data + of_nat j) = m (data + of_nat j)"
  shows "visited m' data skip lo hi = visited m data skip lo hi"
  using assms by (auto simp: visited_def)

lemma exfat_single_byte:
  assumes "j < unat len" and "\<not> (skip \<and> (j = 2 \<or> j = 3))"
  shows "exfat_rolling_checksum (m(data + of_nat j := c)) data len skip = exfat_rolling_checksum m data len skip
    \<longleftrightarrow> c = m (data + of_nat j)"
proof -
  let ?m = "m(data + of_nat j := c)"
  have other: "?m (data + of_nat i) = m (data + of_nat i)" if "i \<noteq> j" "i < unat len" for i
    using that of_nat_u32_eq_iff [OF less_unat_u32 less_unat_u32, OF that(2) assms(1)] by simp
  have "visited ?m data skip 0 j = visited m data skip 0 j"
    "visited ?m data skip (Suc j) (unat len) = visited m data skip (Suc j) (unat len)"
    using other assms(1) by (auto intro!: visited_other simp del: fun_upd_apply)
  then have "visited ?m data skip 0 (unat len) = visited m data skip 0 j @ c # visited m data skip (Suc j) (unat len)"
    by (simp add: visited_split [OF assms])
  then show ?thesis
    unfolding exfat_rolling_checksum_eq by (simp add: visited_split [OF assms] exfat.hash_single_byte)
qed

section \<open>CRC\<close>

text \<open>
  One bit of the CRC shifts the state and feeds the polynomial back when the mixed bit is set; with the
  top bit of the polynomial set, the mixed bit can be read off the result.
\<close>

definition crc_feed :: "u32 \<Rightarrow> u32 \<Rightarrow> bool \<Rightarrow> u32" where
  "crc_feed poly p mix = drop_bit 1 p XOR (if mix then poly else 0)"

fun crc_mixes :: "nat \<Rightarrow> u32 \<Rightarrow> u32 \<Rightarrow> u32 \<Rightarrow> bool list" where
  "crc_mixes 0 poly b p = []"
| "crc_mixes (Suc n) poly b p =
     (let mix = (bit p 0 \<noteq> bit b 0) in mix # crc_mixes n poly (drop_bit 1 b) (crc_feed poly p mix))"

lemma mix_bit: "(p XOR b) AND 1 \<noteq> 0 \<longleftrightarrow> bit p 0 \<noteq> bit b 0" for p b :: u32
  by (simp add: and_one_eq bit_0 even_xor_iff flip: odd_iff_mod_2_eq_one) 

lemma crc32_bits_feed: "crc32_bits n poly b p = foldl (crc_feed poly) p (crc_mixes n poly b p)"
proof (induction n arbitrary: b p)
  case (Suc n)
  then show ?case by (simp only: crc32_bits.simps crc_mixes.simps Let_def mix_bit foldl.simps crc_feed_def)
    (simp add: crc_feed_def)
qed simp

lemma crc_feeds_inj:
  assumes top: "bit poly 31"
  shows "length xs = length ys \<Longrightarrow> k + length xs \<le> 32 \<Longrightarrow>
    (\<forall>i \<ge> k. bit (foldl (crc_feed poly) p xs) i = bit (foldl (crc_feed poly) q ys) i) \<Longrightarrow> xs = ys"
proof (induction xs arbitrary: ys k rule: rev_induct)
  case (snoc x xs)
  then obtain y zs where ys: "ys = zs @ [y]" "length xs = length zs"
    by (cases ys rule: rev_exhaust) auto
  let ?p = "foldl (crc_feed poly) p xs" and ?q = "foldl (crc_feed poly) q zs"
  have eq: "bit (crc_feed poly ?p x) i = bit (crc_feed poly ?q y) i" if "k \<le> i" for i
    using snoc.prems(3) that by (simp add: ys)
  have high: "\<not> bit (u :: u32) 32" for u using bit_imp_le_length [of u 32] by auto
  from eq [of 31] snoc.prems(2) top have xy: "x = y"
    by (simp add: crc_feed_def bit_xor_iff bit_drop_bit_eq high split: if_splits)
  have "bit ?p i = bit ?q i" if "Suc k \<le> i" for i
  proof -
    have "k \<le> i - 1" using that by simp
    from eq [OF this] that show ?thesis by (auto simp: xy crc_feed_def bit_xor_iff bit_drop_bit_eq)
  qed
  then have "xs = zs" using snoc.IH [OF ys(2), of "Suc k"] snoc.prems(2) by simp
  with ys xy show ?case by simp
qed simp

lemma length_crc_mixes [simp]: "length (crc_mixes n poly b p) = n"
  by (induction n arbitrary: b p) (simp_all add: Let_def)

lemma crc_mixes_byte: "crc_mixes n poly b p = crc_mixes n poly b' p \<Longrightarrow> i < n \<Longrightarrow> bit b i = bit b' i"
proof (induction n arbitrary: b b' p i)
  case (Suc n)
  then have e0: "bit b 0 = bit b' 0" by (auto simp: Let_def)
  with Suc.prems(1) have "crc_mixes n poly (drop_bit 1 b) (crc_feed poly p (bit p 0 \<noteq> bit b 0)) =
      crc_mixes n poly (drop_bit 1 b') (crc_feed poly p (bit p 0 \<noteq> bit b 0))" by (simp add: Let_def)
  from Suc.IH [OF this, of "i - 1"] Suc.prems(2) e0 show ?case
    by (cases i) (simp_all add: bit_drop_bit_eq)
qed simp

lemma crc_mixes_state:
  assumes "bit poly 31"
  shows "foldl (crc_feed poly) p (crc_mixes n poly b p) = foldl (crc_feed poly) q (crc_mixes n poly b q) \<Longrightarrow> p = q"
proof (induction n arbitrary: b p q)
  case (Suc n)
  let ?x = "bit p 0 \<noteq> bit b 0" and ?y = "bit q 0 \<noteq> bit b 0"
  have "crc_feed poly p ?x = crc_feed poly q ?y"
    by (rule Suc.IH) (use Suc.prems in \<open>simp only: crc_mixes.simps Let_def foldl.simps\<close>)
  then have eq: "bit (crc_feed poly p ?x) i = bit (crc_feed poly q ?y) i" for i by simp
  have high: "\<not> bit (u :: u32) 32" for u using bit_imp_le_length [of u 32] by auto
  from eq [of 31] assms have xy: "?x = ?y"
    by (simp add: crc_feed_def bit_xor_iff bit_drop_bit_eq high split: if_splits)
  show ?case
  proof (rule bit_word_eqI)
    fix i
    show "bit p i = bit q i"
      using eq [of "i - 1"] xy by (cases i) (auto simp: crc_feed_def bit_xor_iff bit_drop_bit_eq)
  qed
qed simp

lemma crc_byte_hash: "bit poly 31 \<Longrightarrow> byte_hash (\<lambda>p b. crc32_bits 8 poly (ucast b) p)"
proof
  assume top: "bit poly 31"
  show "s = s'" if "crc32_bits 8 poly (ucast b) s = crc32_bits 8 poly (ucast b) s'" for s s' and b :: u8
    using that unfolding crc32_bits_feed by (rule crc_mixes_state [OF top])
  show "b = b'" if "crc32_bits 8 poly (ucast b) s = crc32_bits 8 poly (ucast b') s" for s and b b' :: u8
  proof -
    have "crc_mixes 8 poly (ucast b) s = crc_mixes 8 poly (ucast b') s"
      using that unfolding crc32_bits_feed
      by (intro crc_feeds_inj [OF top, of _ _ 0 s s]) (simp_all only: length_crc_mixes, simp_all)
    then have "bit (ucast b :: u32) i = bit (ucast b' :: u32) i" if "i < 8" for i
      using crc_mixes_byte that by blast
    then show ?thesis by (intro bit_word_eqI) (simp add: bit_ucast_iff)
  qed
qed

text \<open>The CRC polynomial of the Ethernet and ZIP formats.\<close>

interpretation crc32: byte_hash "\<lambda>p b. crc32_bits 8 0xEDB88320 (ucast b) p"
  by (rule crc_byte_hash) simp

lemma crc32_update_hash: "bit poly 31 \<Longrightarrow> crc32_update p poly bs = byte_hash.hash (\<lambda>p b. crc32_bits 8 poly (ucast b) p) p bs"
  by (induction bs arbitrary: p) (simp_all add: byte_hash.hash_def [OF crc_byte_hash])

lemma crc32_update_append: "crc32_update p poly (xs @ ys) = crc32_update (crc32_update p poly xs) poly ys"
  by (induction xs arbitrary: p) simp_all

lemma crc32_update_state: "bit poly 31 \<Longrightarrow> crc32_update p poly bs = crc32_update q poly bs \<Longrightarrow> p = q"
  using byte_hash.hash_state [OF crc_byte_hash] by (simp add: crc32_update_hash)

text \<open>The mixed bits of a whole byte string; 32 of them determine the string.\<close>

fun crc_string :: "u32 \<Rightarrow> u8 list \<Rightarrow> u32 \<Rightarrow> bool list" where
  "crc_string poly [] p = []"
| "crc_string poly (b # bs) p =
     crc_mixes 8 poly (ucast b) p @ crc_string poly bs (crc32_bits 8 poly (ucast b) p)"

lemma length_crc_string [simp]: "length (crc_string poly bs p) = 8 * length bs"
  by (induction bs arbitrary: p) simp_all

lemma crc32_update_feed: "crc32_update p poly bs = foldl (crc_feed poly) p (crc_string poly bs p)"
  by (induction bs arbitrary: p) (simp_all only: crc32_update.simps crc_string.simps foldl_append foldl.simps crc32_bits_feed)

lemma crc_string_inj: "length xs = length ys \<Longrightarrow> crc_string poly xs p = crc_string poly ys p \<Longrightarrow> xs = ys"
proof (induction xs arbitrary: ys p)
  case (Cons a xs)
  then obtain b zs where ys: "ys = b # zs" "length xs = length zs" by (cases ys) auto
  note split = iffD1 [OF append_eq_append_conv [OF disjI1], rotated, OF Cons.prems(2) [unfolded ys(1) crc_string.simps]]
  have mixes: "crc_mixes 8 poly (ucast a) p = crc_mixes 8 poly (ucast b) p"
    and rest: "crc_string poly xs (crc32_bits 8 poly (ucast a) p) = crc_string poly zs (crc32_bits 8 poly (ucast b) p)"
    using split by (simp_all only: length_crc_mixes)
  from mixes have "bit (ucast a :: u32) i = bit (ucast b :: u32) i" if "i < 8" for i
    using crc_mixes_byte that by blast
  then have ab: "a = b" by (intro bit_word_eqI) (simp add: bit_ucast_iff)
  then have "xs = zs" using Cons.IH [OF ys(2)] rest by blast
  with ab ys show ?case by simp
qed simp

section \<open>Properties\<close>

text \<open>C35: The CRC can be computed piece by piece, and for a reflected polynomial with its top bit set it
  notices every error burst of up to four bytes: two strings that differ only inside four consecutive bytes
  have different CRCs.\<close>

theorem crc32_detects_bursts:
  assumes "bit poly 31" and "length as = length bs" and "length as \<le> 4"
  shows "crc32_update p poly (xs @ as @ ys) = crc32_update (crc32_update p poly (xs @ as)) poly ys
    \<and> (crc32_update p poly (xs @ as @ ys) = crc32_update p poly (xs @ bs @ ys) \<longleftrightarrow> as = bs)"
proof -
  let ?q = "crc32_update p poly xs"
  have "as = bs" if "crc32_update p poly (xs @ as @ ys) = crc32_update p poly (xs @ bs @ ys)"
  proof -
    have "crc32_update ?q poly as = crc32_update ?q poly bs"
      using that crc32_update_state [OF assms(1)] by (simp add: crc32_update_append)
    then have "crc_string poly as ?q = crc_string poly bs ?q"
      using assms(2,3) by (intro crc_feeds_inj [OF assms(1), of _ _ 0 ?q ?q]) (simp_all add: crc32_update_feed [symmetric])
    then show ?thesis by (rule crc_string_inj [OF assms(2)])
  qed
  then show ?thesis by (auto simp: crc32_update_append)
qed

theorem crc32_detects_bursts_witness:
  "crc32_update 0xFFFFFFFF 0xEDB88320 ([1, 2] @ [3, 4, 5, 6] @ [7]) \<noteq> crc32_update 0xFFFFFFFF 0xEDB88320 ([1, 2] @ [3, 9, 5, 6] @ [7])"
  using crc32_detects_bursts [of "0xEDB88320" "[3, 4, 5, 6]" "[3, 9, 5, 6]" "0xFFFFFFFF" "[1, 2]" "[7]"] by simp

text \<open>C37: Computing and storing the exFAT SetChecksum gives a directory entry set whose checksum field holds
  its checksum and whose checksum is unchanged by the store; changing any other single byte of the set
  changes the checksum.\<close>

theorem set_checksum_valid:
  assumes "calculate_set_checksum_field buf len m = (s, m')"
  shows "load_u16 m' (buf + 2) = s \<and> calculate_set_checksum_field_sum m' buf len = s
    \<and> (\<forall>j c. j < unat len \<and> j \<noteq> 2 \<and> j \<noteq> 3 \<and> c \<noteq> m' (buf + of_nat j) \<longrightarrow>
         calculate_set_checksum_field_sum (m'(buf + of_nat j := c)) buf len \<noteq> s)"
proof -
  have s: "s = calculate_set_checksum_field_sum m buf len" and m': "m' = store_u16 (buf + 2) s m"
    using assms by (auto simp: calculate_set_checksum_field_def Let_def)
  have "m' (buf + of_nat j) = m (buf + of_nat j)" if "j < unat len" "j \<noteq> 2" "j \<noteq> 3" for j
    using that less_unat_u32 [OF that(1)] of_nat_u32_eq_iff [of j 2] of_nat_u32_eq_iff [of j 3]
    unfolding m' by (intro store_u16_other) (simp_all add: add.assoc)
  then have "visited m' buf True 0 (unat len) = visited m buf True 0 (unat len)"
    by (intro visited_other) auto
  then have same: "calculate_set_checksum_field_sum m' buf len = s"
    by (simp add: s calculate_set_checksum_field_sum_def exfat_rolling_checksum_eq)
  have "load_u16 m' (buf + 2) = s" by (simp add: m' mem_simps)
  moreover have "calculate_set_checksum_field_sum (m'(buf + of_nat j := c)) buf len \<noteq> s"
    if "j < unat len" "j \<noteq> 2" "j \<noteq> 3" "c \<noteq> m' (buf + of_nat j)" for j c
    using exfat_single_byte [of j len True m' buf c] that same by (simp add: calculate_set_checksum_field_sum_def)
  ultimately show ?thesis using same by blast
qed

theorem set_checksum_valid_witness:
  "\<exists>s m'. calculate_set_checksum_field 0x1000 64 (\<lambda>_. 0x85) = (s, m') \<and> calculate_set_checksum_field_sum m' 0x1000 64 = s"
proof -
  obtain s m' where e: "calculate_set_checksum_field 0x1000 64 (\<lambda>_. 0x85) = (s, m')" by fastforce
  with set_checksum_valid [OF e] show ?thesis by blast
qed

text \<open>The exFAT name hash and the XFS name hash are the folds of their byte steps over the name, and each
  of them changes whenever a single byte of the name changes.\<close>

theorem name_hashes_detect:
  assumes "j < unat len"
  shows "exfat_hash_calculate m name len = foldl exfat_step 0 (mem_bytes m name (unat len))
    \<and> xfs_hashname m name len = foldl xfs_step 0 (mem_bytes m name (unat len))
    \<and> (exfat_hash_calculate (m(name + of_nat j := c)) name len = exfat_hash_calculate m name len \<longleftrightarrow> c = m (name + of_nat j))
    \<and> (xfs_hashname (m(name + of_nat j := c)) name len = xfs_hashname m name len \<longleftrightarrow> c = m (name + of_nat j))"
proof -
  have "mem_bytes (m(name + of_nat j := c)) name (unat len) = (mem_bytes m name (unat len))[j := c]"
    using assms by (intro mem_bytes_upd) (simp_all add: less_imp_le)
  then have "xfs_hashname (m(name + of_nat j := c)) name len = xfs_hashname m name len \<longleftrightarrow> c = m (name + of_nat j)"
    using assms by (simp add: xfs_hashname_eq xfs.hash_update nth_mem_bytes)
  then show ?thesis
    using exfat_single_byte [of j len False m name c] assms
    by (simp add: exfat_hash_calculate_def exfat_rolling_checksum_eq visited_all xfs_hashname_eq
        exfat.hash_def xfs.hash_def)
qed

theorem name_hashes_detect_witness:
  "xfs_hashname ((\<lambda>_. 65)(0x1000 + of_nat 3 := 66)) 0x1000 8 \<noteq> xfs_hashname (\<lambda>_. 65) 0x1000 8"
  using name_hashes_detect [of 3 8 "\<lambda>_. 65" "0x1000" 66] by auto

end
