(* ===== verification/Inet_Checksum.thy ===== *)
theory Inet_Checksum
  imports Prelude
begin

text \<open>
  The Internet checksum of the network stack, \<^verbatim>\<open>checksum.rs\<close>. \<^verbatim>\<open>checksum_1\<close> adds the
  bytes of a buffer into the low half of a 32-bit register, a byte at a time through the carry flag,
  eight bytes per round; \<^verbatim>\<open>checksum_2\<close> folds the register to 16 bits and complements it. The
  specification is the sum of the big-endian 16-bit words modulo 65535.
\<close>

section \<open>Model\<close>

definition add_dl :: "u32 \<Rightarrow> u8 \<Rightarrow> bool \<Rightarrow> u32 \<times> bool" where
  "add_dl s b carry_in =
     (let t = (ucast (s AND 0xFF) :: u16) + ucast b + (if carry_in then 1 else 0)
      in ((s AND NOT 0xFF) OR ucast (ucast t :: u8), t > 0xFF))"

definition adc_dh :: "u32 \<Rightarrow> u8 \<Rightarrow> bool \<Rightarrow> u32 \<times> bool" where
  "adc_dh s b carry_in =
     (let t = (ucast (drop_bit 8 s AND 0xFF) :: u16) + ucast b + (if carry_in then 1 else 0)
      in ((s AND NOT 0xFF00) OR push_bit 8 (ucast (ucast t :: u8)), t > 0xFF))"

definition adc_edx :: "u32 \<Rightarrow> bool \<Rightarrow> u32 \<times> bool" where
  "adc_edx s carry_in = (if \<not> carry_in then (s, False) else (s + 1, s + 1 < s))"

definition rem_4 :: "mem \<Rightarrow> u32 \<Rightarrow> u32 \<Rightarrow> bool \<Rightarrow> u32 \<times> u32" where
  "rem_4 m s ptr do_it =
     (if \<not> do_it then (s, ptr)
      else
        let (s, cf) = add_dl s (m (ptr + 1)) False;
            (s, cf) = adc_dh s (m ptr) cf;
            (s, cf) = add_dl s (m (ptr + 3)) cf;
            (s, cf) = adc_dh s (m (ptr + 2)) cf;
            (s, _) = adc_edx s cf
        in (s, ptr + 4))"

definition rem_2 :: "mem \<Rightarrow> u32 \<Rightarrow> u32 \<Rightarrow> bool \<Rightarrow> u32 \<times> u32" where
  "rem_2 m s ptr do_it =
     (if \<not> do_it then (s, ptr)
      else
        let (s, cf) = add_dl s (m (ptr + 1)) False;
            (s, cf) = adc_dh s (m ptr) cf;
            (s, _) = adc_edx s cf
        in (s, ptr + 2))"

definition finish_odd :: "mem \<Rightarrow> u32 \<Rightarrow> u32 \<Rightarrow> bool \<Rightarrow> u32" where
  "finish_odd m s ptr do_it =
     (if \<not> do_it then s
      else
        let t = (ucast (drop_bit 8 s AND 0xFF) :: u16) + ucast (m ptr);
            s = (s AND NOT 0xFF00) OR push_bit 8 (ucast (ucast t :: u8))
        in fst (adc_edx s (t > 0xFF)))"

text \<open>The main loop, eight bytes per round.\<close>

function qword_loop :: "mem \<Rightarrow> u32 \<Rightarrow> u32 \<Rightarrow> u32 \<Rightarrow> u32 \<times> bool \<times> u32" where
  "qword_loop m s ptr ecx =
     (let (s, cf) = add_dl s (m (ptr + 1)) False;
          (s, cf) = adc_dh s (m ptr) cf;
          (s, cf) = add_dl s (m (ptr + 3)) cf;
          (s, cf) = adc_dh s (m (ptr + 2)) cf;
          (s, cf) = add_dl s (m (ptr + 5)) cf;
          (s, cf) = adc_dh s (m (ptr + 4)) cf;
          (s, cf) = add_dl s (m (ptr + 7)) cf;
          (s, cf) = adc_dh s (m (ptr + 6)) cf;
          (s, cf) = adc_edx s cf;
          ptr = ptr + 8
      in if ecx - 1 = 0 then (s, cf, ptr) else qword_loop m s ptr (ecx - 1))"
  by pat_completeness auto
termination
  by (relation "measure (\<lambda>(m, s, ptr, ecx). unat (ecx - 1))") (simp_all add: unat_dec2_less)

declare qword_loop.simps [simp del]

definition checksum_1 :: "u32 \<Rightarrow> mem \<Rightarrow> u32 \<Rightarrow> u32 \<Rightarrow> u32" where
  "checksum_1 s m data len =
     (let ptr = data;
          cf_odd = (len AND 1 \<noteq> 0);
          words = drop_bit 1 len
      in if words = 0 then finish_odd m s ptr cf_odd
         else
           let cf_2 = (words AND 1 \<noteq> 0);
               dwords = drop_bit 1 words
           in if dwords = 0 then
                let (s, ptr) = rem_2 m s ptr cf_2 in finish_odd m s ptr cf_odd
              else
                let cf_4 = (dwords AND 1 \<noteq> 0);
                    qwords = drop_bit 1 dwords;
                    (s, ptr) =
                      (if qwords \<noteq> 0 then
                         let (s, cf, ptr) = qword_loop m s ptr qwords;
                             (s, _) = adc_edx s cf
                         in (s, ptr)
                       else (s, ptr));
                    (s, ptr) = rem_4 m s ptr cf_4;
                    (s, ptr) = rem_2 m s ptr cf_2
                in finish_odd m s ptr cf_odd)"

definition checksum_2 :: "u32 \<Rightarrow> u32" where
  "checksum_2 s =
     (let edx = (s AND 0xFFFF) + drop_bit 16 s;
          dx = (ucast edx :: u16) + ucast (drop_bit 16 edx);
          was_zero = (dx = 0);
          dx = NOT dx;
          dx = (if was_zero then dx - 1 else dx);
          dx = word_rotl 8 dx
      in ucast dx)"

section \<open>Adding a 16-bit word with carry\<close>

lemma byte_masks: "(0xFF :: u32) = mask 8" "(0xFF00 :: u32) = push_bit 8 (mask 8)"
  by (simp_all add: mask_eq_exp_minus_1)

lemma carry_le_1: "(if c then 1 else 0 :: nat) \<le> 1"
  by simp

lemma add_dl_le32:
  "add_dl (le32 l h x y) b c =
     (le32 (l + b + (if c then 1 else 0)) h x y, 255 < unat l + unat b + (if c then 1 else 0))"
proof -
  let ?c = "if c then 1 else 0 :: nat"
  define t where "t = (ucast l :: u16) + ucast b + (if c then 1 else 0)"
  have lo: "ucast (le32 l h x y AND 0xFF) = (ucast l :: u16)"
    unfolding byte_masks by (rule bit_word_eqI) (auto simp: bit_simps dest: bit_imp_le_length)
  have rep: "(le32 l h x y AND NOT 0xFF) OR ucast v = le32 v h x y" for v :: u8
    unfolding byte_masks by (rule u32_eq_listI) (simp add: bit_simps bit_le32 bit_u8_high)
  have "t = of_nat (unat l + unat b + ?c)" by (simp add: t_def)
  moreover have "unat l + unat b + ?c < 65536" using unat_u8 [of l] unat_u8 [of b] carry_le_1 [of c] by linarith
  ultimately have t: "unat t = unat l + unat b + ?c" by (simp only: unat_of_nat_u16)
  have "(ucast t :: u8) = l + b + (if c then 1 else 0)"
  proof -
    have "(ucast (of_nat (unat l + unat b + ?c) :: u16) :: u8) = of_nat (unat l + unat b + ?c)"
      by (rule ucast_of_nat_down) simp
    then show ?thesis by (simp add: \<open>t = of_nat (unat l + unat b + ?c)\<close>)
  qed
  moreover have "t > 0xFF \<longleftrightarrow> 255 < unat l + unat b + ?c" by (simp add: word_less_nat_alt t)
  ultimately show ?thesis
    by (simp add: add_dl_def Let_def lo rep [simplified] t_def [symmetric])
qed

lemma adc_dh_le32:
  "adc_dh (le32 l h x y) b c =
     (le32 l (h + b + (if c then 1 else 0)) x y, 255 < unat h + unat b + (if c then 1 else 0))"
proof -
  let ?c = "if c then 1 else 0 :: nat"
  define t where "t = (ucast h :: u16) + ucast b + (if c then 1 else 0)"
  have lo: "ucast (drop_bit 8 (le32 l h x y) AND 0xFF) = (ucast h :: u16)"
    unfolding byte_masks by (rule bit_word_eqI) (auto simp: bit_simps dest: bit_imp_le_length)
  have rep: "(le32 l h x y AND NOT 0xFF00) OR push_bit 8 (ucast v) = le32 l v x y" for v :: u8
    unfolding byte_masks by (rule u32_eq_listI) (simp add: bit_simps bit_le32 bit_u8_high)
  have e: "t = of_nat (unat h + unat b + ?c)" by (simp add: t_def)
  moreover have "unat h + unat b + ?c < 65536" using unat_u8 [of h] unat_u8 [of b] carry_le_1 [of c] by linarith
  ultimately have t: "unat t = unat h + unat b + ?c" by (simp only: unat_of_nat_u16)
  have "(ucast (of_nat (unat h + unat b + ?c) :: u16) :: u8) = of_nat (unat h + unat b + ?c)"
    by (rule ucast_of_nat_down) simp
  then have "(ucast t :: u8) = h + b + (if c then 1 else 0)" by (simp add: e)
  moreover have "t > 0xFF \<longleftrightarrow> 255 < unat h + unat b + ?c" by (simp add: word_less_nat_alt t)
  ultimately show ?thesis
    by (simp add: adc_dh_def Let_def lo rep [simplified] t_def [symmetric])
qed

text \<open>A low byte and a high byte added in turn: a 16-bit addition that leaves the upper half alone.\<close>

definition add_word :: "u32 \<Rightarrow> u8 \<Rightarrow> u8 \<Rightarrow> bool \<Rightarrow> u32 \<times> bool" where
  "add_word s b0 b1 c = (let (s, cf) = add_dl s b1 c in adc_dh s b0 cf)"

lemma unat_add_u8: "unat (a + b + (if c then 1 else 0)) =
    (let n = unat a + unat b + (if c then 1 else 0) in if 255 < n then n - 256 else n)" for a b :: u8
proof -
  define n where "n = unat a + unat b + (if c then 1 else 0 :: nat)"
  have n: "n < 512" using unat_u8 [of a] unat_u8 [of b] carry_le_1 [of c] unfolding n_def by linarith
  have "a + b + (if c then 1 else 0) = of_nat n" by (simp add: n_def)
  then have "unat (a + b + (if c then 1 else 0)) = n mod 256" by (simp add: unat_of_nat)
  also have "\<dots> = (if 255 < n then n - 256 else n)" using n by (auto simp: mod_if)
  finally show ?thesis by (simp add: n_def Let_def)
qed

lemma add_word_value:
  assumes "add_word s b0 b1 c = (s', c')"
  shows "unat s' + 65536 * (if c' then 1 else 0) = unat s + 256 * unat b0 + unat b1 + (if c then 1 else 0)"
    and "unat s' div 65536 = unat s div 65536"
proof -
  obtain l h x y where s: "s = le32 l h x y" by (rule le32_cases)
  define d where "d = (255 < unat l + unat b1 + (if c then 1 else 0 :: nat))"
  define l' where "l' = l + b1 + (if c then 1 else 0)"
  define h' where "h' = h + b0 + (if d then 1 else 0)"
  have e: "s' = le32 l' h' x y" "c' = (255 < unat h + unat b0 + (if d then 1 else 0 :: nat))"
    using assms by (simp_all add: add_word_def s add_dl_le32 adc_dh_le32 d_def l'_def h'_def Let_def split: prod.splits)
  have ul: "unat l' + 256 * (if d then 1 else 0) = unat l + unat b1 + (if c then 1 else 0)"
    unfolding l'_def unat_add_u8 Let_def d_def by auto
  have uh: "unat h' + 256 * (if c' then 1 else 0) = unat h + unat b0 + (if d then 1 else 0)"
    unfolding h'_def e(2) unat_add_u8 Let_def by auto
  show "unat s' + 65536 * (if c' then 1 else 0) = unat s + 256 * unat b0 + unat b1 + (if c then 1 else 0)"
    using ul uh unfolding e(1) s unat_le32 by (cases d; cases c; cases c') simp_all
  have hi: "unat (le32 a b x y) div 65536 = unat x + 256 * unat y" for a b
  proof -
    have "unat a + 256 * unat b < 65536" using unat_u8 [of a] unat_u8 [of b] by linarith
    then show ?thesis unfolding unat_le32 by (intro div_nat_eqI) auto
  qed
  show "unat s' div 65536 = unat s div 65536" unfolding e(1) s hi ..
qed


lemma add_word_fold:
  "(case add_dl s b1 c of (s, cf) \<Rightarrow> case adc_dh s b0 cf of (s, cf) \<Rightarrow> f s cf) =
   (case add_word s b0 b1 c of (s, cf) \<Rightarrow> f s cf)"
  by (simp add: add_word_def split: prod.split)

lemma adc_edx_value:
  assumes "unat s div 65536 < 65535" and "adc_edx s c = (s', c')"
  shows "unat s' = unat s + (if c then 1 else 0)" and "\<not> c'"
proof -
  have "unat s < 4294901760" using assms(1) by (simp add: div_less_iff_less_mult)
  then have u: "unat (s + 1) = unat s + 1"
    by (subst unat_plus_if_size) (simp add: word_size)
  show "unat s' = unat s + (if c then 1 else 0)"
    using assms(2) u by (auto simp: adc_edx_def split: if_splits)
  show "\<not> c'"
    using assms(2) u by (auto simp: adc_edx_def word_less_nat_alt split: if_splits)
qed

text \<open>
  \<open>adds s w s'\<close>: the register went from \<open>s\<close> to \<open>s'\<close> while the words \<open>w\<close> were added, the upper half
  growing by at most one.
\<close>

definition adds :: "u32 \<Rightarrow> nat \<Rightarrow> u32 \<Rightarrow> bool" where
  "adds s w s' \<longleftrightarrow> unat s' mod 65535 = (unat s + w) mod 65535 \<and> unat s' div 65536 \<le> unat s div 65536 + 1"

lemma mod_end_around: "(a + 65535 * k) mod 65535 = a mod 65535" for a k :: nat
  by simp

lemma adds_close:
  assumes "unat s div 65536 < 65535" and "adc_edx s1 c = (s', c')"
    and val: "unat s1 + 65536 * (if c then 1 else 0) + 65535 * k = unat s + w"
    and up: "unat s1 div 65536 = unat s div 65536"
  shows "adds s w s'" and "\<not> c'"
proof -
  note e = adc_edx_value [OF assms(1) [folded up] assms(2)]
  show "\<not> c'" by (rule e(2))
  have "unat s' + 65535 * ((if c then 1 else 0) + k) = unat s + w"
    using val unfolding e(1) by (cases c) simp_all
  then have "unat s' mod 65535 = (unat s + w) mod 65535" by (metis mod_end_around)
  moreover have "unat s' div 65536 \<le> unat s div 65536 + 1"
  proof -
    have "unat s' \<le> unat s1 + 65536" unfolding e(1) by simp
    then have "unat s' div 65536 \<le> (unat s1 + 65536) div 65536" by (rule div_le_mono)
    moreover have "(unat s1 + 65536) div 65536 = unat s1 div 65536 + 1" by (rule div_add_self2) simp
    ultimately show ?thesis by (simp only: up)
  qed
  ultimately show "adds s w s'" by (simp add: adds_def)
qed

definition word_at :: "mem \<Rightarrow> u32 \<Rightarrow> nat" where
  "word_at m p = 256 * unat (m p) + unat (m (p + 1))"

lemma rem_2_adds:
  assumes "unat s div 65536 < 65535" and "rem_2 m s p True = (s', p')"
  shows "adds s (word_at m p) s'" and "p' = p + 2"
proof -
  obtain s1 c1 where 1: "add_word s (m p) (m (p + 1)) False = (s1, c1)" by fastforce
  obtain s2 c2 where 2: "adc_edx s1 c1 = (s2, c2)" by fastforce
  have r: "s' = s2" "p' = p + 2"
    using assms(2) by (simp_all add: rem_2_def Let_def add_word_fold 1 2)
  show "p' = p + 2" by (rule r(2))
  show "adds s (word_at m p) s'" unfolding r
    using add_word_value [OF 1] by (intro adds_close(1) [OF assms(1) 2, of 0]) (simp_all add: word_at_def)
qed

lemma rem_4_adds:
  assumes "unat s div 65536 < 65535" and "rem_4 m s p True = (s', p')"
  shows "adds s (word_at m p + word_at m (p + 2)) s'" and "p' = p + 4"
proof -
  obtain s1 c1 where 1: "add_word s (m p) (m (p + 1)) False = (s1, c1)" by fastforce
  obtain s2 c2 where 2: "add_word s1 (m (p + 2)) (m (p + 3)) c1 = (s2, c2)" by fastforce
  obtain s3 c3 where 3: "adc_edx s2 c2 = (s3, c3)" by fastforce
  have r: "s' = s3" "p' = p + 4"
    using assms(2) by (simp_all add: rem_4_def Let_def add_word_fold 1 2 3)
  show "p' = p + 4" by (rule r(2))
  note v = add_word_value [OF 1] add_word_value [OF 2]
  have "unat s2 + 65536 * (if c2 then 1 else 0) + 65535 * (if c1 then 1 else 0)
      = unat s + (word_at m p + word_at m (p + 2))"
    using v(1,3) by (cases c1) (simp_all add: word_at_def add.assoc)
  then show "adds s (word_at m p + word_at m (p + 2)) s'" unfolding r
    by (rule adds_close(1) [OF assms(1) 3]) (simp add: v(2,4))
qed

lemma finish_odd_adds:
  assumes "unat s div 65536 < 65535"
  shows "adds s (256 * unat (m p)) (finish_odd m s p True)"
proof -
  obtain s1 c1 where 1: "add_word s (m p) 0 False = (s1, c1)" by fastforce
  obtain s2 c2 where 2: "adc_edx s1 c1 = (s2, c2)" by fastforce
  have "add_dl s 0 False = (s, False)"
  proof -
    obtain l h x y where "s = le32 l h x y" by (rule le32_cases)
    moreover have "\<not> 255 < unat l" using unat_u8 [of l] by linarith
    ultimately show ?thesis by (simp add: add_dl_le32)
  qed
  then have "adc_dh s (m p) False = (s1, c1)" using 1 by (simp add: add_word_def)
  then have "finish_odd m s p True = s2"
    using 2 by (simp add: finish_odd_def adc_dh_def Let_def)
  then show ?thesis
    using add_word_value [OF 1] by (simp, intro adds_close(1) [OF assms 2, of 0]) simp_all
qed

section \<open>The running sum\<close>

text \<open>The specification: the sum of the big-endian words, a last odd byte padded with zero.\<close>

fun inet_sum :: "u8 list \<Rightarrow> nat" where
  "inet_sum [] = 0"
| "inet_sum [b] = 256 * unat b"
| "inet_sum (b0 # b1 # bs) = 256 * unat b0 + unat b1 + inet_sum bs"

lemma inet_sum_append: "even (length xs) \<Longrightarrow> inet_sum (xs @ ys) = inet_sum xs + inet_sum ys"
  by (induction xs rule: inet_sum.induct) simp_all


lemma inet_sum_mem:
  "inet_sum (mem_bytes m p (Suc (Suc n))) = word_at m p + inet_sum (mem_bytes m (p + 2) n)"
  by (simp add: word_at_def add.commute [of 2])

lemma inet_sum_mem_8:
  "inet_sum (mem_bytes m p (8 + n)) =
     word_at m p + word_at m (p + 2) + word_at m (p + 4) + word_at m (p + 6) + inet_sum (mem_bytes m (p + 8) n)"
proof -
  have "8 + n = Suc (Suc (Suc (Suc (Suc (Suc (Suc (Suc n)))))))" by simp
  then show ?thesis by (simp only: inet_sum_mem) (simp add: add.assoc)
qed

text \<open>\<open>summed s bs k s'\<close>: the register went from \<open>s\<close> to \<open>s'\<close> over the bytes \<open>bs\<close> with at most \<open>k\<close> carries out.\<close>

definition summed :: "u32 \<Rightarrow> u8 list \<Rightarrow> nat \<Rightarrow> u32 \<Rightarrow> bool" where
  "summed s bs k s' \<longleftrightarrow> unat s' mod 65535 = (unat s + inet_sum bs) mod 65535 \<and>
     unat s' div 65536 \<le> unat s div 65536 + k"

lemma summed_refl: "summed s [] 0 s"
  by (simp add: summed_def)

lemma summed_adds: "adds s (inet_sum bs) s' \<Longrightarrow> summed s bs 1 s'"
  by (simp add: summed_def adds_def)

lemma summed_trans:
  assumes "summed s xs k s1" and "summed s1 ys j s2" and "even (length xs)"
  shows "summed s (xs @ ys) (k + j) s2"
proof -
  have "unat s2 mod 65535 = (unat s1 + inet_sum ys) mod 65535" using assms(2) by (simp add: summed_def)
  also have "\<dots> = (unat s + inet_sum xs + inet_sum ys) mod 65535"
    using assms(1) unfolding summed_def by (intro mod_add_cong) simp_all
  finally show ?thesis using assms by (simp add: summed_def inet_sum_append add.assoc)
qed

lemma summed_upper: "summed s bs k s' \<Longrightarrow> unat s div 65536 + k < n \<Longrightarrow> unat s' div 65536 < n"
  by (simp add: summed_def)

lemma summed_mono: "summed s bs k s' \<Longrightarrow> k \<le> j \<Longrightarrow> summed s bs j s'"
  by (simp add: summed_def)

lemma qword_round:
  assumes "unat s div 65536 < 65535"
    and 1: "add_word s (m p) (m (p + 1)) False = (s1, c1)"
    and 2: "add_word s1 (m (p + 2)) (m (p + 3)) c1 = (s2, c2)"
    and 3: "add_word s2 (m (p + 4)) (m (p + 5)) c2 = (s3, c3)"
    and 4: "add_word s3 (m (p + 6)) (m (p + 7)) c3 = (s4, c4)"
    and 5: "adc_edx s4 c4 = (s5, c5)"
  shows "summed s (mem_bytes m p 8) 1 s5" and "\<not> c5"
proof -
  note v = add_word_value [OF 1] add_word_value [OF 2] add_word_value [OF 3] add_word_value [OF 4]
  have w: "word_at m (p + 2) = 256 * unat (m (p + 2)) + unat (m (p + 3))"
    "word_at m (p + 4) = 256 * unat (m (p + 4)) + unat (m (p + 5))"
    "word_at m (p + 6) = 256 * unat (m (p + 6)) + unat (m (p + 7))"
    by (simp_all add: word_at_def add.commute [of _ p])
  define k :: "bool \<Rightarrow> nat" where "k c = (if c then 1 else 0)" for c
  have "inet_sum (mem_bytes m (p + 8) 0) = 0" "k False = 0" by (simp_all add: k_def)
  then have "unat s4 + 65536 * k c4 + 65535 * (k c1 + k c2 + k c3) = unat s + inet_sum (mem_bytes m p (8 + 0))"
    using v(1,3,5,7) [folded k_def] unfolding inet_sum_mem_8 w word_at_def [of m p] distrib_left by linarith
  then have "unat s4 + 65536 * (if c4 then 1 else 0) +
      65535 * ((if c1 then 1 else 0) + (if c2 then 1 else 0) + (if c3 then 1 else 0))
      = unat s + inet_sum (mem_bytes m p 8)" by (simp only: add_0_right k_def)
  note c = adds_close [OF assms(1) 5 this]
  show "summed s (mem_bytes m p 8) 1 s5" by (rule summed_adds, rule c(1)) (simp add: v(2,4,6,8))
  show "\<not> c5" by (rule c(2)) (simp add: v(2,4,6,8))
qed

lemma qword_loop_summed:
  assumes "ecx \<noteq> 0" and "unat s div 65536 + unat ecx < 65536"
    and "qword_loop m s p ecx = (s', cf, p')"
  shows "summed s (mem_bytes m p (8 * unat ecx)) (unat ecx) s' \<and> \<not> cf \<and> p' = p + 8 * ecx"
  using assms
proof (induction "unat ecx" arbitrary: s p ecx)
  case 0
  then show ?case by (simp add: unat_eq_zero)
next
  case (Suc n)
  obtain s1 c1 where 1: "add_word s (m p) (m (p + 1)) False = (s1, c1)" by fastforce
  obtain s2 c2 where 2: "add_word s1 (m (p + 2)) (m (p + 3)) c1 = (s2, c2)" by fastforce
  obtain s3 c3 where 3: "add_word s2 (m (p + 4)) (m (p + 5)) c2 = (s3, c3)" by fastforce
  obtain s4 c4 where 4: "add_word s3 (m (p + 6)) (m (p + 7)) c3 = (s4, c4)" by fastforce
  obtain s5 c5 where 5: "adc_edx s4 c4 = (s5, c5)" by fastforce
  have "unat s div 65536 < 65535" using Suc.prems(2) Suc.hyps(2) by linarith
  note r = qword_round [OF this 1 2 3 4 5]
  have u: "qword_loop m s p ecx =
      (if ecx - 1 = 0 then (s5, c5, p + 8) else qword_loop m s5 (p + 8) (ecx - 1))"
    by (subst qword_loop.simps) (simp only: Let_def add_word_fold 1 2 3 4 5 prod.case)
  show ?case
  proof (cases "ecx - 1 = 0")
    case True
    then have "ecx = 1" by simp
    moreover have "(s5, c5, p + 8) = (s', cf, p')" using Suc.prems(3) unfolding u by (simp only: True if_True simp_thms)
    ultimately show ?thesis using r by simp
  next
    case False
    have n: "n = unat (ecx - 1)" using Suc.hyps(2) Suc.prems(1) by (simp add: unat_dec)
    have "unat s5 div 65536 + unat (ecx - 1) < 65536"
      using r(1) Suc.prems(2) Suc.hyps(2) unfolding n summed_def by linarith
    then have ih: "summed s5 (mem_bytes m (p + 8) (8 * unat (ecx - 1))) (unat (ecx - 1)) s' \<and> \<not> cf \<and> p' = p + 8 + 8 * (ecx - 1)"
      using Suc.prems(3) False unfolding u by (intro Suc.hyps(1) [OF n]) (simp_all only: if_False simp_thms)
    have "mem_bytes m p (8 * unat ecx) = mem_bytes m p 8 @ mem_bytes m (p + 8) (8 * unat (ecx - 1))"
      using mem_bytes_append [of m p 8 "8 * unat (ecx - 1)"] by (simp add: n Suc.hyps(2) [symmetric])
    moreover have "summed s (mem_bytes m p 8 @ mem_bytes m (p + 8) (8 * unat (ecx - 1))) (1 + unat (ecx - 1)) s'"
      using ih by (intro summed_trans [OF r(1)]) simp_all
    moreover have "1 + unat (ecx - 1) = unat ecx" using Suc.hyps(2) n by simp
    ultimately show ?thesis using ih by (simp add: algebra_simps)
  qed
qed


text \<open>The remainders of four, two and one bytes, in the order \<^verbatim>\<open>checksum_1\<close> takes them.\<close>

definition sum_tail :: "mem \<Rightarrow> u32 \<Rightarrow> u32 \<Rightarrow> bool \<Rightarrow> bool \<Rightarrow> bool \<Rightarrow> u32" where
  "sum_tail m s p b4 b2 b1 =
     (let (s, p) = rem_4 m s p b4; (s, p) = rem_2 m s p b2 in finish_odd m s p b1)"

definition count_of :: "nat \<Rightarrow> bool \<Rightarrow> nat" where
  "count_of k b = (if b then k else 0)"

lemma rem_4_summed:
  assumes "unat s div 65536 < 65535" and "rem_4 m s p b = (s', p')"
  shows "summed s (mem_bytes m p (count_of 4 b)) 1 s'" and "p' = p + of_nat (count_of 4 b)"
proof -
  have 4: "mem_bytes m p 4 = mem_bytes m p (Suc (Suc (Suc (Suc 0))))" by (simp add: numeral_eq_Suc)
  have sum: "inet_sum (mem_bytes m p 4) = word_at m p + word_at m (p + 2)"
    unfolding 4 by (simp only: inet_sum_mem) simp
  show "summed s (mem_bytes m p (count_of 4 b)) 1 s'"
  proof (cases b)
    case True
    with rem_4_adds(1) [of s m p s' p'] assms show ?thesis
      by (simp add: count_of_def) (rule summed_adds [simplified], simp add: sum)
  qed (use assms in \<open>simp add: rem_4_def count_of_def summed_def\<close>)
  show "p' = p + of_nat (count_of 4 b)"
    using rem_4_adds(2) [OF assms(1), of m p s' p'] assms(2) by (cases b) (simp_all add: count_of_def rem_4_def)
qed

lemma rem_2_summed:
  assumes "unat s div 65536 < 65535" and "rem_2 m s p b = (s', p')"
  shows "summed s (mem_bytes m p (count_of 2 b)) 1 s'" and "p' = p + of_nat (count_of 2 b)"
proof -
  have 2: "mem_bytes m p 2 = mem_bytes m p (Suc (Suc 0))" by (simp add: numeral_eq_Suc)
  have sum: "inet_sum (mem_bytes m p 2) = word_at m p"
    unfolding 2 by (simp only: inet_sum_mem) simp
  show "summed s (mem_bytes m p (count_of 2 b)) 1 s'"
  proof (cases b)
    case True
    with rem_2_adds(1) [of s m p s' p'] assms show ?thesis
      by (simp add: count_of_def) (rule summed_adds [simplified], simp add: sum)
  qed (use assms in \<open>simp add: rem_2_def count_of_def summed_def\<close>)
  show "p' = p + of_nat (count_of 2 b)"
    using rem_2_adds(2) [OF assms(1), of m p s' p'] assms(2) by (cases b) (simp_all add: count_of_def rem_2_def)
qed

lemma finish_odd_summed:
  assumes "unat s div 65536 < 65535"
  shows "summed s (mem_bytes m p (count_of 1 b)) 1 (finish_odd m s p b)"
proof (cases b)
  case True
  with summed_adds [of s "[m p]"] finish_odd_adds [OF assms] show ?thesis by (simp add: count_of_def)
qed (simp add: finish_odd_def count_of_def summed_def)

lemma sum_tail_summed:
  assumes "unat s div 65536 + 3 < 65536"
  shows "summed s (mem_bytes m p (count_of 4 b4 + count_of 2 b2 + count_of 1 b1)) 3 (sum_tail m s p b4 b2 b1)"
proof -
  obtain s1 p1 where 1: "rem_4 m s p b4 = (s1, p1)" by fastforce
  obtain s2 p2 where 2: "rem_2 m s1 p1 b2 = (s2, p2)" by fastforce
  have r1: "summed s (mem_bytes m p (count_of 4 b4)) 1 s1" "p1 = p + of_nat (count_of 4 b4)"
    using rem_4_summed [OF _ 1] assms by simp_all
  have u1: "unat s1 div 65536 + 2 < 65536" using r1(1) assms by (simp add: summed_def)
  have r2: "summed s1 (mem_bytes m p1 (count_of 2 b2)) 1 s2" "p2 = p1 + of_nat (count_of 2 b2)"
    using rem_2_summed [OF _ 2] u1 by simp_all
  have u2: "unat s2 div 65536 < 65535" using r2(1) u1 by (simp add: summed_def)
  note r3 = finish_odd_summed [OF u2, of m p2 b1]
  have "summed s (mem_bytes m p (count_of 4 b4) @ (mem_bytes m p1 (count_of 2 b2) @ mem_bytes m p2 (count_of 1 b1))) (1 + (1 + 1)) (finish_odd m s2 p2 b1)"
    using summed_trans [OF r1(1) summed_trans [OF r2(1) r3]] by (simp add: count_of_def)
  moreover have "sum_tail m s p b4 b2 b1 = finish_odd m s2 p2 b1" by (simp add: sum_tail_def 1 2)
  ultimately show ?thesis
    by (simp add: mem_bytes_append r1(2) r2(2) numeral_3_eq_3 add.assoc)
qed

lemma checksum_1_eq:
  "checksum_1 s m data len =
     (let q = drop_bit 3 len;
          (s, p) = (if q \<noteq> 0 then let (s, cf, p) = qword_loop m s data q in (fst (adc_edx s cf), p) else (s, data))
      in sum_tail m s p (bit len 2) (bit len 1) (bit len 0))"
proof -
  have f: "drop_bit k len AND 1 \<noteq> 0 \<longleftrightarrow> bit len k" for k
    by (simp add: bit_iff_odd_drop_bit and_one_eq odd_iff_mod_2_eq_one)
  have f0: "len AND 1 \<noteq> 0 \<longleftrightarrow> bit len 0" using f [of 0] by simp
  have z: "\<not> bit len j \<and> drop_bit j len = 0" if "drop_bit k len = 0" "k \<le> j" for k j
  proof -
    have "drop_bit j len = drop_bit (j - k) (drop_bit k len)" using that(2) by (simp add: drop_bit_drop_bit)
    with that(1) have "drop_bit j len = 0" by simp
    then show ?thesis by (simp add: bit_iff_odd_drop_bit)
  qed
  have d: "drop_bit 1 (drop_bit 1 len) = drop_bit 2 len" "drop_bit 1 (drop_bit 2 len) = drop_bit 3 len"
    by (simp_all only: drop_bit_drop_bit one_add_one numeral_plus_one one_plus_numeral) simp_all
  show ?thesis
    using z [of 1 1] z [of 1 2] z [of 1 3] z [of 2 2] z [of 2 3]
    by (cases "drop_bit 1 len = 0"; cases "drop_bit 2 len = 0")
      (simp_all only: checksum_1_def sum_tail_def Let_def d f f0 rem_4_def [of _ _ _ False] rem_2_def [of _ _ _ False], auto simp: Let_def split: prod.splits)
qed

lemma u32_low_bits: "unat len = 8 * unat (drop_bit 3 len) + (count_of 4 (bit len 2) + count_of 2 (bit len 1) + count_of 1 (bit len 0))"
  for len :: u32
proof -
  define n where "n = unat len"
  have b: "bit len k \<longleftrightarrow> odd (n div 2 ^ k)" if "k < 32" for k
    using that by (simp add: n_def bit_iff_odd [symmetric] bit_unsigned_iff)
  have "n = 8 * (n div 8) + (4 * (n div 4 mod 2) + 2 * (n div 2 mod 2) + n mod 2)"
    using mult_div_mod_eq [of 2 n] mult_div_mod_eq [of 2 "n div 2"] mult_div_mod_eq [of 2 "n div 4"]
    unfolding div_mult2_eq [of n 2 2, simplified, symmetric] div_mult2_eq [of n 4 2, simplified, symmetric] by linarith
  moreover have "count_of 4 (bit len 2) = 4 * (n div 4 mod 2)" "count_of 2 (bit len 1) = 2 * (n div 2 mod 2)"
    "count_of 1 (bit len 0) = n mod 2"
    by (simp_all add: count_of_def b [of 2] b [of 1, simplified] b [of 0] mod_2_eq_odd)
  moreover have "unat (drop_bit 3 len) = n div 8"
    unfolding n_def unat_drop_bit_eq by (simp add: drop_bit_eq_div)
  ultimately show ?thesis by (simp only: n_def)
qed

lemma checksum_1_value:
  assumes "unat s div 65536 + unat len div 8 + 3 < 65536"
  shows "unat (checksum_1 s m data len) mod 65535 = (unat s + inet_sum (mem_bytes m data (unat len))) mod 65535"
proof -
  define q where "q = drop_bit 3 len"
  define t where "t = count_of 4 (bit len 2) + count_of 2 (bit len 1) + count_of 1 (bit len 0)"
  have len: "unat len = 8 * unat q + t" unfolding q_def t_def by (rule u32_low_bits)
  have q: "unat q = unat len div 8" unfolding q_def unat_drop_bit_eq by (simp add: drop_bit_eq_div)
  obtain s1 p1 where 1: "(if q \<noteq> 0 then case qword_loop m s data q of (s, cf, p) \<Rightarrow> (fst (adc_edx s cf), p) else (s, data)) = (s1, p1)"
    by fastforce
  have r1: "summed s (mem_bytes m data (8 * unat q)) (unat q) s1 \<and> p1 = data + of_nat (8 * unat q)"
  proof (cases "q = 0")
    case False
    obtain s' cf p' where l: "qword_loop m s data q = (s', cf, p')" using prod_cases3 by blast
    have "unat s div 65536 + unat q < 65536" using assms q by linarith
    from qword_loop_summed [OF False this l] 1 False l show ?thesis by (simp add: adc_edx_def)
  qed (use 1 in \<open>simp add: summed_refl\<close>)
  have e: "checksum_1 s m data len = sum_tail m s1 p1 (bit len 2) (bit len 1) (bit len 0)"
    by (simp only: checksum_1_eq Let_def q_def [symmetric] 1 prod.case)
  have "unat s1 div 65536 + 3 < 65536" using r1 assms q by (simp add: summed_def)
  from sum_tail_summed [OF this, of m p1 "bit len 2" "bit len 1" "bit len 0"]
  have "summed s (mem_bytes m data (8 * unat q) @ mem_bytes m p1 t) (unat q + 3) (checksum_1 s m data len)"
    using r1 unfolding e t_def by (intro summed_trans [of _ _ _ s1]) simp_all
  then show ?thesis using r1 by (simp add: summed_def len mem_bytes_append)
qed

lemma ucast_u16_mod: "unat (ucast x :: u16) = unat x mod 65536" for x :: u32
  by (simp add: unsigned_ucast_eq take_bit_eq_mod)

lemma unat_drop_16: "unat (drop_bit 16 x) = unat x div 65536" for x :: u32
  by (simp add: unat_drop)

lemma fold_halves_mod: "(n mod 65536 + n div 65536) mod 65535 = n mod 65535" for n :: nat
proof -
  have "n = n mod 65536 + n div 65536 + 65535 * (n div 65536)"
    using mult_div_mod_eq [of 65536 n] by linarith
  then show ?thesis by (metis mod_end_around)
qed

definition fold_sum :: "u32 \<Rightarrow> u16" where
  "fold_sum s = (let edx = (s AND 0xFFFF) + drop_bit 16 s in ucast edx + ucast (drop_bit 16 edx))"

lemma fold_sum:
  "unat (fold_sum s) mod 65535 = unat s mod 65535" "fold_sum s = 0 \<longleftrightarrow> s = 0"
proof -
  define n where "n = unat s"
  define edx where "edx = (s AND 0xFFFF) + drop_bit 16 s"
  define e where "e = n mod 65536 + n div 65536"
  have n: "n < 4294967296" unfolding n_def by simp
  have "n mod 65536 < 65536" "n div 65536 < 65536" using n by (simp_all add: div_less_iff_less_mult)
  then have e: "e \<le> 131070" unfolding e_def by linarith
  have "s AND 0xFFFF = of_nat (n mod 65536)"
  proof -
    have "s AND 0xFFFF = take_bit 16 s" by (simp add: take_bit_eq_mask mask_eq_exp_minus_1)
    moreover have "take_bit 16 s = of_nat (take_bit 16 n)" using take_bit_of_nat [of 16 n, where 'a = u32] by (simp add: n_def)
    ultimately show ?thesis by (simp add: take_bit_eq_mod)
  qed
  moreover have "drop_bit 16 s = of_nat (n div 65536)"
    by (simp add: unat_drop_16 [symmetric] n_def)
  ultimately have "edx = of_nat e" by (simp add: edx_def e_def)
  then have ue: "unat edx = e" using e by (simp add: unat_of_nat)
  have le: "e mod 65536 + e div 65536 \<le> 65535"
  proof (cases "e < 65536")
    case False
    then have "e div 65536 = 1" using e by (intro div_nat_eqI) simp_all
    then show ?thesis using mult_div_mod_eq [of 65536 e] e by linarith
  qed simp
  have "fold_sum s = of_nat (e mod 65536) + of_nat (e div 65536)"
    using ucast_u16_mod [of edx] ue unfolding fold_sum_def Let_def edx_def [symmetric]
    by (metis unat_drop_16 of_nat_unat ucast_id)
  then have "fold_sum s = of_nat (e mod 65536 + e div 65536)" by simp
  then have u: "unat (fold_sum s) = e mod 65536 + e div 65536"
    using le by (simp only: unat_of_nat_u16)
  show "unat (fold_sum s) mod 65535 = unat s mod 65535"
    unfolding u fold_halves_mod by (simp only: e_def fold_halves_mod n_def)
  have "fold_sum s = 0 \<longleftrightarrow> e mod 65536 + e div 65536 = 0" unfolding u [symmetric] by (rule unat_eq_zero [symmetric])
  also have "\<dots> \<longleftrightarrow> e = 0" by (auto simp: div_eq_0_iff)
  also have "\<dots> \<longleftrightarrow> n = 0" by (auto simp: e_def div_eq_0_iff)
  finally show "fold_sum s = 0 \<longleftrightarrow> s = 0" by (simp add: n_def unat_eq_zero)
qed

lemma unat_not_u16: "unat (NOT x) + unat x = 65535" for x :: u16
proof -
  have "NOT x = 65535 - x" by (simp add: not_eq_complement)
  moreover have "x \<le> 65535" using unat_u16 [of x] unfolding word_le_nat_alt by (simp del: unat_u16)
  ultimately show ?thesis by (simp add: unat_sub word_le_nat_alt)
qed

lemma swap16_twice: "word_rotl 8 (ucast (ucast (word_rotl 8 x) :: u32) :: u16) = x" for x :: u16
proof -
  have "(ucast (ucast (word_rotl 8 x) :: u32) :: u16) = word_rotl 8 x"
    by (rule bit_word_eqI) (simp add: bit_simps)
  moreover have "word_rotl 8 (word_rotl 8 x) = x"
    by (rule bit_word_eqI) (simp add: bit_word_rotl_iff mod_add_left_eq)
  ultimately show ?thesis by simp
qed

lemma checksum_2_complements:
  assumes "s \<noteq> 0"
  shows "(unat s + unat (word_rotl 8 (ucast (checksum_2 s) :: u16))) mod 65535 = 0"
proof -
  have "checksum_2 s = ucast (word_rotl 8 (NOT (fold_sum s)))"
    using assms fold_sum(2) [of s] by (simp add: checksum_2_def fold_sum_def Let_def)
  then have "word_rotl 8 (ucast (checksum_2 s) :: u16) = NOT (fold_sum s)"
    by (simp add: swap16_twice)
  moreover have "(unat s + unat (NOT (fold_sum s))) mod 65535 = (unat (fold_sum s) + unat (NOT (fold_sum s))) mod 65535"
    by (rule mod_add_cong) (simp_all add: fold_sum(1))
  moreover have "unat (fold_sum s) + unat (NOT (fold_sum s)) = 65535" using unat_not_u16 [of "fold_sum s"] by linarith
  ultimately show ?thesis by simp
qed

lemma checksum_2_zero: "checksum_2 0 = 0xFEFF" 
  by code_simp


lemma mem_bytes_store_u16:
  assumes "k + 2 \<le> n" and "n < 2 ^ 32"
  shows "mem_bytes (store_u16 (a + of_nat k) v m) a n =
     mem_bytes m a k @ [byte 0 v, byte 1 v] @ mem_bytes m (a + of_nat k + 2) (n - k - 2)"
proof -
  have ne: "of_nat i \<noteq> (of_nat k :: u32)" "of_nat i \<noteq> (of_nat (Suc k) :: u32)"
    if "i < n" "i < k \<or> k + 2 \<le> i" for i
    using of_nat_u32_eq_iff [of i k] of_nat_u32_eq_iff [of i "Suc k"] assms that by (auto simp del: of_nat_Suc)
  let ?m = "store_u16 (a + of_nat k) v m"
  have other: "?m (a + of_nat i) = m (a + of_nat i)" if "i < n" "i < k \<or> k + 2 \<le> i" for i
    using ne [OF that] by (intro store_u16_other) (simp_all add: algebra_simps)
  have n: "n = k + (2 + (n - k - 2))" using assms(1) by simp
  have "mem_bytes ?m a n = mem_bytes ?m a k @ mem_bytes ?m (a + of_nat k) 2 @ mem_bytes ?m (a + of_nat k + of_nat 2) (n - k - 2)"
    by (subst n) (simp only: mem_bytes_append)
  moreover have "mem_bytes ?m a k = mem_bytes m a k"
    using assms(1) by (intro mem_bytes_cong other) simp_all
  moreover have "mem_bytes ?m (a + of_nat k) 2 = [byte 0 v, byte 1 v]"
    by (simp add: numeral_2_eq_2 store_u16_def)
  moreover have "mem_bytes ?m (a + of_nat k + of_nat 2) (n - k - 2) = mem_bytes m (a + of_nat k + of_nat 2) (n - k - 2)"
    using assms(1) other [of "k + 2 + i" for i]
    by (intro mem_bytes_cong) (simp add: algebra_simps)
  ultimately show ?thesis by simp
qed

lemma word_rotl_bytes: "unat (word_rotl 8 v) = 256 * unat (byte 0 v) + unat (byte 1 v)" for v :: u16
proof -
  have "word_rotl 8 v = le16 (byte 1 v) (byte 0 v)"
  proof (rule bit_word_eqI)
    fix n assume "n < LENGTH(16)"
    then have "(n + 8) mod 16 = (if n < 8 then 8 + n else n - 8)" by (auto simp: mod_if)
    then show "bit (word_rotl 8 v) n = bit (le16 (byte 1 v) (byte 0 v)) n"
      using \<open>n < LENGTH(16)\<close> by (simp add: bit_word_rotl_iff bit_simps) linarith
  qed
  then show ?thesis by (simp add: unat_le16)
qed



definition packet_witness :: mem where
  "packet_witness a = (if a = 2 \<or> a = 3 then 0 else ucast a + 0xF0)"



end
