(* ===== verification/Gates.thy ===== *)
theory Gates
  imports Scan
begin

text \<open>
  The checks between user programs and the kernel: the region and string gates of
  \<^verbatim>\<open>userspace.rs\<close>, the buffer gate of the file system calls in \<^verbatim>\<open>fs_operation_safe.rs\<close> and
  the program header check of \<^verbatim>\<open>app_header.rs\<close>. A gate answers 1 (accept) or 0 (refuse).
  \<open>region_gate\<close> is the contract of a region check; both copies of it in the source satisfy it.
\<close>

section \<open>Model\<close>

subsection \<open>\<^verbatim>\<open>userspace.rs\<close>\<close>

definition OS_BASE :: u32 where "OS_BASE = 0x80000000"

definition OS_BASE_M1 :: u32 where "OS_BASE_M1 = 0x7FFFFFFF"

definition STRING_USERSPACE_MAX :: u32 where "STRING_USERSPACE_MAX = 0x10000"

definition is_region_userspace :: "u32 \<Rightarrow> u32 \<Rightarrow> u32" where
  "is_region_userspace base len =
     (if base > OS_BASE_M1 then 0
      else
        let s = base + len; carry = (s < base)
        in if carry then if s = 0 then 1 else 0
           else if s > OS_BASE then 0
           else 1)"

definition trampoline_zf_from_rust_return :: "u32 \<Rightarrow> bool" where
  "trampoline_zf_from_rust_return rust_ret \<longleftrightarrow> rust_ret = 1"

function string_scan :: "mem \<Rightarrow> u32 \<Rightarrow> u32 \<Rightarrow> u32 \<Rightarrow> u32" where
  "string_scan m edi ecx i =
     (if i < ecx then if m edi = 0 then 1 else string_scan m (edi + 1) ecx (i + 1) else 0)"
  by pat_completeness auto
termination
  by (relation "measure (\<lambda>(m, edi, ecx, i). unat ecx - unat i)") (simp_all add: unat_gap_less)

declare string_scan.simps [simp del]

definition is_string_userspace :: "mem \<Rightarrow> u32 \<Rightarrow> u32" where
  "is_string_userspace m base =
     (if base > OS_BASE_M1 then 0
      else
        let ecx = OS_BASE - base;
            ecx = (if ecx > STRING_USERSPACE_MAX then STRING_USERSPACE_MAX else ecx)
        in string_scan m base ecx 0)"

subsection \<open>\<^verbatim>\<open>fs_operation_safe.rs\<close>\<close>

definition BDVK_CP866 :: u32 where "BDVK_CP866 = 304"
definition BDVK_UNICODE :: u32 where "BDVK_UNICODE = 560"
definition BDVK_HEADER :: u32 where "BDVK_HEADER = 32"
definition SUBFN5_LEN :: u32 where "SUBFN5_LEN = 40"
definition SUBFN6_LEN :: u32 where "SUBFN6_LEN = 32"

definition fs_op_safe_buffer_len_ex :: "u32 \<Rightarrow> u32 \<Rightarrow> u32 \<Rightarrow> bool \<times> u32" where
  "fs_op_safe_buffer_len_ex subfn encoding count_or_size =
     (if subfn = 0 then (True, count_or_size)
      else if subfn = 1 then
        let bdvk = (if encoding \<le> 1 then BDVK_CP866 else BDVK_UNICODE)
        in (True, bdvk * count_or_size + BDVK_HEADER)
      else if subfn \<le> 3 then (True, count_or_size)
      else if subfn = 5 then (True, SUBFN5_LEN)
      else if subfn = 6 then (True, SUBFN6_LEN)
      else (False, 0))"

definition fs_op_safe_buffer_len :: "u32 \<Rightarrow> u32 \<Rightarrow> u32 \<Rightarrow> u32 option" where
  "fs_op_safe_buffer_len subfn encoding count_or_size =
     (let (known, len) = fs_op_safe_buffer_len_ex subfn encoding count_or_size
      in if known then Some len else None)"

definition region_gate_zf :: "u32 \<Rightarrow> u32 \<Rightarrow> u32" where
  "region_gate_zf base len =
     (if base > OS_BASE_M1 then 0
      else
        let s = base + len; carry = (s < base)
        in if carry then if s = 0 then 1 else 0
           else if s > OS_BASE then 0
           else 1)"

definition file_system_is_operation_safe :: "mem \<Rightarrow> u32 \<Rightarrow> u32" where
  "file_system_is_operation_safe m info =
     (let subfn = load_u32 m (info + 0);
          encoding = load_u32 m (info + 8);
          count_or_size = load_u32 m (info + 12);
          base = load_u32 m (info + 16);
          (known, len) = fs_op_safe_buffer_len_ex subfn encoding count_or_size
      in if \<not> known then 1 else region_gate_zf base len)"

definition make_inf :: "u32 \<Rightarrow> u32 \<Rightarrow> u32 \<Rightarrow> u32 \<Rightarrow> u8 list" where
  "make_inf subfn encoding count_or_size base =
     (let buf = replicate 20 0;
          put = (\<lambda>buf off (v :: u32). buf[off := byte 0 v, off + 1 := byte 1 v, off + 2 := byte 2 v, off + 3 := byte 3 v]);
          buf = put buf 0 subfn;
          buf = put buf 8 encoding;
          buf = put buf 12 count_or_size
      in put buf 16 base)"

subsection \<open>\<^verbatim>\<open>app_header.rs\<close>\<close>

definition MAGIC_MENU :: u32 where "MAGIC_MENU = 0x554E454D"
definition MAGIC_ET :: u16 where "MAGIC_ET = 0x5445"
definition MAGIC_01 :: u16 where "MAGIC_01 = 0x3130"
definition MAGIC_02 :: u16 where "MAGIC_02 = 0x3230"

definition test_app_header :: "u32 \<Rightarrow> u32 \<Rightarrow> u32 \<Rightarrow> mem \<Rightarrow> u32 \<times> mem" where
  "test_app_header header app_hdr pages_free m =
     (let menu = load_u32 m (header + 0)
      in if menu \<noteq> MAGIC_MENU then (0, m)
      else let et = load_u16 m (header + 4)
      in if et \<noteq> MAGIC_ET then (0, m)
      else let ver = load_u16 m (header + 6)
      in if ver \<noteq> MAGIC_01 \<and> ver \<noteq> MAGIC_02 then (0, m)
      else
        let start = load_u32 m (header + 12);
            m = store_u32 (app_hdr + 0x08) start m;
            mem_size = load_u32 m (header + 20);
            i_end = load_u32 m (header + 16)
        in if mem_size < i_end then (0, m)
        else if mem_size \<ge> OS_BASE then (0, m)
        else let pages_bytes = push_bit 12 pages_free
        in if mem_size \<ge> pages_bytes then (0, m)
        else
          let stack_top = load_u32 m (header + 24);
              i_param = load_u32 m (header + 28);
              i_icon = load_u32 m (header + 32);
              m = store_u32 (app_hdr + 0x14) mem_size m;
              m = store_u32 (app_hdr + 0x0C) stack_top m;
              m = store_u32 (app_hdr + 0x00) i_param m;
              m = store_u32 (app_hdr + 0x04) i_icon m;
              m = store_u32 (app_hdr + 0x10) i_end m
          in (header, m))"

section \<open>The region gate\<close>

text \<open>
  Contract of a region check: it accepts exactly the regions that end at or below \<^verbatim>\<open>OS_BASE\<close> and those
  that end at the very top of the address space.
\<close>

locale region_gate =
  fixes gate :: "u32 \<Rightarrow> u32 \<Rightarrow> u32"
  assumes gate_01: "gate base len = 0 \<or> gate base len = 1"
    and gate_iff: "gate base len = 1 \<longleftrightarrow> unat base < 2 ^ 31 \<and>
       (unat base + unat len \<le> 2 ^ 31 \<or> unat base + unat len = 2 ^ 32)"
begin

text \<open>Every byte of an accepted region is below \<^verbatim>\<open>OS_BASE\<close>, unless the region ends at the top.\<close>

lemma accepted_below:
  assumes "gate base len = 1" and "unat base + unat len \<noteq> 2 ^ 32" and "i < unat len"
  shows "base + of_nat i < OS_BASE"
proof -
  have le: "unat base + unat len \<le> 2 ^ 31" using assms(1,2) gate_iff by blast
  then have lt: "unat base + i < 2 ^ 31" using assms(3) by linarith
  have "base + of_nat i = of_nat (unat base + i)" by simp
  moreover have "unat (of_nat (unat base + i) :: u32) = unat base + i"
    using lt by (intro unat_of_nat_u32) simp
  ultimately have "unat (base + of_nat i) < 2 ^ 31" using lt by metis
  then show ?thesis by (simp add: OS_BASE_def word_less_nat_alt)
qed

lemma refused_above:
  assumes "i < unat len" and "\<not> base + of_nat i < OS_BASE"
    and "unat base + unat len < 2 ^ 32"
  shows "gate base len = 0"
  using accepted_below [of base len i] gate_01 [of base len] assms by auto

end

lemma region_check_iff:
  "(if base > OS_BASE_M1 then 0 else
      let s = base + len; carry = (s < base)
      in if carry then if s = 0 then 1 else 0 else if s > OS_BASE then 0 else 1) = (1 :: u32) \<longleftrightarrow>
   unat base < 2 ^ 31 \<and> (unat base + unat len \<le> 2 ^ 31 \<or> unat base + unat len = 2 ^ 32)"
proof (cases "unat base < 2 ^ 31")
  case True
  have b: "\<not> base > OS_BASE_M1" using True by (simp add: OS_BASE_M1_def word_less_nat_alt)
  have l: "unat len < 2 ^ 32" by simp
  show ?thesis
  proof (cases "unat base + unat len < 2 ^ 32")
    case True
    then have u: "unat (base + len) = unat base + unat len" by (simp add: unat_plus_if_size word_size)
    then have "\<not> base + len < base" by (simp add: word_less_nat_alt)
    with b u \<open>unat base < 2 ^ 31\<close> True show ?thesis
      by (auto simp: Let_def OS_BASE_def word_less_nat_alt)
  next
    case False
    then have u: "unat (base + len) = unat base + unat len - 2 ^ 32" by (simp add: unat_plus_if_size word_size)
    then have "base + len < base" using False l unfolding word_less_nat_alt by (simp only: u)
    moreover have "base + len = 0 \<longleftrightarrow> unat base + unat len = 2 ^ 32" using u False by (simp add: unat_eq_zero [symmetric])
    ultimately show ?thesis using b False True by (auto simp: Let_def)
  qed
qed (simp add: OS_BASE_M1_def word_less_nat_alt)

interpretation sys_gate: region_gate is_region_userspace
  unfolding is_region_userspace_def
  by unfold_locales (simp add: Let_def, rule region_check_iff)

interpretation fs_gate: region_gate region_gate_zf
  unfolding region_gate_zf_def
  by unfold_locales (simp add: Let_def, rule region_check_iff)


definition in_user_space :: "u32 \<Rightarrow> nat \<Rightarrow> bool" where
  "in_user_space base n \<longleftrightarrow> (\<forall>i < n. base + of_nat i < OS_BASE)"

lemma in_user_space_iff:
  assumes "0 < n" and "n < 2 ^ 32"
  shows "in_user_space base n \<longleftrightarrow> unat base + n \<le> 2 ^ 31"
proof
  assume all: "in_user_space base n"
  have "base < OS_BASE" using all assms(1) by (auto simp: in_user_space_def)
  then have b: "unat base < 2 ^ 31" by (simp add: OS_BASE_def word_less_nat_alt)
  show "unat base + n \<le> 2 ^ 31"
  proof (rule ccontr)
    assume "\<not> unat base + n \<le> 2 ^ 31"
    then have "2 ^ 31 - unat base < n" using b by linarith
    with all have "base + of_nat (2 ^ 31 - unat base) < OS_BASE" by (simp add: in_user_space_def)
    moreover have "base + of_nat (2 ^ 31 - unat base) = of_nat (unat base + (2 ^ 31 - unat base))" by simp
    ultimately show False using b by (simp add: OS_BASE_def)
  qed
next
  assume le: "unat base + n \<le> 2 ^ 31"
  show "in_user_space base n" unfolding in_user_space_def
  proof (intro allI impI)
    fix i assume "i < n"
    with le have lt: "unat base + i < 2 ^ 31" by linarith
    then have "unat (of_nat (unat base + i) :: u32) = unat base + i" by (intro unat_of_nat_u32) simp
    with lt show "base + of_nat i < OS_BASE" by (simp add: OS_BASE_def word_less_nat_alt)
  qed
qed



section \<open>The string gate\<close>

interpretation string_walk: indexed_scan
  "\<lambda>i. string_scan m (base + i) ecx i" "\<lambda>i. m (base + i) = 0" "\<lambda>i. 1" 0 ecx for m base ecx
  by unfold_locales (subst string_scan.simps, simp add: add.assoc)

lemma string_scan_iff: "string_scan m base ecx 0 = 1 \<longleftrightarrow> (\<exists>n < unat ecx. m (base + of_nat n) = 0)"
proof -
  have e: "string_scan m base ecx 0 =
      (case find (\<lambda>n. m (base + of_nat n) = 0) [0..<unat ecx] of Some n \<Rightarrow> 1 | None \<Rightarrow> 0)"
    using string_walk.scan_all [of m base ecx] by simp
  show ?thesis
  proof (cases "find (\<lambda>n. m (base + of_nat n) = 0) [0..<unat ecx]")
    case None
    then show ?thesis using None [unfolded find_None_iff] by (auto simp: e None)
  next
    case (Some n)
    then show ?thesis using Some [unfolded find_upt_Some] by (auto simp: e Some)
  qed
qed

text \<open>C23: The string gate accepts a pointer exactly when a zero byte follows it within 65536 bytes and
  before \<^verbatim>\<open>OS_BASE\<close>; the string it accepts lies in user space, its terminator included.\<close>

theorem string_gate_exact:
  "is_string_userspace m base = 1 \<longleftrightarrow>
     (\<exists>n < 65536. m (base + of_nat n) = 0 \<and> in_user_space base (n + 1))"
proof (cases "unat base < 2 ^ 31")
  case False
  then have "\<not> in_user_space base (n + 1)" if "n < 65536" for n
    using in_user_space_iff [of "n + 1" base] that by simp
  with False show ?thesis by (auto simp: is_string_userspace_def OS_BASE_M1_def word_less_nat_alt)
next
  case True
  define ecx where "ecx = (if OS_BASE - base > STRING_USERSPACE_MAX then STRING_USERSPACE_MAX else OS_BASE - base)"
  have "unat (OS_BASE - base) = 2 ^ 31 - unat base"
    using True by (simp add: OS_BASE_def unat_sub word_le_nat_alt)
  then have ecx: "unat ecx = min 65536 (2 ^ 31 - unat base)"
    by (auto simp: ecx_def STRING_USERSPACE_MAX_def word_less_nat_alt)
  have "is_string_userspace m base = string_scan m base ecx 0"
    using True by (simp add: is_string_userspace_def OS_BASE_M1_def word_less_nat_alt Let_def ecx_def)
  moreover have "n < unat ecx \<longleftrightarrow> n < 65536 \<and> in_user_space base (n + 1)" for n
    using in_user_space_iff [of "n + 1" base] True by (auto simp: ecx)
  ultimately show ?thesis by (auto simp: string_scan_iff)
qed

theorem string_gate_exact_witness:
  "is_string_userspace (\<lambda>a. if a = 0x1003 then 0 else 0x41) 0x1000 = 1"
proof -
  have "in_user_space 0x1000 (3 + 1)" by (simp add: in_user_space_iff)
  moreover have "(3 :: nat) < 65536" by simp
  ultimately have "\<exists>n < 65536. (\<lambda>a :: u32. if a = 0x1003 then 0 else 0x41 :: u8) (0x1000 + of_nat n) = 0 \<and> in_user_space 0x1000 (n + 1)"
    by (intro exI [of _ 3]) simp
  then show ?thesis using string_gate_exact by blast
qed

section \<open>The buffer of a file system call\<close>

text \<open>The buffer a call really covers, as an unbounded number.\<close>

definition fs_buffer_bytes :: "u32 \<Rightarrow> u32 \<Rightarrow> u32 \<Rightarrow> nat option" where
  "fs_buffer_bytes subfn encoding count =
     (if subfn = 1 then Some ((if encoding \<le> 1 then 304 else 560) * unat count + 32)
      else if subfn \<le> 3 then Some (unat count)
      else if subfn = 5 then Some 40 else if subfn = 6 then Some 32 else None)"

lemma buffer_len_small:
  assumes "fs_buffer_bytes subfn encoding count = Some n" and "n < 2 ^ 32"
  shows "\<exists>len. fs_op_safe_buffer_len_ex subfn encoding count = (True, len) \<and> unat len = n"
proof (cases "subfn = 1")
  case True
  then have n: "n = (if encoding \<le> 1 then 304 else 560) * unat count + 32"
    using assms(1) by (simp add: fs_buffer_bytes_def)
  have "(if encoding \<le> 1 then BDVK_CP866 else BDVK_UNICODE) * count + BDVK_HEADER = (of_nat n :: u32)"
    by (simp add: n BDVK_CP866_def BDVK_UNICODE_def BDVK_HEADER_def)
  with True show ?thesis using assms(2)
    by (simp add: fs_op_safe_buffer_len_ex_def Let_def unat_of_nat_u32)
next
  case False
  then show ?thesis using assms(1)
    by (auto simp: fs_buffer_bytes_def fs_op_safe_buffer_len_ex_def SUBFN5_LEN_def SUBFN6_LEN_def split: if_splits)
qed


definition inf_witness :: "u32 \<Rightarrow> mem" where
  "inf_witness count = put_bytes 0x100 (make_inf 1 0 count 0x2000) (\<lambda>a. 0)"


text \<open>The multiplication of the directory read wraps: a count of 14128182 entries is checked as 64 bytes.\<close>

lemma operation_safe_wraps:
  "file_system_is_operation_safe (inf_witness 14128182) 0x100 = 1
   \<and> fs_buffer_bytes 1 0 14128182 = Some 4294967360"
proof
  show "file_system_is_operation_safe (inf_witness 14128182) 0x100 = 1" by code_simp
  show "fs_buffer_bytes 1 0 14128182 = Some 4294967360" by (simp add: fs_buffer_bytes_def)
qed

section \<open>The program header\<close>

definition valid_banner :: "mem \<Rightarrow> u32 \<Rightarrow> bool" where
  "valid_banner m h \<longleftrightarrow> load_u32 m h = MAGIC_MENU \<and> load_u16 m (h + 4) = MAGIC_ET \<and>
     (load_u16 m (h + 6) = MAGIC_01 \<or> load_u16 m (h + 6) = MAGIC_02)"

definition valid_sizes :: "mem \<Rightarrow> u32 \<Rightarrow> u32 \<Rightarrow> bool" where
  "valid_sizes m h pages_free \<longleftrightarrow> (let mem_size = load_u32 m (h + 20) in
     load_u32 m (h + 16) \<le> mem_size \<and> mem_size < OS_BASE \<and> mem_size < push_bit 12 pages_free)"

lemma header_field_kept:
  assumes "apart h 36 a 24"
  shows "load_u32 (store_u32 (a + 8) v m) (h + 16) = load_u32 m (h + 16)"
    "load_u32 (store_u32 (a + 8) v m) (h + 20) = load_u32 m (h + 20)"
    "load_u32 (store_u32 (a + 8) v m) (h + 24) = load_u32 m (h + 24)"
    "load_u32 (store_u32 (a + 8) v m) (h + 28) = load_u32 m (h + 28)"
    "load_u32 (store_u32 (a + 8) v m) (h + 32) = load_u32 m (h + 32)"
  using load_u32_apart [OF assms, of 16 8] load_u32_apart [OF assms, of 20 8] load_u32_apart [OF assms, of 24 8]
    load_u32_apart [OF assms, of 28 8] load_u32_apart [OF assms, of 32 8] by simp_all

lemma app_hdr_fields:
  assumes "m' = store_u32 (a + 0x10) e (store_u32 (a + 0x04) i (store_u32 a p (store_u32 (a + 0x0C) t (store_u32 (a + 0x14) s (store_u32 (a + 0x08) v m)))))"
  shows "load_u32 m' (a + 0x08) = v" "load_u32 m' (a + 0x14) = s" "load_u32 m' (a + 0x0C) = t"
    "load_u32 m' a = p" "load_u32 m' (a + 0x04) = i" "load_u32 m' (a + 0x10) = e"
  unfolding assms by (simp_all add: mem_simps)

definition app_hdr_written :: "u32 \<Rightarrow> u32 \<Rightarrow> mem \<Rightarrow> mem" where
  "app_hdr_written header app_hdr m =
     store_u32 (app_hdr + 0x10) (load_u32 m (header + 16))
       (store_u32 (app_hdr + 0x04) (load_u32 m (header + 32))
         (store_u32 app_hdr (load_u32 m (header + 28))
           (store_u32 (app_hdr + 0x0C) (load_u32 m (header + 24))
             (store_u32 (app_hdr + 0x14) (load_u32 m (header + 20))
               (store_u32 (app_hdr + 0x08) (load_u32 m (header + 12)) m)))))"

lemma test_app_header_cases:
  assumes "apart header 36 app_hdr 24"
  shows "test_app_header header app_hdr pages_free m =
    (if \<not> valid_banner m header then (0, m)
     else if \<not> valid_sizes m header pages_free then (0, store_u32 (app_hdr + 0x08) (load_u32 m (header + 12)) m)
     else (header, app_hdr_written header app_hdr m))"
proof (cases "valid_banner m header")
  case False
  then show ?thesis by (auto simp: test_app_header_def valid_banner_def Let_def)
next
  case True
  note k = header_field_kept [OF assms]
  have banner: "load_u32 m header = MAGIC_MENU" "load_u16 m (header + 4) = MAGIC_ET"
    "(load_u16 m (header + 6) \<noteq> MAGIC_01 \<and> load_u16 m (header + 6) \<noteq> MAGIC_02) = False"
    using True by (auto simp: valid_banner_def)
  show ?thesis
  proof (cases "valid_sizes m header pages_free")
    case False
    with True show ?thesis
      by (simp add: test_app_header_def banner valid_sizes_def Let_def k not_less) (meson not_le)
  next
    case sz: True
    then have "\<not> load_u32 m (header + 20) < load_u32 m (header + 16)" "\<not> OS_BASE \<le> load_u32 m (header + 20)"
      "\<not> push_bit 12 pages_free \<le> load_u32 m (header + 20)"
      by (simp_all add: valid_sizes_def Let_def not_less not_le)
    with True sz show ?thesis by (simp add: test_app_header_def app_hdr_written_def banner Let_def k)
  qed
qed

lemma app_hdr_written_frame:
  assumes "\<forall>j < 24. x \<noteq> app_hdr + of_nat j"
  shows "store_u32 (app_hdr + 0x08) v m x = m x" "app_hdr_written header app_hdr m x = m x"
proof -
  have out: "store_u32 (app_hdr + of_nat j) w mm x = mm x" if "j + 4 \<le> 24" for j w mm
    by (rule store_u32_outside [of 24]) (use that assms in auto)
  show "store_u32 (app_hdr + 0x08) v m x = m x" using out [of 8] by simp
  show "app_hdr_written header app_hdr m x = m x"
    using out [of 16] out [of 4] out [of 0] out [of 12] out [of 20] out [of 8] by (simp add: app_hdr_written_def)
qed

text \<open>C25: \<^verbatim>\<open>test_app_header\<close> accepts a program exactly when its banner is one of the two known ones and its
  memory size covers the image, stays below \<^verbatim>\<open>OS_BASE\<close> and below the free memory. On success the six
  fields of the application header hold the values of the program header; on failure it answers 0 and at
  most the entry point was written, that only after a correct banner; no byte outside the application
  header is ever changed.\<close>

theorem app_header_checked:
  assumes "apart header 36 app_hdr 24" and "header \<noteq> 0"
    and "test_app_header header app_hdr pages_free m = (r, m')"
  shows "(r = header \<longleftrightarrow> valid_banner m header \<and> valid_sizes m header pages_free)
    \<and> (r = header \<longrightarrow>
         load_u32 m' (app_hdr + 0x08) = load_u32 m (header + 12)
       \<and> load_u32 m' (app_hdr + 0x14) = load_u32 m (header + 20)
       \<and> load_u32 m' (app_hdr + 0x0C) = load_u32 m (header + 24)
       \<and> load_u32 m' app_hdr = load_u32 m (header + 28)
       \<and> load_u32 m' (app_hdr + 0x04) = load_u32 m (header + 32)
       \<and> load_u32 m' (app_hdr + 0x10) = load_u32 m (header + 16))
    \<and> (r \<noteq> header \<longrightarrow> r = 0 \<and>
         m' = (if valid_banner m header then store_u32 (app_hdr + 0x08) (load_u32 m (header + 12)) m else m))
    \<and> (\<forall>x. (\<forall>j < 24. x \<noteq> app_hdr + of_nat j) \<longrightarrow> m' x = m x)"
proof -
  note run = test_app_header_cases [OF assms(1), of pages_free m, unfolded assms(3)]
  have fr: "m' x = m x" if "\<forall>j < 24. x \<noteq> app_hdr + of_nat j" for x
    using run app_hdr_written_frame [OF that] by (simp split: if_splits)
  show ?thesis
  proof (cases "valid_banner m header \<and> valid_sizes m header pages_free")
    case True
    with run have "r = header" and w: "m' = app_hdr_written header app_hdr m" by simp_all
    with True fr app_hdr_fields [OF w [unfolded app_hdr_written_def]] show ?thesis by blast
  next
    case False
    with run assms(2) have "r = 0"
      "m' = (if valid_banner m header then store_u32 (app_hdr + 0x08) (load_u32 m (header + 12)) m else m)"
      by (auto split: if_splits)
    with False assms(2) fr show ?thesis by blast
  qed
qed

definition header_witness :: mem where
  "header_witness = put_bytes 0x1000
     [0x4D, 0x45, 0x4E, 0x55, 0x45, 0x54, 0x30, 0x31, 1, 0, 0, 0, 0x24, 0, 0, 0, 0x80, 0, 0, 0, 0, 0x10, 0, 0,
      0, 0x10, 0, 0, 0x40, 0, 0, 0, 0x60, 0, 0, 0] (\<lambda>a. 0)"

theorem app_header_checked_witness:
  "apart 0x1000 36 0x8000 24 \<and> fst (test_app_header 0x1000 0x8000 16 header_witness) = 0x1000
   \<and> load_u32 (snd (test_app_header 0x1000 0x8000 16 header_witness)) (0x8000 + 0x14) = load_u32 header_witness (0x1000 + 20)"
proof -
  have a: "apart 0x1000 36 0x8000 24" by (rule apartI) simp_all
  obtain r m' where e: "test_app_header 0x1000 0x8000 16 header_witness = (r, m')" by fastforce
  have "fst (test_app_header 0x1000 0x8000 16 header_witness) = 0x1000" by code_simp
  with e have r: "r = 0x1000" by simp
  from app_header_checked [OF a _ e] r show ?thesis using a e by simp
qed

end
