(* ===== verification/Paging.thy ===== *)
theory Paging
  imports Scan
begin

text \<open>
  Address translation through the page tables: \<^verbatim>\<open>get_pg_addr.rs\<close> (kernel linear address to physical
  page), \<^verbatim>\<open>v86_get_lin_addr.rs\<close> (virtual-8086 address to linear address) and
  \<^verbatim>\<open>usb_td_to_virt.rs\<close> (physical address of a USB transfer descriptor back to its virtual address,
  by a walk over the list of descriptor pages). The page tables are dwords of the flat memory.
\<close>

section \<open>Model\<close>

definition PAGE_SIZE :: u32 where "PAGE_SIZE = 4096"

definition IDENTITY_WINDOW :: u32 where "IDENTITY_WINDOW = 0x400000"

definition get_pg_addr :: "mem \<Rightarrow> u32 \<Rightarrow> u32 \<Rightarrow> u32 \<Rightarrow> u32" where
  "get_pg_addr m linear page_tabs os_base =
     (let eax = linear - os_base;
          eax = (if eax \<ge> IDENTITY_WINDOW then
                   let eax = drop_bit 12 eax;
                       idx = eax + drop_bit 12 os_base
                   in load_u32 m (page_tabs + 4 * idx)
                 else eax)
      in eax AND NOT (PAGE_SIZE - 1))"

definition PAGE_OFFSET_MASK :: u32 where "PAGE_OFFSET_MASK = 0x0FFF"

definition PTE_FRAME_MASK :: u32 where "PTE_FRAME_MASK = 0xFFFFF000"

definition v86_get_lin_addr :: "mem \<Rightarrow> u32 \<Rightarrow> u32 \<Rightarrow> u32" where
  "v86_get_lin_addr m v86_addr page_tabs =
     (let page = drop_bit 12 v86_addr;
          pte = load_u32 m (page_tabs + 4 * page)
      in (v86_addr AND PAGE_OFFSET_MASK) OR (pte AND PTE_FRAME_MASK))"

definition TD_PAGE_NEXT_OFF :: u32 where "TD_PAGE_NEXT_OFF = PAGE_SIZE - 4"

text \<open>The walk over the descriptor pages; on a cyclic list it need not return.\<close>

partial_function (option) td_walk :: "mem \<Rightarrow> u32 \<Rightarrow> u32 \<Rightarrow> u32 \<Rightarrow> u32 \<Rightarrow> (u32 \<times> u32) option" where
  "td_walk m td_phys page_tabs os_base page =
     (if page = 0 then Some (0, td_phys)
      else
        let page_phys = get_pg_addr m page page_tabs os_base
        in if td_phys - page_phys < PAGE_SIZE then
             let offset = td_phys AND (PAGE_SIZE - 1)
             in Some (page + offset, offset)
           else td_walk m td_phys page_tabs os_base (load_u32 m (page + TD_PAGE_NEXT_OFF)))"

definition usb_td_to_virt :: "mem \<Rightarrow> u32 \<Rightarrow> u32 \<Rightarrow> u32 \<Rightarrow> u32 \<Rightarrow> (u32 \<times> u32) option" where
  "usb_td_to_virt m first td_phys page_tabs os_base = td_walk m td_phys page_tabs os_base first"

section \<open>Pages and offsets\<close>

lemma page_masks:
  "PAGE_SIZE - 1 = mask 12" "PAGE_OFFSET_MASK = mask 12" "PTE_FRAME_MASK = NOT (mask 12)"
  by (simp_all add: PAGE_SIZE_def PAGE_OFFSET_MASK_def PTE_FRAME_MASK_def mask_eq_exp_minus_1)

lemma split_page: "x = (x AND NOT (mask 12)) + (x AND mask 12)" for x :: u32
proof -
  have "(x AND NOT (mask 12)) + (x AND mask 12) = (x AND NOT (mask 12)) OR (x AND mask 12)"
    by (rule disjunctive_add) (simp add: bit_simps)
  also have "\<dots> = x" by (rule bit_word_eqI) (auto simp: bit_simps)
  finally show ?thesis by simp
qed

lemma offset_less: "x AND mask 12 < 4096" for x :: u32
proof -
  have "x AND mask 12 = take_bit 12 x" by (simp add: take_bit_eq_mask)
  moreover have "unat (take_bit 12 x) < 2 ^ 12" unfolding unsigned_take_bit_eq by (rule take_bit_nat_less_exp)
  ultimately show ?thesis by (simp add: word_less_nat_alt)
qed

lemma aligned_add_offset:
  fixes p d :: u32
  assumes "p AND mask 12 = 0" and "d < 4096"
  shows "(p + d) AND mask 12 = d" and "(p + d) AND NOT (mask 12) = p"
proof -
  have pb: "\<not> bit p n" if "n < 12" for n
  proof -
    have "\<not> bit (p AND mask 12) n" using assms(1) by simp
    with that show ?thesis by (simp add: bit_simps)
  qed
  have db: "n < 12" if "bit d n" for n
    using bit_below [OF that, of 12] assms(2) by (simp add: word_less_nat_alt)
  have or: "p + d = p OR d" by (rule disjunctive_add) (use pb db in blast)
  show "(p + d) AND mask 12 = d" unfolding or
  proof (rule bit_word_eqI)
    fix n assume "n < LENGTH(32)"
    then show "bit ((p OR d) AND mask 12) n = bit d n"
      using pb [of n] db [of n] by (cases "n < 12") (auto simp: bit_simps)
  qed
  show "(p + d) AND NOT (mask 12) = p" unfolding or
  proof (rule bit_word_eqI)
    fix n assume "n < LENGTH(32)"
    then show "bit ((p OR d) AND NOT (mask 12)) n = bit p n"
      using pb [of n] db [of n] by (cases "n < 12") (auto simp: bit_simps)
  qed
qed

lemma get_pg_addr_aligned: "get_pg_addr m linear page_tabs os_base AND mask 12 = 0"
  unfolding get_pg_addr_def Let_def page_masks by (rule bit_word_eqI) (simp add: bit_simps)

lemma unat_drop_12: "unat (drop_bit 12 x) = unat x div 4096" for x :: u32
  by (simp add: unat_drop)

lemma unat_and_mask_12: "unat (x AND mask 12) = unat x mod 4096" for x :: u32
  by (simp add: unat_and_mask)

lemma page_sub:
  fixes a b :: u32
  assumes "b AND mask 12 = 0" and "b \<le> a"
  shows "drop_bit 12 (a - b) + drop_bit 12 b = drop_bit 12 a" and "(a - b) AND mask 12 = a AND mask 12"
proof -
  have "unat b mod 4096 = 0" using assms(1) unat_and_mask_12 [of b] by simp
  then have ub: "unat b = 4096 * (unat b div 4096)" by auto
  have "unat a = unat (a - b) + unat b" using assms(2) by (simp add: unat_sub word_le_nat_alt)
  then have ua: "unat a = unat (a - b) + 4096 * (unat b div 4096)" using ub by simp
  then have "unat a div 4096 = unat (a - b) div 4096 + unat b div 4096" by (metis div_mult_self2 zero_neq_numeral add.commute)
  then have "unat (drop_bit 12 a) = unat (drop_bit 12 (a - b)) + unat (drop_bit 12 b)"
    by (simp only: unat_drop_12)
  then have "(of_nat (unat (drop_bit 12 a)) :: u32) = of_nat (unat (drop_bit 12 (a - b)) + unat (drop_bit 12 b))"
    by (rule arg_cong)
  then show "drop_bit 12 (a - b) + drop_bit 12 b = drop_bit 12 a" by simp
  have "unat a mod 4096 = unat (a - b) mod 4096" unfolding ua by simp
  then show "(a - b) AND mask 12 = a AND mask 12" by (simp add: word_unat_eq_iff unat_and_mask_12)
qed

text \<open>Both translations read the same page table entry: for a kernel address above the identity
  window and a page-aligned kernel base, the virtual-8086 translation of an address is the physical page
  \<^verbatim>\<open>get_pg_addr\<close> gives for it plus the offset in the page; inside the window the physical page is the
  address minus the base, and the result is always page-aligned.\<close>

theorem page_walks_agree:
  assumes "os_base AND mask 12 = 0" and "os_base \<le> linear"
  shows "get_pg_addr m linear page_tabs os_base AND mask 12 = 0
    \<and> (linear - os_base < IDENTITY_WINDOW \<longrightarrow>
         get_pg_addr m linear page_tabs os_base + (linear AND mask 12) = linear - os_base)
    \<and> (\<not> linear - os_base < IDENTITY_WINDOW \<longrightarrow>
         get_pg_addr m linear page_tabs os_base + (linear AND mask 12) = v86_get_lin_addr m linear page_tabs)"
proof -
  note low = page_sub(2) [OF assms]
  have "get_pg_addr m linear page_tabs os_base + (linear AND mask 12) = linear - os_base"
    if "linear - os_base < IDENTITY_WINDOW"
  proof -
    have "\<not> IDENTITY_WINDOW \<le> linear - os_base" using that by simp
    then have "get_pg_addr m linear page_tabs os_base = (linear - os_base) AND NOT (mask 12)"
      by (simp add: get_pg_addr_def Let_def page_masks)
    then show ?thesis using split_page [of "linear - os_base"] unfolding low by (simp only:)
  qed
  moreover have "get_pg_addr m linear page_tabs os_base + (linear AND mask 12) = v86_get_lin_addr m linear page_tabs"
    if "\<not> linear - os_base < IDENTITY_WINDOW"
  proof -
    have idx: "drop_bit 12 (linear - os_base) + drop_bit 12 os_base = drop_bit 12 linear"
      using assms by (rule page_sub(1))
    define pte where "pte = load_u32 m (page_tabs + 4 * drop_bit 12 linear)"
    have "get_pg_addr m linear page_tabs os_base = pte AND NOT (mask 12)"
      using that unfolding not_less by (simp only: get_pg_addr_def Let_def idx pte_def page_masks if_True)
    moreover have "v86_get_lin_addr m linear page_tabs = (pte AND NOT (mask 12)) + (linear AND mask 12)"
    proof -
      have "(pte AND NOT (mask 12)) + (linear AND mask 12) = (pte AND NOT (mask 12)) OR (linear AND mask 12)"
        by (rule disjunctive_add) (simp add: bit_simps)
      then show ?thesis by (simp add: v86_get_lin_addr_def Let_def page_masks pte_def or.commute)
    qed
    ultimately show ?thesis by simp
  qed
  ultimately show ?thesis using get_pg_addr_aligned by blast
qed

theorem page_walks_agree_witness:
  "get_pg_addr (\<lambda>a. 0x23) 0x80567890 0xFDC00000 0x80000000 + (0x80567890 AND mask 12)
     = v86_get_lin_addr (\<lambda>a. 0x23) 0x80567890 0xFDC00000"
proof -
  have "\<not> (0x80567890 - 0x80000000 :: u32) < IDENTITY_WINDOW" by (simp add: IDENTITY_WINDOW_def)
  moreover have "(0x80000000 :: u32) AND mask 12 = 0" by code_simp
  ultimately show ?thesis
    using page_walks_agree [of "0x80000000" "0x80567890" "\<lambda>a. 0x23" "0xFDC00000"] by simp
qed

section \<open>Descriptor pages\<close>

definition td_next :: "mem \<Rightarrow> u32 \<Rightarrow> u32" where
  "td_next m page = load_u32 m (page + TD_PAGE_NEXT_OFF)"

definition td_on_page :: "mem \<Rightarrow> u32 \<Rightarrow> u32 \<Rightarrow> u32 \<Rightarrow> u32 \<Rightarrow> bool" where
  "td_on_page m page_tabs os_base td_phys page \<longleftrightarrow>
     td_phys AND NOT (mask 12) = get_pg_addr m page page_tabs os_base"

lemma td_on_page_iff: "td_phys - get_pg_addr m page page_tabs os_base < PAGE_SIZE \<longleftrightarrow>
    td_on_page m page_tabs os_base td_phys page"
proof
  let ?p = "get_pg_addr m page page_tabs os_base"
  assume "td_phys - ?p < PAGE_SIZE"
  then have "(?p + (td_phys - ?p)) AND NOT (mask 12) = ?p"
    by (intro aligned_add_offset(2) get_pg_addr_aligned) (simp add: PAGE_SIZE_def)
  then show "td_on_page m page_tabs os_base td_phys page" by (simp add: td_on_page_def)
next
  assume "td_on_page m page_tabs os_base td_phys page"
  then have "td_phys - get_pg_addr m page page_tabs os_base = td_phys AND mask 12"
    using split_page [of td_phys] by (simp add: td_on_page_def algebra_simps)
  then show "td_phys - get_pg_addr m page page_tabs os_base < PAGE_SIZE"
    using offset_less [of td_phys] by (simp add: PAGE_SIZE_def)
qed

definition td_result :: "u32 \<Rightarrow> u32 \<Rightarrow> u32 \<times> u32" where
  "td_result td_phys page = (if page = 0 then (0, td_phys) else (page + (td_phys AND mask 12), td_phys AND mask 12))"

lemma td_walk_step:
  "td_walk m td page_tabs os_base page =
     (if page = 0 \<or> td_on_page m page_tabs os_base td page then Some (td_result td page)
      else td_walk m td page_tabs os_base (td_next m page))"
  unfolding td_result_def td_next_def td_walk.simps [of m td page_tabs os_base page] Let_def td_on_page_iff page_masks
  by (cases "page = 0"; cases "td_on_page m page_tabs os_base td page") (simp_all only: if_True if_False simp_thms)

lemma td_walk_returns:
  assumes "td_walk m td page_tabs os_base page = Some r"
  shows "\<exists>k. (td_next m ^^ k) page = 0 \<or> td_on_page m page_tabs os_base td ((td_next m ^^ k) page)"
  using assms
proof (rule td_walk.raw_induct [where P = "\<lambda>m td page_tabs os_base page r.
    \<exists>k. (td_next m ^^ k) page = 0 \<or> td_on_page m page_tabs os_base td ((td_next m ^^ k) page)", rotated])
  fix walk m td page_tabs os_base page r
  assume ih: "\<And>m td page_tabs os_base page r. walk m td page_tabs os_base page = Some r \<Longrightarrow>
      \<exists>k. (td_next m ^^ k) page = 0 \<or> td_on_page m page_tabs os_base td ((td_next m ^^ k) page)"
    and body: "(if page = 0 then Some (0, td)
      else let page_phys = get_pg_addr m page page_tabs os_base
        in if td - page_phys < PAGE_SIZE then let offset = td AND (PAGE_SIZE - 1) in Some (page + offset, offset)
           else walk m td page_tabs os_base (load_u32 m (page + TD_PAGE_NEXT_OFF))) = Some r"
  show "\<exists>k. (td_next m ^^ k) page = 0 \<or> td_on_page m page_tabs os_base td ((td_next m ^^ k) page)"
  proof (cases "page = 0 \<or> td_on_page m page_tabs os_base td page")
    case True
    then show ?thesis by (intro exI [of _ 0]) simp
  next
    case False
    then have "walk m td page_tabs os_base (td_next m page) = Some r"
      using body by (simp add: Let_def td_on_page_iff td_next_def)
    from ih [OF this] obtain k where
      "(td_next m ^^ k) (td_next m page) = 0 \<or> td_on_page m page_tabs os_base td ((td_next m ^^ k) (td_next m page))" ..
    then show ?thesis by (intro exI [of _ "Suc k"]) (simp only: funpow_Suc_right o_apply)
  qed
qed

interpretation td_list: list_walk
  "td_walk m td page_tabs os_base" "td_next m" "\<lambda>page. page = 0 \<or> td_on_page m page_tabs os_base td page" "td_result td"
  for m td page_tabs os_base
  by unfold_locales (rule td_walk_step, rule td_walk_returns)

text \<open>The descriptor pages in list order: each page's last dword is the next page, the last one's is 0.\<close>

fun td_pages :: "mem \<Rightarrow> u32 \<Rightarrow> u32 list \<Rightarrow> bool" where
  "td_pages m first [] \<longleftrightarrow> first = 0"
| "td_pages m first (p # ps) \<longleftrightarrow> first = p \<and> p \<noteq> 0 \<and> td_pages m (td_next m p) ps"

lemma td_pages_linked: "td_pages m first ps \<Longrightarrow> td_list.linked m ps 0 \<and> first = hd (ps @ [0])"
proof (induction ps arbitrary: first)
  case (Cons p ps)
  then have "td_list.linked m ps 0 \<and> td_next m p = hd (ps @ [0])" by (intro Cons.IH) simp
  with Cons.prems show ?case by (cases ps) auto
qed simp

text \<open>C32: On a null-terminated list of descriptor pages the translation always returns; it gives the virtual
  address in the first page that holds the descriptor's physical page, and translating that page forward
  and adding the returned offset gives the descriptor's physical address back. It reports 0 exactly when
  no page of the list holds the descriptor.\<close>

theorem usb_td_round_trip:
  assumes "td_pages m first ps"
  shows "case find (td_on_page m page_tabs os_base td_phys) ps of
      None \<Rightarrow> usb_td_to_virt m first td_phys page_tabs os_base = Some (0, td_phys)
    | Some p \<Rightarrow> (\<exists>offset < 4096. usb_td_to_virt m first td_phys page_tabs os_base = Some (p + offset, offset)
          \<and> get_pg_addr m p page_tabs os_base + offset = td_phys)"
proof -
  have nz: "p \<noteq> 0" if "p \<in> set ps" for p
    using assms that by (induction ps arbitrary: first) auto
  have eq: "find (\<lambda>page. page = 0 \<or> td_on_page m page_tabs os_base td_phys page) ps =
      find (td_on_page m page_tabs os_base td_phys) ps"
    by (rule find_cong) (use nz in auto)
  have w: "usb_td_to_virt m first td_phys page_tabs os_base =
      Some (td_result td_phys (case find (td_on_page m page_tabs os_base td_phys) ps of Some n \<Rightarrow> n | None \<Rightarrow> 0))"
    using td_list.walk_linked [of m ps 0 page_tabs os_base td_phys] td_pages_linked [OF assms]
    by (simp add: usb_td_to_virt_def eq)
  show ?thesis
  proof (cases "find (td_on_page m page_tabs os_base td_phys) ps")
    case None
    with w show ?thesis by (simp add: td_result_def)
  next
    case (Some p)
    then have on: "td_on_page m page_tabs os_base td_phys p" and "p \<noteq> 0"
      using nz by (auto simp: find_Some_iff)
    then have "get_pg_addr m p page_tabs os_base + (td_phys AND mask 12) = td_phys"
      using split_page [of td_phys] by (simp add: td_on_page_def)
    with w Some \<open>p \<noteq> 0\<close> show ?thesis by (auto simp: td_result_def offset_less)
  qed
qed

theorem usb_td_round_trip_witness:
  "td_pages (\<lambda>a. 0) 0x80001000 [0x80001000]
   \<and> (\<exists>offset < 4096. usb_td_to_virt (\<lambda>a. 0) 0x80001000 0x1230 0xFDC00000 0x80000000 = Some (0x80001000 + offset, offset)
        \<and> get_pg_addr (\<lambda>a. 0) 0x80001000 0xFDC00000 0x80000000 + offset = 0x1230)"
proof -
  have p: "td_pages (\<lambda>a. 0) 0x80001000 [0x80001000]" by code_simp
  have "find (td_on_page (\<lambda>a. 0) 0xFDC00000 0x80000000 0x1230) [0x80001000] = Some 0x80001000" by code_simp
  with usb_td_round_trip [OF p, where page_tabs = "0xFDC00000" and os_base = "0x80000000" and td_phys = "0x1230"] p
  show ?thesis by (simp only: option.case simp_thms)
qed

text \<open>C39: The translation returns exactly when following the page links reaches 0 or a page that holds the
  descriptor; on any other list it runs for ever.\<close>

theorem usb_td_returns_iff:
  "(\<exists>r. usb_td_to_virt m first td_phys page_tabs os_base = Some r) \<longleftrightarrow>
     (\<exists>k. (td_next m ^^ k) first = 0 \<or> td_on_page m page_tabs os_base td_phys ((td_next m ^^ k) first))"
  unfolding usb_td_to_virt_def by (rule td_list.walk_returns_iff)

end
