(* ===== verification/Slot_Search.thy ===== *)
theory Slot_Search
  imports Scan
begin

text \<open>
  The table and list lookups of the scheduler, the network stack and the disk driver:
  \<^verbatim>\<open>pid_to_slot.rs\<close>, \<^verbatim>\<open>socket_check.rs\<close>, \<^verbatim>\<open>net_ptr_to_num4.rs\<close>,
  \<^verbatim>\<open>ipv4_find_fragment_slot.rs\<close> and \<^verbatim>\<open>ahci_find_cmdslot.rs\<close>. Each is an instance of
  one of the two search contracts of \<open>Scan\<close>.
\<close>

section \<open>Model\<close>

subsection \<open>\<^verbatim>\<open>pid_to_slot.rs\<close>\<close>

definition APPDATA_SIZE :: u32 where "APPDATA_SIZE = 256"
definition OFF_TID :: u32 where "OFF_TID = 112"
definition OFF_STATE :: u32 where "OFF_STATE = 124"
definition TSTATE_FREE :: u8 where "TSTATE_FREE = 9"

text \<open>The loop bound is a signed comparison; for a table that reaches the sign bit the loop need not end.\<close>

partial_function (option) slot_loop :: "mem \<Rightarrow> u32 \<Rightarrow> u32 \<Rightarrow> u32 \<Rightarrow> u32 \<Rightarrow> u32 option" where
  "slot_loop m pid slot_base ebx ecx =
     (if sint ecx \<le> sint ebx then
        let entry = slot_base + ecx;
            state = m (entry + OFF_STATE)
        in if state \<noteq> TSTATE_FREE \<and> load_u32 m (entry + OFF_TID) = pid then Some (drop_bit 8 ecx)
           else slot_loop m pid slot_base ebx (ecx + APPDATA_SIZE)
      else Some 0)"

definition pid_to_slot :: "mem \<Rightarrow> u32 \<Rightarrow> u32 \<Rightarrow> u32 \<Rightarrow> u32 option" where
  "pid_to_slot m pid slot_base thread_count =
     (let ebx = push_bit 8 thread_count; ecx = APPDATA_SIZE
      in slot_loop m pid slot_base ebx ecx)"

subsection \<open>\<^verbatim>\<open>socket_check.rs\<close>\<close>

definition OFF_NEXT_PTR :: u32 where "OFF_NEXT_PTR = 0"

partial_function (option) socket_loop :: "(u32 \<Rightarrow> u32) \<Rightarrow> u32 \<Rightarrow> u32 \<Rightarrow> u32 option" where
  "socket_loop load_next candidate node =
     (if node = 0 then Some node
      else if node = candidate then Some node
      else socket_loop load_next candidate (load_next node))"

definition socket_check_from_first :: "u32 \<Rightarrow> u32 \<Rightarrow> (u32 \<Rightarrow> u32) \<Rightarrow> u32 option" where
  "socket_check_from_first candidate node load_next =
     (if candidate = 0 then Some 0 else socket_loop load_next candidate node)"

definition socket_check :: "mem \<Rightarrow> u32 \<Rightarrow> u32 \<Rightarrow> u32 option" where
  "socket_check m candidate net_sockets =
     (let first = load_u32 m (net_sockets + OFF_NEXT_PTR)
      in socket_check_from_first candidate first (\<lambda>addr. load_u32 m (addr + OFF_NEXT_PTR)))"

subsection \<open>\<^verbatim>\<open>net_ptr_to_num4.rs\<close>\<close>

definition NET_PTR_TO_NUM4_MISS :: u32 where "NET_PTR_TO_NUM4_MISS = 0xFFFFFFFF"

fun num4_slice_loop :: "u32 \<Rightarrow> nat \<Rightarrow> u32 list \<Rightarrow> u32" where
  "num4_slice_loop device i [] = NET_PTR_TO_NUM4_MISS"
| "num4_slice_loop device i (slot # rest) =
     (if slot = device then of_nat i * 4 else num4_slice_loop device (i + 1) rest)"

definition net_ptr_to_num4_from_slice :: "u32 \<Rightarrow> u32 list \<Rightarrow> u32" where
  "net_ptr_to_num4_from_slice device list =
     (if device = 0 then NET_PTR_TO_NUM4_MISS else num4_slice_loop device 0 list)"

function num4_loop :: "mem \<Rightarrow> u32 \<Rightarrow> u32 \<Rightarrow> u32 \<Rightarrow> u32 \<Rightarrow> u32" where
  "num4_loop m device list_base maxn i =
     (if i < maxn then
        let slot = load_u32 m (list_base + 4 * i)
        in if slot = device then i * 4 else num4_loop m device list_base maxn (i + 1)
      else NET_PTR_TO_NUM4_MISS)"
  by pat_completeness auto
termination
  by (relation "measure (\<lambda>(m, device, list_base, maxn, i). unat maxn - unat i)") (simp_all add: unat_gap_less)

declare num4_loop.simps [simp del]

definition net_ptr_to_num4 :: "mem \<Rightarrow> u32 \<Rightarrow> u32 \<Rightarrow> u32 \<Rightarrow> u32" where
  "net_ptr_to_num4 m device list_base maxn =
     (if device = 0 then NET_PTR_TO_NUM4_MISS else num4_loop m device list_base maxn 0)"

subsection \<open>\<^verbatim>\<open>ipv4_find_fragment_slot.rs\<close>\<close>

definition FRAGMENT_SLOT_SIZE :: u32 where "FRAGMENT_SLOT_SIZE = 16"
definition OFF_SLOT_ID :: u32 where "OFF_SLOT_ID = 2"
definition OFF_SLOT_SRC_IP :: u32 where "OFF_SLOT_SRC_IP = 4"
definition OFF_SLOT_DST_IP :: u32 where "OFF_SLOT_DST_IP = 8"
definition OFF_HDR_IDENTIFICATION :: u32 where "OFF_HDR_IDENTIFICATION = 4"
definition OFF_HDR_SRC_IP :: u32 where "OFF_HDR_SRC_IP = 12"
definition OFF_HDR_DST_IP :: u32 where "OFF_HDR_DST_IP = 16"

function ipv4_find_loop ::
  "u16 \<Rightarrow> u32 \<Rightarrow> u32 \<Rightarrow> u32 \<Rightarrow> (u32 \<Rightarrow> u16 \<times> u32 \<times> u32) \<Rightarrow> (u32 \<Rightarrow> u32) \<Rightarrow> u32 \<Rightarrow> u32" where
  "ipv4_find_loop id0 src_ip dst_ip count load_slot slot_addr i =
     (if i < count then
        let (slot_id, slot_src, slot_dst) = load_slot i
        in if slot_id = id0 \<and> slot_src = src_ip \<and> slot_dst = dst_ip then slot_addr i
           else ipv4_find_loop id0 src_ip dst_ip count load_slot slot_addr (i + 1)
      else 0xFFFFFFFF)"
  by pat_completeness auto
termination
  by (relation "measure (\<lambda>(id0, src_ip, dst_ip, count, load_slot, slot_addr, i). unat count - unat i)")
    (simp_all add: unat_gap_less)

declare ipv4_find_loop.simps [simp del]

definition ipv4_find_fragment_slot_from_keys ::
  "u16 \<Rightarrow> u32 \<Rightarrow> u32 \<Rightarrow> u32 \<Rightarrow> (u32 \<Rightarrow> u16 \<times> u32 \<times> u32) \<Rightarrow> (u32 \<Rightarrow> u32) \<Rightarrow> u32" where
  "ipv4_find_fragment_slot_from_keys id0 src_ip dst_ip count load_slot slot_addr =
     ipv4_find_loop id0 src_ip dst_ip count load_slot slot_addr 0"

definition ipv4_find_fragment_slot :: "mem \<Rightarrow> u32 \<Rightarrow> u32 \<Rightarrow> u32 \<Rightarrow> u32" where
  "ipv4_find_fragment_slot m packet fragments count =
     (let id0 = load_u16 m (packet + OFF_HDR_IDENTIFICATION);
          src_ip = load_u32 m (packet + OFF_HDR_SRC_IP);
          dst_ip = load_u32 m (packet + OFF_HDR_DST_IP);
          base = fragments
      in ipv4_find_fragment_slot_from_keys id0 src_ip dst_ip count
           (\<lambda>i. let slot = fragments + i * FRAGMENT_SLOT_SIZE
                in (load_u16 m (slot + OFF_SLOT_ID), load_u32 m (slot + OFF_SLOT_SRC_IP), load_u32 m (slot + OFF_SLOT_DST_IP)))
           (\<lambda>i. base + i * FRAGMENT_SLOT_SIZE))"

subsection \<open>\<^verbatim>\<open>ahci_find_cmdslot.rs\<close>\<close>

function cmdslot_loop :: "u32 \<Rightarrow> u32 \<Rightarrow> u32 \<Rightarrow> u32" where
  "cmdslot_loop ncs i bits =
     (if i < ncs then if bits AND 1 = 0 then i else cmdslot_loop ncs (i + 1) (drop_bit 1 bits)
      else 0xFFFFFFFF)"
  by pat_completeness auto
termination
  by (relation "measure (\<lambda>(ncs, i, bits). unat ncs - unat i)") (simp_all add: unat_gap_less)

declare cmdslot_loop.simps [simp del]

definition ahci_find_cmdslot :: "u32 \<Rightarrow> u32 \<Rightarrow> u32" where
  "ahci_find_cmdslot slots ncs = cmdslot_loop ncs 0 slots"

section \<open>Sockets\<close>

lemma socket_loop_step:
  "socket_loop nxt c n = (if n = 0 \<or> n = c then Some n else socket_loop nxt c (nxt n))"
  by (subst socket_loop.simps) simp

lemma socket_loop_returns:
  assumes "socket_loop nxt c n = Some r"
  shows "\<exists>k. (nxt ^^ k) n = 0 \<or> (nxt ^^ k) n = c"
  using assms
proof (rule socket_loop.raw_induct [where P = "\<lambda>nxt c n r. \<exists>k. (nxt ^^ k) n = 0 \<or> (nxt ^^ k) n = c", rotated])
  fix walk nxt c n r
  assume ih: "\<And>nxt c n r. walk nxt c n = Some r \<Longrightarrow> \<exists>k. (nxt ^^ k) n = 0 \<or> (nxt ^^ k) n = c"
    and body: "(if n = 0 then Some n else if n = c then Some n else walk nxt c (nxt n)) = Some r"
  show "\<exists>k. (nxt ^^ k) n = 0 \<or> (nxt ^^ k) n = c"
  proof (cases "n = 0 \<or> n = c")
    case True
    then show ?thesis by (intro exI [of _ 0]) simp
  next
    case False
    with body have "walk nxt c (nxt n) = Some r" by simp
    from ih [OF this] obtain k where "(nxt ^^ k) (nxt n) = 0 \<or> (nxt ^^ k) (nxt n) = c" ..
    then show ?thesis by (intro exI [of _ "Suc k"]) (simp only: funpow_Suc_right o_apply)
  qed
qed

interpretation sockets: list_walk "socket_loop nxt c" nxt "\<lambda>n. n = 0 \<or> n = c" "\<lambda>n. n" for nxt c
  by unfold_locales (rule socket_loop_step, rule socket_loop_returns)

text \<open>The socket list headed by \<open>first\<close>: the sockets in order, each one's next pointer the following one.\<close>

fun socket_list :: "mem \<Rightarrow> u32 \<Rightarrow> u32 list \<Rightarrow> bool" where
  "socket_list m first [] \<longleftrightarrow> first = 0"
| "socket_list m first (s # ss) \<longleftrightarrow> first = s \<and> s \<noteq> 0 \<and> socket_list m (load_u32 m s) ss"

lemma socket_list_linked:
  "socket_list m first ss \<Longrightarrow> sockets.linked (load_u32 m) ss 0 \<and> first = hd (ss @ [0])"
proof (induction ss arbitrary: first)
  case (Cons s ss)
  then have "sockets.linked (load_u32 m) ss 0 \<and> load_u32 m s = hd (ss @ [0])" by (intro Cons.IH) simp
  with Cons.prems show ?case by (cases ss) auto
qed simp

text \<open>C40: On a null-terminated socket list \<^verbatim>\<open>socket_check\<close> returns, and it returns the candidate exactly
  when the candidate is a socket of the list, and 0 otherwise.\<close>

theorem socket_check_members:
  assumes "socket_list m (load_u32 m net_sockets) ss"
  shows "socket_check m candidate net_sockets = Some (if candidate \<in> set ss then candidate else 0)"
proof -
  have nz: "s \<noteq> 0" if "s \<in> set ss" for s
    using that assms by (induction ss arbitrary: net_sockets) auto
  define first where "first = load_u32 m net_sockets"
  have l: "sockets.linked (load_u32 m) ss 0" "first = hd (ss @ [0])"
    using socket_list_linked [OF assms] by (simp_all add: first_def)
  have e: "socket_loop (load_u32 m) candidate first =
      Some (case find (\<lambda>n. n = 0 \<or> n = candidate) ss of Some n \<Rightarrow> n | None \<Rightarrow> 0)"
    unfolding l(2) by (rule sockets.walk_linked [OF l(1)]) simp
  have "find (\<lambda>n. n = 0 \<or> n = candidate) ss = (if candidate \<in> set ss then Some candidate else None)"
    if "candidate \<noteq> 0"
    using nz by (induction ss) auto
  with e nz show ?thesis
    by (auto simp: socket_check_def socket_check_from_first_def OFF_NEXT_PTR_def first_def [symmetric])
qed

theorem socket_check_members_witness:
  "let m = store_u32 0x500 0x600 (store_u32 0x600 0x700 (\<lambda>a. 0)) in
   socket_list m (load_u32 m 0x500) [0x600, 0x700] \<and> socket_check m 0x700 0x500 = Some 0x700"
proof -
  define m where "m = store_u32 0x500 0x600 (store_u32 0x600 0x700 (\<lambda>a. 0))"
  have "socket_list m (load_u32 m 0x500) [0x600, 0x700]" unfolding m_def by code_simp
  with socket_check_members [OF this, of "0x700"] show ?thesis by (simp add: m_def [symmetric] Let_def)
qed

section \<open>Thread slots\<close>

definition slot_has :: "mem \<Rightarrow> u32 \<Rightarrow> u32 \<Rightarrow> nat \<Rightarrow> bool" where
  "slot_has m slot_base pid i \<longleftrightarrow>
     m (slot_base + of_nat (256 * i) + OFF_STATE) \<noteq> TSTATE_FREE \<and>
     load_u32 m (slot_base + of_nat (256 * i) + OFF_TID) = pid"

lemma sint_slot: "n < 2 ^ 31 \<Longrightarrow> sint (of_nat n :: u32) = int n"
  using sint_u32_small [of "of_nat n"] by (simp add: unat_of_nat_u32)

lemma slot_loop_find:
  assumes "256 * Suc tc < 2 ^ 31" and "i \<le> Suc tc"
  shows "slot_loop m pid slot_base (of_nat (256 * tc)) (of_nat (256 * i)) =
    Some (case find (slot_has m slot_base pid) [i..<Suc tc] of Some n \<Rightarrow> of_nat n | None \<Rightarrow> 0)"
  using assms(2)
proof (induction "Suc tc - i" arbitrary: i)
  case 0
  then have i: "i = Suc tc" by simp
  have "\<not> sint (of_nat (256 * i) :: u32) \<le> sint (of_nat (256 * tc) :: u32)"
    using assms(1) i sint_slot [of "256 * i"] sint_slot [of "256 * tc"] by simp
  then show ?case by (subst slot_loop.simps) (simp add: i)
next
  case (Suc k)
  then have le: "i \<le> tc" by linarith
  have b2: "256 * tc < 2 ^ 31" using assms(1) by simp
  then have "256 * i < 2 ^ 31" using le by (intro le_less_trans [OF _ b2]) simp
  note b = this b2
  have c: "sint (of_nat (256 * i) :: u32) \<le> sint (of_nat (256 * tc) :: u32)"
    using le sint_slot [OF b(1)] sint_slot [OF b(2)] by (simp del: of_nat_mult)
  have up: "[i..<Suc tc] = i # [Suc i..<Suc tc]" using le by (simp add: upt_conv_Cons)
  have d: "drop_bit 8 (of_nat (256 * i) :: u32) = of_nat i"
    using b(1) by (subst drop_bit_of_nat_u32) simp_all
  have nx: "(of_nat (256 * i) :: u32) + APPDATA_SIZE = of_nat (256 * Suc i)"
    by (simp add: APPDATA_SIZE_def)
  have "slot_loop m pid slot_base (of_nat (256 * tc)) (of_nat (256 * i)) =
      (if slot_has m slot_base pid i then Some (of_nat i)
       else slot_loop m pid slot_base (of_nat (256 * tc)) (of_nat (256 * Suc i)))"
    unfolding slot_loop.simps [of m pid slot_base "of_nat (256 * tc)" "of_nat (256 * i)"] slot_has_def
    by (simp only: c if_True Let_def nx d)
  moreover have "slot_loop m pid slot_base (of_nat (256 * tc)) (of_nat (256 * Suc i)) =
      Some (case find (slot_has m slot_base pid) [Suc i..<Suc tc] of Some n \<Rightarrow> of_nat n | None \<Rightarrow> 0)"
    using Suc.hyps le by (intro Suc.hyps(1)) linarith+
  ultimately show ?case unfolding up by simp
qed

text \<open>For a thread table below 2 GiB \<^verbatim>\<open>pid_to_slot\<close> returns, and its result is the lowest slot from 1 to the
  thread count that is in use and carries the thread id, or 0 when there is none.\<close>

theorem pid_to_slot_lowest:
  assumes "unat thread_count < 2 ^ 23 - 1"
  shows "pid_to_slot m pid slot_base thread_count =
    Some (case find (slot_has m slot_base pid) [1..<unat thread_count + 1] of Some n \<Rightarrow> of_nat n | None \<Rightarrow> 0)"
proof -
  have "push_bit 8 thread_count = of_nat (256 * unat thread_count)"
    by (simp add: push_bit_eq_mult)
  moreover have "APPDATA_SIZE = of_nat (256 * 1)" by (simp add: APPDATA_SIZE_def)
  moreover have "256 * Suc (unat thread_count) < 2 ^ 31" using assms by simp
  ultimately show ?thesis
    unfolding pid_to_slot_def Let_def using slot_loop_find [of "unat thread_count" 1 m pid slot_base]
    by (simp only: Suc_eq_plus1)
qed

theorem pid_to_slot_lowest_witness:
  "pid_to_slot (store_u32 624 7 (\<lambda>a. 0)) 7 0 3 =
     Some (case find (slot_has (store_u32 624 7 (\<lambda>a. 0)) 0 7) [1..<unat (3 :: u32) + 1] of Some n \<Rightarrow> of_nat n | None \<Rightarrow> 0)
   \<and> find (slot_has (store_u32 624 7 (\<lambda>a. 0)) 0 7) [1..<unat (3 :: u32) + 1] = Some 2"
proof
  show "pid_to_slot (store_u32 624 7 (\<lambda>a. 0)) 7 0 3 =
     Some (case find (slot_has (store_u32 624 7 (\<lambda>a. 0)) 0 7) [1..<unat (3 :: u32) + 1] of Some n \<Rightarrow> of_nat n | None \<Rightarrow> 0)"
    by (rule pid_to_slot_lowest) simp
  show "find (slot_has (store_u32 624 7 (\<lambda>a. 0)) 0 7) [1..<unat (3 :: u32) + 1] = Some 2" by code_simp
qed

section \<open>Network devices and fragments\<close>

lemma num4_slice:
  assumes "i \<le> unat maxn"
  shows "num4_loop m device list_base maxn (of_nat i) =
     num4_slice_loop device i (map (\<lambda>k. load_u32 m (list_base + 4 * of_nat k)) [i..<unat maxn])"
  using assms
proof (induction "unat maxn - i" arbitrary: i)
  case 0
  then have i: "i = unat maxn" by simp
  then show ?case by (subst num4_loop.simps) simp
next
  case (Suc k)
  then have lt: "i < unat maxn" by linarith
  then have u: "unat (of_nat i :: u32) = i" by (intro unat_of_nat_u32 less_unat_u32)
  have up: "[i..<unat maxn] = i # [Suc i..<unat maxn]" using lt by (simp add: upt_conv_Cons)
  have "num4_loop m device list_base maxn (of_nat i + 1) = num4_loop m device list_base maxn (of_nat (Suc i))"
    by (simp add: add.commute)
  also have "\<dots> = num4_slice_loop device (Suc i) (map (\<lambda>k. load_u32 m (list_base + 4 * of_nat k)) [Suc i..<unat maxn])"
    using Suc.hyps lt by (intro Suc.hyps(1)) linarith+
  finally show ?case using lt u unfolding up
    by (subst num4_loop.simps) (simp add: word_less_nat_alt Let_def)
qed

lemma num4_slice_find:
  "num4_slice_loop device i (map f [i..<n]) =
     (case find (\<lambda>k. f k = device) [i..<n] of Some k \<Rightarrow> 4 * of_nat k | None \<Rightarrow> NET_PTR_TO_NUM4_MISS)"
proof (induction "n - i" arbitrary: i)
  case (Suc k)
  then have "[i..<n] = i # [Suc i..<n]" by (simp add: upt_conv_Cons)
  moreover have "k = n - Suc i" using Suc.hyps(2) by simp
  ultimately show ?case using Suc.hyps(1) [of "Suc i"] by (simp add: mult.commute)
qed simp

text \<open>The pointer walk of \<^verbatim>\<open>net_ptr_to_num4\<close> computes the same value as the walk over the slice of the
  table's entries, and a value other than the miss marker is the byte offset of the first table entry
  that holds the device.\<close>

theorem net_num4_equivalence:
  "net_ptr_to_num4 m device list_base maxn =
     net_ptr_to_num4_from_slice device (map (\<lambda>k. load_u32 m (list_base + 4 * of_nat k)) [0..<unat maxn])
   \<and> net_ptr_to_num4 m device list_base maxn =
     (case find (\<lambda>k. device \<noteq> 0 \<and> load_u32 m (list_base + 4 * of_nat k) = device) [0..<unat maxn] of
        Some k \<Rightarrow> 4 * of_nat k | None \<Rightarrow> NET_PTR_TO_NUM4_MISS)"
proof (cases "device = 0")
  case True
  have "find (\<lambda>k. False) xs = None" for xs :: "nat list" by (induction xs) auto
  with True show ?thesis by (simp add: net_ptr_to_num4_def net_ptr_to_num4_from_slice_def)
next
  case False
  have "num4_loop m device list_base maxn 0 =
      num4_slice_loop device 0 (map (\<lambda>k. load_u32 m (list_base + 4 * of_nat k)) [0..<unat maxn])"
    using num4_slice [of 0 maxn] by simp
  with False show ?thesis
    by (simp add: net_ptr_to_num4_def net_ptr_to_num4_from_slice_def num4_slice_find)
qed

interpretation fragments: indexed_scan
  "ipv4_find_loop id0 src_ip dst_ip count load_slot slot_addr"
  "\<lambda>i. load_slot i = (id0, src_ip, dst_ip)" slot_addr "0xFFFFFFFF" count
  for id0 src_ip dst_ip count load_slot slot_addr
  by unfold_locales (subst ipv4_find_loop.simps, simp split: prod.split)

definition fragment_matches :: "mem \<Rightarrow> u32 \<Rightarrow> u32 \<Rightarrow> bool" where
  "fragment_matches m packet slot \<longleftrightarrow>
     load_u16 m (slot + 2) = load_u16 m (packet + 4) \<and> load_u32 m (slot + 4) = load_u32 m (packet + 12)
     \<and> load_u32 m (slot + 8) = load_u32 m (packet + 16)"

text \<open>\<^verbatim>\<open>ipv4_find_fragment_slot\<close> returns the address of the first slot of the reassembly table whose
  identification, source and destination equal those of the packet header, and -1 when no slot has.\<close>

theorem fragment_slot_first:
  "ipv4_find_fragment_slot m packet fragments count =
     (case find (\<lambda>k. fragment_matches m packet (fragments + 16 * of_nat k)) [0..<unat count] of
        Some k \<Rightarrow> fragments + 16 * of_nat k | None \<Rightarrow> 0xFFFFFFFF)"
  unfolding ipv4_find_fragment_slot_def ipv4_find_fragment_slot_from_keys_def Let_def fragments.scan_all
  by (simp add: fragment_matches_def FRAGMENT_SLOT_SIZE_def OFF_SLOT_ID_def OFF_SLOT_SRC_IP_def OFF_SLOT_DST_IP_def
      OFF_HDR_IDENTIFICATION_def OFF_HDR_SRC_IP_def OFF_HDR_DST_IP_def mult.commute split: option.split)

section \<open>Command slots\<close>

interpretation cmdslots: indexed_scan
  "\<lambda>i. cmdslot_loop ncs i (drop_bit (unat i) slots)" "\<lambda>i. \<not> bit slots (unat i)" "\<lambda>i. i" "0xFFFFFFFF" ncs for ncs slots
proof
  fix i :: u32
  have "drop_bit (unat i) slots AND 1 = 0 \<longleftrightarrow> \<not> bit slots (unat i)"
    by (simp add: bit_iff_odd_drop_bit and_one_eq mod_2_eq_odd)
  moreover have "drop_bit 1 (drop_bit (unat i) slots) = drop_bit (unat (i + 1)) slots" if "i < ncs"
    using that by (simp add: unat_inc_less drop_bit_drop_bit)
  ultimately show "cmdslot_loop ncs i (drop_bit (unat i) slots) =
      (if i < ncs then if \<not> bit slots (unat i) then i else cmdslot_loop ncs (i + 1) (drop_bit (unat (i + 1)) slots)
       else 0xFFFFFFFF)"
    by (subst cmdslot_loop.simps) simp
qed

text \<open>A slot number \<^verbatim>\<open>ahci_find_cmdslot\<close> gives is below the slot count and free, and every lower slot is
  busy; it answers -1 exactly when all slots below the count are busy.\<close>

theorem cmdslot_free:
  "case find (\<lambda>k. \<not> bit slots k) [0..<unat ncs] of
     Some k \<Rightarrow> ahci_find_cmdslot slots ncs = of_nat k \<and> of_nat k < ncs \<and> \<not> bit slots (unat (ahci_find_cmdslot slots ncs))
   | None \<Rightarrow> ahci_find_cmdslot slots ncs = 0xFFFFFFFF"
proof -
  have e: "ahci_find_cmdslot slots ncs =
      (case find (\<lambda>n. \<not> bit slots (unat (of_nat n :: u32))) [0..<unat ncs] of Some n \<Rightarrow> of_nat n | None \<Rightarrow> 0xFFFFFFFF)"
    using cmdslots.scan_all [of ncs slots] by (simp add: ahci_find_cmdslot_def)
  have "find (\<lambda>n. \<not> bit slots (unat (of_nat n :: u32))) [0..<unat ncs] = find (\<lambda>k. \<not> bit slots k) [0..<unat ncs]"
  proof (rule find_cong)
    fix n assume "n \<in> set [0..<unat ncs]"
    then have "n < 2 ^ 32" by (intro less_unat_u32) simp
    then show "(\<not> bit slots (unat (of_nat n :: u32))) = (\<not> bit slots n)" by (simp only: unat_of_nat_u32)
  qed simp
  note e = e [unfolded this]
  show ?thesis
  proof (cases "find (\<lambda>k. \<not> bit slots k) [0..<unat ncs]")
    case (Some k)
    then have k: "k < unat ncs" "\<not> bit slots k" by (auto simp: find_upt_Some)
    then have "unat (of_nat k :: u32) = k" by (intro unat_of_nat_u32 less_unat_u32)
    with Some k show ?thesis by (simp add: e word_less_nat_alt)
  qed (simp add: e)
qed

end
