(* ===== verification/Ntfs_Runs.thy ===== *)
theory Ntfs_Runs
  imports Prelude
begin

text \<open>
  NTFS data runs (mapping pairs): the decoder of \<^verbatim>\<open>ntfs_mcb.rs\<close>, in its slice and its pointer form,
  and the encoder of \<^verbatim>\<open>ntfs_create_mcb.rs\<close>, which also makes room in the file record when the run
  does not fit its attribute. A run is a header byte with two widths, the run length and the signed
  cluster delta.
\<close>

section \<open>Model\<close>

subsection \<open>\<^verbatim>\<open>ntfs_mcb.rs\<close>, slice form\<close>

record McbDecodeResult =
  more_run :: bool
  consumed :: u32

text \<open>\<^verbatim>\<open>acc |= (b as u64) << (8 * i)\<close> over a slice.\<close>

fun le_or :: "u8 list \<Rightarrow> nat \<Rightarrow> u64 \<Rightarrow> u64" where
  "le_or [] i acc = acc"
| "le_or (b # bs) i acc = le_or bs (i + 1) (acc OR push_bit (8 * i) (ucast b))"

definition write_u64_le :: "u8 list \<Rightarrow> nat \<Rightarrow> u64 \<Rightarrow> u8 list" where
  "write_u64_le buf off v =
     buf[off := byte 0 v, off + 1 := byte 1 v, off + 2 := byte 2 v, off + 3 := byte 3 v,
         off + 4 := byte 4 v, off + 5 := byte 5 v, off + 6 := byte 6 v, off + 7 := byte 7 v]"

fun copy_into :: "u8 list \<Rightarrow> nat \<Rightarrow> u8 list \<Rightarrow> u8 list" where
  "copy_into buf i [] = buf"
| "copy_into buf i (b # bs) = copy_into (buf[i := b]) (i + 1) bs"

definition ntfs_decode_mcb_entry :: "u8 list \<Rightarrow> u8 list \<Rightarrow> McbDecodeResult \<times> u8 list" where
  "ntfs_decode_mcb_entry entry buf =
     (if entry = [] then (\<lparr>more_run = False, consumed = 0\<rparr>, buf)
      else let header = entry ! 0
      in if header = 0 then (\<lparr>more_run = False, consumed = 1\<rparr>, buf)
      else let length_len = unat (header AND 0x0F)
      in if length_len > 8 then (\<lparr>more_run = False, consumed = 1\<rparr>, buf)
      else if length entry < 1 + length_len then (\<lparr>more_run = False, consumed = 1\<rparr>, buf)
      else
        let buf = copy_into buf 0 (take length_len (drop 1 entry));
            last_len_byte = (if length_len = 0 then header else entry ! length_len)
        in if last_len_byte \<ge> 0x80 then (\<lparr>more_run = False, consumed = of_nat (1 + length_len)\<rparr>, buf)
        else
          let run = le_or (take length_len buf) 0 0;
              buf = write_u64_le buf 0 run;
              cluster_len = unat (drop_bit 4 header)
          in if cluster_len > 8 then (\<lparr>more_run = False, consumed = of_nat (1 + length_len)\<rparr>, buf)
          else
            let cluster_off = 1 + length_len
            in if length entry < cluster_off + cluster_len then
                 (\<lparr>more_run = False, consumed = of_nat (1 + length_len)\<rparr>, buf)
            else
              let cluster = le_or (take cluster_len (drop cluster_off entry)) 0 0;
                  last_cluster_ref =
                    (if cluster_len = 0 then last_len_byte else entry ! (cluster_off + cluster_len - 1));
                  cluster =
                    (if last_cluster_ref \<ge> 0x80 \<and> cluster_len < 8 then cluster OR push_bit (8 * cluster_len) (NOT 0)
                     else cluster)
              in (\<lparr>more_run = True, consumed = of_nat (1 + length_len + cluster_len)\<rparr>, write_u64_le buf 8 cluster))"

subsection \<open>\<^verbatim>\<open>ntfs_mcb.rs\<close>, pointer form\<close>

definition store_u64_le :: "u32 \<Rightarrow> u64 \<Rightarrow> mem \<Rightarrow> mem" where
  "store_u64_le dst v m =
     m(dst := byte 0 v, dst + 1 := byte 1 v, dst + 2 := byte 2 v, dst + 3 := byte 3 v,
       dst + 4 := byte 4 v, dst + 5 := byte 5 v, dst + 6 := byte 6 v, dst + 7 := byte 7 v)"

function run_loop :: "u32 \<Rightarrow> u32 \<Rightarrow> u32 \<Rightarrow> u32 \<Rightarrow> u64 \<Rightarrow> mem \<Rightarrow> u32 \<times> u64 \<times> mem" where
  "run_loop buffer length_len i esi run m =
     (if i < length_len then
        let b = m esi
        in run_loop buffer length_len (i + 1) (esi + 1) (run OR push_bit (8 * unat i) (ucast b)) (m(buffer + i := b))
      else (esi, run, m))"
  by pat_completeness auto
termination
  by (relation "measure (\<lambda>(buffer, length_len, i, esi, run, m). unat length_len - unat i)") (simp_all add: unat_gap_less)

declare run_loop.simps [simp del]

function cluster_loop :: "mem \<Rightarrow> u32 \<Rightarrow> u32 \<Rightarrow> u32 \<Rightarrow> u64 \<Rightarrow> u32 \<times> u64" where
  "cluster_loop m cluster_len i esi cluster =
     (if i < cluster_len then
        cluster_loop m cluster_len (i + 1) (esi + 1) (cluster OR push_bit (8 * unat i) (ucast (m esi)))
      else (esi, cluster))"
  by pat_completeness auto
termination
  by (relation "measure (\<lambda>(m, cluster_len, i, esi, cluster). unat cluster_len - unat i)") (simp_all add: unat_gap_less)

declare cluster_loop.simps [simp del]

text \<open>The value of \<^verbatim>\<open>*esi_inout\<close> is an argument and a result: (returned code, new \<^verbatim>\<open>esi\<close>, memory).\<close>

definition ntfs_decode_mcb_entry_ptr :: "u32 \<Rightarrow> u32 \<Rightarrow> mem \<Rightarrow> u32 \<times> u32 \<times> mem" where
  "ntfs_decode_mcb_entry_ptr esi buffer m =
     (let header = m esi;
          esi = esi + 1
      in if header = 0 then (0, esi, m)
      else let length_len = ucast (header AND 0x0F) :: u32
      in if length_len > 8 then (0, esi, m)
      else
        let (esi, run, m) = run_loop buffer length_len 0 esi 0 m;
            last_len_byte = m (esi - 1)
        in if last_len_byte \<ge> 0x80 then (0, esi, m)
        else
          let m = store_u64_le buffer run m;
              cluster_len = ucast (drop_bit 4 header) :: u32
          in if cluster_len > 8 then (0, esi, m)
          else
            let (esi, cluster) = cluster_loop m cluster_len 0 esi 0;
                last_cluster_ref = m (esi - 1);
                cluster =
                  (if last_cluster_ref \<ge> 0x80 \<and> cluster_len < 8 then cluster OR push_bit (8 * unat cluster_len) (NOT 0)
                   else cluster)
            in (1, esi, store_u64_le (buffer + 8) cluster m))"

subsection \<open>\<^verbatim>\<open>ntfs_create_mcb.rs\<close>\<close>

definition OFF_SIZE_WITH_HEADER :: u32 where "OFF_SIZE_WITH_HEADER = 4"
definition OFF_RECORD_REAL_SIZE :: u32 where "OFF_RECORD_REAL_SIZE = 0x18"
definition OFF_RECORD_ALLOCATED_SIZE :: u32 where "OFF_RECORD_ALLOCATED_SIZE = 0x1C"

lemma drop_8_less: "drop_bit 8 x \<noteq> 0 \<Longrightarrow> unat (drop_bit 8 x) < unat x" for x :: u32
proof -
  assume "drop_bit 8 x \<noteq> 0"
  then have nz: "unat (drop_bit 8 x) \<noteq> 0" by (simp add: unat_eq_zero)
  have e: "unat (drop_bit 8 x) = unat x div 256" unfolding unat_drop_bit_eq by (simp add: drop_bit_eq_div)
  with nz have "0 < unat x" by (cases "unat x") simp_all
  then show ?thesis unfolding e by (intro div_less_dividend) simp_all
qed

function width_loop :: "u32 \<Rightarrow> u32 \<Rightarrow> u32" where
  "width_loop eax edx =
     (let edx = edx + 1; eax = drop_bit 8 eax in if eax = 0 then edx else width_loop eax edx)"
  by pat_completeness auto
termination
  by (relation "measure (\<lambda>(eax, edx). unat eax)") (simp_all add: drop_8_less)

declare width_loop.simps [simp del]

definition mcb_start_width :: "u32 \<Rightarrow> u32" where
  "mcb_start_width start =
     (let cf = (start AND 0x80000000 \<noteq> 0);
          eax = push_bit 1 start;
          eax = (if cf then NOT eax else eax)
      in width_loop eax 0)"

definition mcb_size_width :: "u32 \<Rightarrow> u32" where
  "mcb_size_width siz = (let eax = push_bit 1 siz in width_loop eax 0)"

function write_le_bytes_loop :: "u32 \<Rightarrow> u32 \<Rightarrow> u32 \<Rightarrow> u32 \<Rightarrow> mem \<Rightarrow> mem" where
  "write_le_bytes_loop p n i x m =
     (if i < n then write_le_bytes_loop p n (i + 1) (drop_bit 8 x) (m(p + i := ucast x)) else m)"
  by pat_completeness auto
termination
  by (relation "measure (\<lambda>(p, n, i, x, m). unat n - unat i)") (simp_all add: unat_gap_less)

declare write_le_bytes_loop.simps [simp del]

definition write_le_bytes_ptr :: "u32 \<Rightarrow> u32 \<Rightarrow> u32 \<Rightarrow> mem \<Rightarrow> mem" where
  "write_le_bytes_ptr p v n m = write_le_bytes_loop p n 0 v m"

function slide_loop :: "u32 \<Rightarrow> u32 \<Rightarrow> u32 \<Rightarrow> u32 \<Rightarrow> mem \<Rightarrow> mem" where
  "slide_loop count i src dst m =
     (if i < count then slide_loop count (i + 1) (src - 4) (dst - 4) (store_u32 dst (load_u32 m src) m) else m)"
  by pat_completeness auto
termination
  by (relation "measure (\<lambda>(count, i, src, dst, m). unat count - unat i)") (simp_all add: unat_gap_less)

declare slide_loop.simps [simp del]

definition frs_slide_make_room_ptr :: "u32 \<Rightarrow> u32 \<Rightarrow> u32 \<Rightarrow> mem \<Rightarrow> mem" where
  "frs_slide_make_room_ptr frs dest new_real m =
     (let dest_off = dest - frs;
          src = frs + (new_real - 12);
          dst = frs + (new_real - 4);
          count = (new_real - dest_off - 8) div 4
      in slide_loop count 0 src dst m)"

text \<open>The value stored in \<^verbatim>\<open>*out_dest\<close> is a result: (returned code, new destination, memory).\<close>

definition ntfs_create_mcb_entry_ptr :: "u32 \<Rightarrow> u32 \<Rightarrow> u32 \<Rightarrow> u32 \<Rightarrow> u32 \<Rightarrow> mem \<Rightarrow> u32 \<times> u32 \<times> mem" where
  "ntfs_create_mcb_entry_ptr start siz dest attr frs m =
     (let start_w = mcb_start_width start;
          size_w = mcb_size_width siz;
          attr_size = load_u32 m (attr + OFF_SIZE_WITH_HEADER);
          new_end = dest + start_w + 1 + size_w;
          attr_end = attr + attr_size;
          borrow = (new_end < attr_end);
          need_extend = (\<not> borrow);
          write = (\<lambda>need_cld m.
            let edi = dest;
                m = m(edi := ucast (push_bit 4 (start_w AND 0x0F) OR (size_w AND 0x0F)));
                edi = edi + 1;
                m = write_le_bytes_ptr edi siz size_w m;
                edi = edi + size_w;
                m = write_le_bytes_ptr edi start start_w m;
                edi = edi + start_w
            in (need_cld, edi, m(edi := 0)))
      in if need_extend then
           let sw = load_u32 m (attr + OFF_SIZE_WITH_HEADER);
               low = ucast sw + 8 :: u16;
               new_sw = (sw AND 0xFFFF0000) OR ucast low;
               m = store_u32 (attr + OFF_SIZE_WITH_HEADER) new_sw m;
               record_real = load_u32 m (frs + OFF_RECORD_REAL_SIZE);
               record_alloc = load_u32 m (frs + OFF_RECORD_ALLOCATED_SIZE);
               new_real = record_real + 8
           in if new_real > record_alloc then (0, dest, m)
              else
                let m = store_u32 (frs + OFF_RECORD_REAL_SIZE) new_real m;
                    m = frs_slide_make_room_ptr frs dest new_real m
                in write 1 m
         else write 0 m)"

section \<open>Values of byte strings\<close>

lemma bit_le_or:
  "bit (le_or bs i acc) n \<longleftrightarrow> bit acc n \<or> (n < 64 \<and> 8 * i \<le> n \<and> n < 8 * (i + length bs) \<and> bit (bs ! ((n - 8 * i) div 8)) ((n - 8 * i) mod 8))"
proof (induction bs arbitrary: i acc)
  case (Cons b bs)
  show ?case
  proof (cases "8 * (i + 1) \<le> n")
    case True
    then obtain k where n: "n = 8 * (i + 1) + k" by (metis le_iff_add)
    have 8: "n - 8 * i = 8 + k" "n - 8 * (i + 1) = k" unfolding n by simp_all
    have "(8 + k) div 8 = Suc (k div 8)" "(8 + k) mod 8 = k mod 8" by simp_all
    with Cons.IH [of "i + 1" "acc OR push_bit (8 * i) (ucast b)"] True 8 show ?thesis
      by (auto simp: bit_simps bit_u8_high)
  next
    case False
    then have "n - 8 * i < 8" by simp
    with Cons.IH [of "i + 1" "acc OR push_bit (8 * i) (ucast b)"] False show ?thesis
      by (auto simp: bit_simps not_le)
  qed
qed auto

definition le_bytes :: "nat \<Rightarrow> 'a::len word \<Rightarrow> u8 list" where
  "le_bytes n v = map (\<lambda>k. byte k v) [0..<n]"

lemma length_le_bytes [simp]: "length (le_bytes n v) = n"
  by (simp add: le_bytes_def)

lemma bit_le_or_bytes: "bit (le_or (le_bytes k v) 0 0) n \<longleftrightarrow> n < 64 \<and> n < 8 * k \<and> bit v n" for v :: "'a::len word"
proof -
  have "n div 8 < k" if "n < 8 * k" using that by (simp add: div_less_iff_less_mult mult.commute)
  then show ?thesis
    by (auto simp: bit_le_or le_bytes_def bit_byte)
qed

section \<open>The decoder\<close>

lemma length_copy_into [simp]: "length (copy_into buf i bs) = length buf"
  by (induction bs arbitrary: buf i) auto

lemma take_copy_into: "i + length bs \<le> length buf \<Longrightarrow> take (i + length bs) (copy_into buf i bs) = take i buf @ bs"
proof (induction bs arbitrary: buf i)
  case (Cons b bs)
  then have "take (Suc i + length bs) (copy_into (buf[i := b]) (Suc i) bs) = take (Suc i) (buf[i := b]) @ bs"
    by (intro Cons.IH) simp
  then show ?case using Cons.prems by (simp add: take_Suc_conv_app_nth)
qed simp

lemma copy_into_value: "length bs \<le> length buf \<Longrightarrow> take (length bs) (copy_into buf 0 bs) = bs"
  using take_copy_into [of 0 bs buf] by simp

lemma write_u64_both:
  assumes "length buf = 16"
  shows "write_u64_le (write_u64_le buf 0 v) 8 w = le_bytes 8 v @ le_bytes 8 w"
proof -
  have 8: "[0..<8] = [0, 1, 2, 3, 4, 5, 6, 7]" by (simp add: upt_rec)
  obtain a0 a1 a2 a3 a4 a5 a6 a7 a8 a9 a10 a11 a12 a13 a14 a15
    where "buf = [a0, a1, a2, a3, a4, a5, a6, a7, a8, a9, a10, a11, a12, a13, a14, a15]"
    using assms by (auto simp: length_Suc_conv numeral_eq_Suc)
  then show ?thesis by (simp add: write_u64_le_def le_bytes_def 8)
qed

definition sign_extend :: "u8 list \<Rightarrow> u64" where
  "sign_extend bs =
     (let v = le_or bs 0 0 in if last bs \<ge> 0x80 \<and> length bs < 8 then v OR push_bit (8 * length bs) (NOT 0) else v)"

lemma decode_run:
  assumes "length buf = 16" and "header AND 0x0F = of_nat (length sb)" and "drop_bit 4 header = of_nat (length cb)"
    and "0 < length sb" "length sb \<le> 8" and "0 < length cb" "length cb \<le> 8" and "last sb < 0x80"
  shows "ntfs_decode_mcb_entry (header # sb @ cb @ rest) buf =
    (\<lparr>more_run = True, consumed = of_nat (1 + length sb + length cb)\<rparr>, le_bytes 8 (le_or sb 0 0) @ le_bytes 8 (sign_extend cb))"
proof -
  have l: "unat (header AND 0x0F) = length sb" "unat (drop_bit 4 header) = length cb"
    using assms(2-7) by (simp_all add: unat_of_nat_u8)
  have h: "header \<noteq> 0" using assms(2,4,5) l(1) by auto
  have s: "(sb @ cb @ rest) ! (length sb - 1) = last sb" using assms(4) by (simp add: nth_append last_conv_nth)
  have c: "(header # sb @ cb @ rest) ! (1 + length sb + length cb - 1) = last cb"
  proof -
    obtain n where n: "length cb = Suc n" using assms(6) by (cases "length cb") auto
    then show ?thesis by (simp add: nth_append last_conv_nth) (metis n diff_Suc_1 last_conv_nth list.size(3) nat.distinct(1))
  qed
  have v: "take (length sb) (copy_into buf 0 sb) = sb"
    using assms(1,5) by (intro copy_into_value) simp
  have ne: "length sb \<noteq> 0" "length cb \<noteq> 0" using assms(4,6) by auto
  have n1: "(header # sb @ cb @ rest) ! length sb = last sb" using s ne by (simp add: nth_Cons')
  have "\<not> last sb \<ge> 0x80" using assms(8) by (simp add: not_le)
  then show ?thesis
    unfolding ntfs_decode_mcb_entry_def Let_def l n1 c
    using assms(1,5,7) h ne by (simp add: l v n1 c [simplified] write_u64_both sign_extend_def Let_def)
qed

section \<open>The pointer form\<close>

lemma store_u64_le_put: "store_u64_le a v m = put_bytes a (le_bytes 8 v) m"
proof -
  have 8: "[0..<8] = [0, 1, 2, 3, 4, 5, 6, 7]" by (simp add: upt_rec)
  show ?thesis by (simp add: store_u64_le_def le_bytes_def 8 add.assoc)
qed

lemma run_loop_eq:
  assumes "unat n \<le> 8" and "i \<le> n"
    and "\<And>j k. j < unat n - unat i \<Longrightarrow> k < unat n - unat i \<Longrightarrow> esi + of_nat j \<noteq> buffer + i + of_nat k"
  shows "run_loop buffer n i esi run m =
    (let bs = mem_bytes m esi (unat n - unat i)
     in (esi + (n - i), le_or bs (unat i) run, put_bytes (buffer + i) bs m))"
  using assms(2,3)
proof (induction "unat n - unat i" arbitrary: i esi run m)
  case 0
  then have "i = n" by (simp add: word_le_nat_alt word_unat_eq_iff)
  then show ?case by (subst run_loop.simps) simp
next
  case (Suc d)
  then have lt: "i < n" by (simp add: word_less_nat_alt)
  have i1: "unat (i + 1) = Suc (unat i)" using lt by (rule unat_inc_less)
  have d: "d = unat n - unat (i + 1)" using Suc.hyps(2) i1 by simp
  have le: "i + 1 \<le> n" using lt i1 by (simp add: word_le_nat_alt word_less_nat_alt)
  define m1 where "m1 = m(buffer + i := m esi)"
  have ap: "esi + 1 + of_nat j \<noteq> buffer + (i + 1) + of_nat k" if "j < unat n - unat (i + 1)" "k < unat n - unat (i + 1)" for j k
    using Suc.prems(2) [of "Suc j" "Suc k"] that i1 by (simp add: algebra_simps)
  have keep: "mem_bytes m1 (esi + 1) d = mem_bytes m (esi + 1) d"
    using Suc.prems(2) [of "Suc j" 0 for j] Suc.hyps(2) by (intro mem_bytes_cong) (auto simp: m1_def algebra_simps)
  have e: "esi + 1 + (n - (i + 1)) = esi + (n - i)" "buffer + (i + 1) = buffer + i + 1" by simp_all
  have "run_loop buffer n i esi run m = run_loop buffer n (i + 1) (esi + 1) (run OR push_bit (8 * unat i) (ucast (m esi))) m1"
    using lt by (subst run_loop.simps) (simp add: Let_def m1_def)
  also have "\<dots> = (esi + (n - i), le_or (mem_bytes m (esi + 1) d) (Suc (unat i)) (run OR push_bit (8 * unat i) (ucast (m esi))),
      put_bytes (buffer + i + 1) (mem_bytes m (esi + 1) d) m1)"
    using Suc.hyps(1) [OF d le ap, of "run OR push_bit (8 * unat i) (ucast (m esi))" m1]
    unfolding Let_def d [symmetric] keep e unfolding i1 .
  finally show ?case by (simp add: Suc.hyps(2) [symmetric] m1_def)
qed

lemma cluster_loop_eq:
  assumes "i \<le> n"
  shows "cluster_loop m n i esi c = (esi + (n - i), le_or (mem_bytes m esi (unat n - unat i)) (unat i) c)"
  using assms
proof (induction "unat n - unat i" arbitrary: i esi c)
  case 0
  then have "i = n" by (simp add: word_le_nat_alt word_unat_eq_iff)
  then show ?case by (subst cluster_loop.simps) simp
next
  case (Suc d)
  then have lt: "i < n" by (simp add: word_less_nat_alt)
  have i1: "unat (i + 1) = Suc (unat i)" using lt by (rule unat_inc_less)
  have d: "d = unat n - unat (i + 1)" using Suc.hyps(2) i1 by simp
  have le: "i + 1 \<le> n" using lt i1 by (simp add: word_le_nat_alt word_less_nat_alt)
  have e: "esi + 1 + (n - (i + 1)) = esi + (n - i)" by simp
  have "cluster_loop m n i esi c = cluster_loop m n (i + 1) (esi + 1) (c OR push_bit (8 * unat i) (ucast (m esi)))"
    using lt by (subst cluster_loop.simps) simp
  also have "\<dots> = (esi + (n - i), le_or (mem_bytes m (esi + 1) d) (Suc (unat i)) (c OR push_bit (8 * unat i) (ucast (m esi))))"
    using Suc.hyps(1) [OF d le, of "esi + 1"] unfolding d [symmetric] e unfolding i1 .
  finally show ?case by (simp add: Suc.hyps(2) [symmetric])
qed

lemma nth_copy_into:
  "i + length bs \<le> length buf \<Longrightarrow> copy_into buf i bs ! j = (if i \<le> j \<and> j < i + length bs then bs ! (j - i) else buf ! j)"
proof (induction bs arbitrary: buf i)
  case (Cons b bs)
  have "copy_into (buf[i := b]) (Suc i) bs ! j =
      (if Suc i \<le> j \<and> j < Suc i + length bs then bs ! (j - Suc i) else buf[i := b] ! j)"
    using Cons.prems by (intro Cons.IH) simp
  then show ?case using Cons.prems by (auto simp: nth_list_update nth_Cons')
qed auto

lemma copy_into_eq: "length bs \<le> length buf \<Longrightarrow> copy_into buf 0 bs = bs @ drop (length bs) buf"
  by (rule nth_equalityI) (auto simp: nth_copy_into nth_append)

lemma put_bytes_over: "length xs \<le> length ys \<Longrightarrow> length ys \<le> 2 ^ 32 \<Longrightarrow> put_bytes a ys (put_bytes a xs m) = put_bytes a ys m"
  by (rule ext) (simp add: put_bytes_at)

lemma drop_mem_bytes: "k \<le> n \<Longrightarrow> drop k (mem_bytes m a n) = mem_bytes m (a + of_nat k) (n - k)"
  using mem_bytes_append [of m a k "n - k"] by simp

lemma take_mem_bytes: "k \<le> n \<Longrightarrow> take k (mem_bytes m a n) = mem_bytes m a k"
  using mem_bytes_append [of m a k "n - k"] by simp

lemma put_bytes_fill:
  assumes "length xs \<le> n" and "n < 2 ^ 32"
  shows "put_bytes a (xs @ drop (length xs) (mem_bytes m a n)) m = put_bytes a xs m"
proof (rule ext)
  fix x
  show "put_bytes a (xs @ drop (length xs) (mem_bytes m a n)) m x = put_bytes a xs m x"
    using assms by (simp add: put_bytes_at nth_append nth_mem_bytes)
qed

lemma write_u64_le_0: "length buf = 16 \<Longrightarrow> write_u64_le buf 0 v = le_bytes 8 v @ drop 8 buf"
proof -
  assume "length buf = 16"
  then obtain a0 a1 a2 a3 a4 a5 a6 a7 a8 a9 a10 a11 a12 a13 a14 a15
    where "buf = [a0, a1, a2, a3, a4, a5, a6, a7, a8, a9, a10, a11, a12, a13, a14, a15]"
    by (auto simp: length_Suc_conv numeral_eq_Suc)
  moreover have "[0..<8] = [0, 1, 2, 3, 4, 5, 6, 7]" by (simp add: upt_rec)
  ultimately show ?thesis by (simp add: write_u64_le_def le_bytes_def)
qed

lemma put_bytes_apart:
  assumes "apart a n b k" and "i < n" and "length bs \<le> k" and "k < 2 ^ 32"
  shows "put_bytes b bs m (a + of_nat i) = m (a + of_nat i)"
  using assms by (intro put_bytes_other) (simp add: apart_def)

lemma entry_kept:
  "apart esi 17 buffer 16 \<Longrightarrow> length bs \<le> 16 \<Longrightarrow> i < 17 \<Longrightarrow> put_bytes buffer bs m (esi + of_nat i) = m (esi + of_nat i)"
  by (intro put_bytes_apart) auto

lemma run_loop_entry:
  assumes "apart esi 17 buffer 16" and "unat n \<le> 8"
  shows "run_loop buffer n 0 (esi + 1) 0 m =
    (esi + 1 + n, le_or (mem_bytes m (esi + 1) (unat n)) 0 0, put_bytes buffer (mem_bytes m (esi + 1) (unat n)) m)"
proof -
  have "esi + of_nat (Suc j) \<noteq> buffer + of_nat k" if "j < unat n" "k < unat n" for j k
    using assms(1) [unfolded apart_def, rule_format, of "Suc j" k] that assms(2) by linarith
  then have "esi + 1 + of_nat j \<noteq> buffer + 0 + of_nat k" if "j < unat n - unat (0 :: u32)" "k < unat n - unat (0 :: u32)" for j k
    using that by (simp add: add.assoc)
  from run_loop_eq [OF _ _ this, where run = 0 and m = m] assms(2) show ?thesis by (simp add: Let_def)
qed

lemma cluster_loop_entry:
  assumes "apart esi 17 buffer 16" and "length bs \<le> 16" and "a \<le> 8" and "unat n \<le> 8"
  shows "cluster_loop (put_bytes buffer bs m) n 0 (esi + 1 + of_nat a) 0 =
    (esi + 1 + of_nat a + n, le_or (mem_bytes m (esi + of_nat (1 + a)) (unat n)) 0 0)"
proof -
  have "mem_bytes (put_bytes buffer bs m) (esi + of_nat (1 + a)) (unat n) = mem_bytes m (esi + of_nat (1 + a)) (unat n)"
  proof (rule mem_bytes_cong)
    fix i assume "i < unat n"
    then show "put_bytes buffer bs m (esi + of_nat (1 + a) + of_nat i) = m (esi + of_nat (1 + a) + of_nat i)"
      using entry_kept [OF assms(1,2), of "1 + a + i" m] assms(3,4) by (simp add: add.assoc)
  qed
  then show ?thesis
    using cluster_loop_eq [of 0 n "put_bytes buffer bs m" "esi + 1 + of_nat a" 0] by (simp add: add.assoc)
qed

text \<open>The reference the two forms share: the three outcomes of an entry, with the buffer they leave.\<close>

definition entry_run :: "mem \<Rightarrow> u32 \<Rightarrow> nat \<Rightarrow> u64" where
  "entry_run m esi a = le_or (mem_bytes m (esi + 1) a) 0 0"

definition entry_cluster :: "mem \<Rightarrow> u32 \<Rightarrow> nat \<Rightarrow> nat \<Rightarrow> u64" where
  "entry_cluster m esi a c =
     (let cluster = le_or (mem_bytes m (esi + of_nat (1 + a)) c) 0 0
      in if m (esi + of_nat (a + c)) \<ge> 0x80 \<and> c < 8 then cluster OR push_bit (8 * c) (NOT 0) else cluster)"

definition entry_outcome :: "mem \<Rightarrow> u32 \<Rightarrow> bool \<times> nat \<times> u8 list" where
  "entry_outcome m esi =
     (let a = unat (m esi AND 0x0F); c = unat (drop_bit 4 (m esi))
      in if m esi = 0 \<or> a > 8 then (False, 1, [])
         else if m (esi + of_nat a) \<ge> 0x80 then (False, 1 + a, mem_bytes m (esi + 1) a)
         else if c > 8 then (False, 1 + a, le_bytes 8 (entry_run m esi a))
         else (True, 1 + a + c, le_bytes 8 (entry_run m esi a) @ le_bytes 8 (entry_cluster m esi a c)))"

lemma decode_ptr_outcome:
  assumes "apart esi 17 buffer 16" and "entry_outcome m esi = (mr, n, bs)"
  shows "ntfs_decode_mcb_entry_ptr esi buffer m = (if mr then 1 else 0, esi + of_nat n, put_bytes buffer bs m)"
proof -
  define a c where "a = unat (m esi AND 0x0F)" and "c = unat (drop_bit 4 (m esi))"
  let ?a = "ucast (m esi AND 0x0F) :: u32"
  let ?c = "ucast (drop_bit 4 (m esi)) :: u32"
  have u: "unat ?a = a" "unat ?c = c" by (simp_all add: a_def c_def unat_ucast_up)
  have w: "?a = of_nat a" "?c = of_nat c" by (simp_all add: u [symmetric])
  have cmp: "?a > 8 \<longleftrightarrow> a > 8" "?c > 8 \<longleftrightarrow> c > 8" "?c < 8 \<longleftrightarrow> c < 8"
    by (simp_all add: word_less_nat_alt u)
  note out = assms(2) [unfolded entry_outcome_def Let_def, folded a_def c_def]
  show ?thesis
  proof (cases "m esi = 0 \<or> a > 8")
    case True
    then show ?thesis using out by (cases "m esi = 0") (auto simp: ntfs_decode_mcb_entry_ptr_def Let_def cmp)
  next
    case False
    then have a8: "a \<le> 8" and h: "m esi \<noteq> 0" by auto
    let ?sb = "mem_bytes m (esi + 1) a" and ?run = "entry_run m esi a"
    have loop: "run_loop buffer ?a 0 (esi + 1) 0 m = (esi + 1 + of_nat a, ?run, put_bytes buffer ?sb m)"
      using run_loop_entry [OF assms(1), of ?a m, unfolded u, unfolded w] a8 by (simp add: w entry_run_def)
    have l: "put_bytes buffer ?sb m (esi + of_nat a) = m (esi + of_nat a)"
      by (rule entry_kept [OF assms(1)]) (use a8 in simp_all)
    have st: "store_u64_le buffer ?run (put_bytes buffer ?sb m) = put_bytes buffer (le_bytes 8 ?run) m"
      unfolding store_u64_le_put using a8 by (intro put_bytes_over) simp_all
    have clu: "cluster_loop (put_bytes buffer (le_bytes 8 ?run) m) ?c 0 (esi + 1 + of_nat a) 0 =
        (esi + 1 + of_nat a + of_nat c, le_or (mem_bytes m (esi + of_nat (1 + a)) c) 0 0)" if "c \<le> 8"
      using cluster_loop_entry [OF assms(1), of "le_bytes 8 ?run" a ?c m, unfolded u, unfolded w] a8 that by (simp add: w)
    have lc: "put_bytes buffer (le_bytes 8 ?run) m (esi + of_nat (a + c)) = m (esi + of_nat (a + c))" if "c \<le> 8"
      by (rule entry_kept [OF assms(1)]) (use a8 that in simp_all)
    show ?thesis using h a8 out l clu lc
      by (auto simp: ntfs_decode_mcb_entry_ptr_def Let_def cmp loop st [unfolded store_u64_le_put] u entry_cluster_def store_u64_le_put put_bytes_append
          add.assoc not_less split: if_splits)
  qed
qed

lemma decode_slice_outcome:
  assumes "entry_outcome m esi = (mr, n, bs)" and "length buf = 16"
  shows "ntfs_decode_mcb_entry (mem_bytes m esi 17) buf =
    (\<lparr>more_run = mr, consumed = of_nat n\<rparr>, bs @ drop (length bs) buf)"
proof -
  define a c where "a = unat (m esi AND 0x0F)" and "c = unat (drop_bit 4 (m esi))"
  define E where "E = mem_bytes m esi 17"
  have E: "E \<noteq> []" "E ! 0 = m esi" "length E = 17" by (auto simp: E_def nth_mem_bytes simp flip: length_greater_0_conv)
  have nth: "i < 17 \<Longrightarrow> E ! i = m (esi + of_nat i)" for i by (simp add: E_def nth_mem_bytes)
  have part: "take k (drop i E) = mem_bytes m (esi + of_nat i) k" if "i + k \<le> 17" for i k
    unfolding E_def using that by (simp add: drop_mem_bytes take_mem_bytes del: of_nat_add)
  note out = assms(1) [unfolded entry_outcome_def Let_def, folded a_def c_def]
  show ?thesis
  proof (cases "m esi = 0 \<or> a > 8")
    case True
    then show ?thesis using out E
      by (cases "m esi = 0") (auto simp: ntfs_decode_mcb_entry_def Let_def E_def [symmetric] a_def [symmetric])
  next
    case False
    then have a8: "a \<le> 8" and h: "m esi \<noteq> 0" by auto
    let ?sb = "mem_bytes m (esi + 1) a" and ?run = "entry_run m esi a"
    have sb: "take a (drop 1 E) = ?sb" using part [of 1 a] a8 by simp
    have l: "(if a = 0 then m esi else E ! a) = m (esi + of_nat a)" using a8 by (simp add: nth)
    have run: "le_or (take a (copy_into buf 0 ?sb)) 0 0 = ?run"
      using copy_into_value [of ?sb buf] a8 assms(2) by (simp add: entry_run_def)
    have buf1: "copy_into buf 0 ?sb = ?sb @ drop a buf" using a8 assms(2) by (simp add: copy_into_eq)
    have buf2: "write_u64_le (copy_into buf 0 ?sb) 0 ?run = le_bytes 8 ?run @ drop 8 buf"
      using a8 assms(2) by (simp add: write_u64_le_0 copy_into_eq)
    have buf3: "write_u64_le (write_u64_le (copy_into buf 0 ?sb) 0 ?run) 8 v = le_bytes 8 ?run @ le_bytes 8 v" for v
      using a8 assms(2) by (intro write_u64_both) (simp add: copy_into_eq)
    have cb: "take c (drop (1 + a) E) = mem_bytes m (esi + of_nat (1 + a)) c"
        "(if c = 0 then m (esi + of_nat a) else E ! (1 + a + c - 1)) = m (esi + of_nat (a + c))" if "c \<le> 8"
      using part [of "1 + a" c] nth [of "a + c"] a8 that by (simp_all del: of_nat_add of_nat_Suc)
    note code = ntfs_decode_mcb_entry_def [of E buf, unfolded Let_def E(2), folded a_def c_def, unfolded sb l run]
    have code2: "c \<le> 8 \<Longrightarrow> ntfs_decode_mcb_entry E buf =
        (if m (esi + of_nat a) \<ge> 0x80 then (\<lparr>more_run = False, consumed = of_nat (1 + a)\<rparr>, ?sb @ drop a buf)
         else (\<lparr>more_run = True, consumed = of_nat (1 + a + c)\<rparr>, le_bytes 8 ?run @ le_bytes 8 (entry_cluster m esi a c)))"
      unfolding code cb(1) using cb(2) E h a8 by (simp add: cb buf1 buf3 [unfolded buf1] entry_cluster_def Let_def del: of_nat_add of_nat_Suc)
    show ?thesis
    proof (cases "c \<le> 8")
      case True
      with out h a8 code2 assms(2) show ?thesis by (auto simp: E_def split: if_splits)
    next
      case False
      with out h a8 E show ?thesis unfolding E_def [symmetric] code by (auto simp: buf1 buf2 [unfolded buf1] split: if_splits)
    qed
  qed
qed

lemma outcome_length: "entry_outcome m esi = (mr, n, bs) \<Longrightarrow> length bs \<le> 16"
  by (auto simp: entry_outcome_def Let_def split: if_splits)

lemma decode_ptr_slice:
  assumes "apart esi 17 buffer 16"
    and "ntfs_decode_mcb_entry (mem_bytes m esi 17) (mem_bytes m buffer 16) = (r, buf)"
  shows "ntfs_decode_mcb_entry_ptr esi buffer m =
    (if more_run r then 1 else 0, esi + consumed r, put_bytes buffer buf m)"
proof -
  obtain mr n bs where o: "entry_outcome m esi = (mr, n, bs)" by (cases "entry_outcome m esi") auto
  have "put_bytes buffer (bs @ drop (length bs) (mem_bytes m buffer 16)) m = put_bytes buffer bs m"
    using outcome_length [OF o] by (intro put_bytes_fill) simp_all
  then show ?thesis
    using decode_slice_outcome [OF o, of "mem_bytes m buffer 16"] decode_ptr_outcome [OF assms(1) o] assms(2) by auto
qed

section \<open>Widths\<close>

definition byte_width :: "u32 \<Rightarrow> nat" where
  "byte_width x = (if drop_bit 8 x = 0 then 1 else if drop_bit 16 x = 0 then 2 else if drop_bit 24 x = 0 then 3 else 4)"

lemma byte_width_bounds: "1 \<le> byte_width x" "byte_width x \<le> 4"
  by (simp_all add: byte_width_def)

lemma width_loop_eq: "width_loop x 0 = of_nat (byte_width x)"
proof -
  have d: "drop_bit 8 (drop_bit 8 x) = drop_bit 16 x" "drop_bit 8 (drop_bit 16 x) = drop_bit 24 x"
    by (simp_all only: drop_bit_drop_bit) simp_all
  have z: "drop_bit 8 (drop_bit 24 x) = 0"
    by (rule bit_word_eqI) (simp add: bit_simps bit_u32_high)
  show ?thesis
    by (simp add: byte_width_def Let_def d z width_loop.simps [of x] width_loop.simps [of "drop_bit 8 x"]
        width_loop.simps [of "drop_bit 16 x"] width_loop.simps [of "drop_bit 24 x"])
qed

lemma bit_above_width: "8 * byte_width x \<le> n \<Longrightarrow> \<not> bit x n"
proof -
  assume n: "8 * byte_width x \<le> n"
  have z: "\<not> bit x n" if "drop_bit k x = 0" "k \<le> n" for k
  proof -
    have "bit (drop_bit k x) (n - k) = bit x n" using that(2) by (simp add: bit_simps)
    with that(1) show ?thesis by simp
  qed
  show ?thesis
    using n z [of 8] z [of 16] z [of 24] bit_u32_high [of n x] by (auto simp: byte_width_def split: if_splits)
qed

definition start_bytes :: "u32 \<Rightarrow> nat" where
  "start_bytes start = byte_width (if bit start 31 then NOT (push_bit 1 start) else push_bit 1 start)"

definition size_bytes :: "u32 \<Rightarrow> nat" where
  "size_bytes siz = byte_width (push_bit 1 siz)"

lemma sign_test: "start AND 0x80000000 \<noteq> 0 \<longleftrightarrow> bit start 31" for start :: u32
proof -
  have e: "start AND 0x80000000 = (if bit start 31 then 0x80000000 else 0)"
  proof (rule bit_word_eqI)
    fix n assume "n < LENGTH(32)"
    have "bit (0x80000000 :: u32) n \<longleftrightarrow> n = 31"
      using bit_exp_iff [where 'a = u32 and m = 31 and n = n] by auto
    then show "bit (start AND 0x80000000) n = bit (if bit start 31 then 0x80000000 else 0 :: u32) n"
      by (simp add: bit_and_iff) blast
  qed
  show ?thesis unfolding e by simp
qed

lemma mcb_widths: "mcb_start_width start = of_nat (start_bytes start)" "mcb_size_width siz = of_nat (size_bytes siz)"
  by (simp_all only: mcb_start_width_def mcb_size_width_def start_bytes_def size_bytes_def Let_def sign_test width_loop_eq)

lemma width_bounds: "1 \<le> start_bytes s" "start_bytes s \<le> 4" "1 \<le> size_bytes z" "size_bytes z \<le> 4"
  using byte_width_bounds by (simp_all only: start_bytes_def size_bytes_def)

lemma bit_shl_1: "bit (push_bit 1 x) (Suc n) \<longleftrightarrow> n < 31 \<and> bit x n" for x :: u32
  by (auto simp: bit_push_bit_iff simp del: One_nat_def push_bit_Suc dest: bit_imp_le_length)

text \<open>All bits of the start value from the top bit of its encoding on are its sign.\<close>

lemma start_bits: "8 * start_bytes start \<le> Suc n \<Longrightarrow> n < 32 \<Longrightarrow> bit start n = bit start 31"
proof -
  define eax where "eax = (if bit start 31 then NOT (push_bit 1 start) else push_bit 1 start)"
  assume "8 * start_bytes start \<le> Suc n" and n: "n < 32"
  then have b: "\<not> bit eax (Suc n)" by (intro bit_above_width) (simp add: start_bytes_def eax_def)
  show ?thesis
  proof (cases "n = 31")
    case False
    with n b bit_shl_1 [of start n] show ?thesis by (auto simp: eax_def bit_not_iff simp del: One_nat_def push_bit_Suc split: if_splits)
  qed simp
qed

lemma size_bits: "unat siz < 2 ^ 31 \<Longrightarrow> 8 * size_bytes siz \<le> Suc n \<Longrightarrow> \<not> bit siz n"
proof -
  assume small: "unat siz < 2 ^ 31" and "8 * size_bytes siz \<le> Suc n"
  then have b: "\<not> bit (push_bit 1 siz) (Suc n)" by (intro bit_above_width) (simp add: size_bytes_def)
  show ?thesis
  proof
    assume "bit siz n"
    then have "n < 31" using small by (rule bit_below)
    with b \<open>bit siz n\<close> bit_shl_1 [of siz n] show False by blast
  qed
qed

section \<open>The encoder\<close>

definition mcb_bytes :: "u32 \<Rightarrow> u32 \<Rightarrow> u8 list" where
  "mcb_bytes start siz =
     of_nat (16 * start_bytes start + size_bytes siz) # le_bytes (size_bytes siz) siz @ le_bytes (start_bytes start) start"

lemma width_cases: "n \<in> {1, 2, 3, 4}" if "1 \<le> n" "n \<le> 4" for n :: nat
  using that by auto

lemma header_byte:
  assumes "1 \<le> a" "a \<le> 4" "1 \<le> c" "c \<le> 4"
  shows "ucast (push_bit 4 ((of_nat a :: u32) AND 0x0F) OR (of_nat c AND 0x0F)) = (of_nat (16 * a + c) :: u8)"
    and "(of_nat (16 * a + c) :: u8) AND 0x0F = of_nat c" and "drop_bit 4 (of_nat (16 * a + c) :: u8) = of_nat a"
proof -
  have *: "\<forall>a \<in> {1, 2, 3, 4}. \<forall>c \<in> {1, 2, 3, 4}.
      ucast (push_bit 4 ((of_nat a :: u32) AND 0x0F) OR (of_nat c AND 0x0F)) = (of_nat (16 * a + c) :: u8)
      \<and> (of_nat (16 * a + c) :: u8) AND 0x0F = of_nat c \<and> drop_bit 4 (of_nat (16 * a + c) :: u8) = of_nat a"
    by code_simp
  show "ucast (push_bit 4 ((of_nat a :: u32) AND 0x0F) OR (of_nat c AND 0x0F)) = (of_nat (16 * a + c) :: u8)"
    and "(of_nat (16 * a + c) :: u8) AND 0x0F = of_nat c" and "drop_bit 4 (of_nat (16 * a + c) :: u8) = of_nat a"
    using * width_cases [OF assms(1,2)] width_cases [OF assms(3,4)] by blast+
qed

lemma last_le_bytes: "0 < n \<Longrightarrow> last (le_bytes n v) = byte (n - 1) v"
  by (cases n) (simp_all add: le_bytes_def)

lemma u8_ge_80: "b \<ge> 0x80 \<longleftrightarrow> bit b 7" for b :: u8
  using sint_less_0_iff [of b] bit_last_iff [of b] by (simp add: word_le_nat_alt)

lemma size_decodes: "unat siz < 2 ^ 31 \<Longrightarrow> le_or (le_bytes (size_bytes siz) siz) 0 0 = ucast siz"
proof (rule bit_word_eqI)
  fix n assume small: "unat siz < 2 ^ 31" and "n < LENGTH(64)"
  then show "bit (le_or (le_bytes (size_bytes siz) siz) 0 0) n = bit (ucast siz :: u64) n"
    using size_bits [OF small, of n] by (cases "n < 8 * size_bytes siz") (auto simp: bit_le_or_bytes bit_simps)
qed

lemma start_decodes: "sign_extend (le_bytes (start_bytes start) start) = scast start"
proof -
  let ?k = "start_bytes start"
  have k: "1 \<le> ?k" "?k \<le> 4" by (rule width_bounds)+
  have "bit (byte (?k - 1) start) 7 = bit start (8 * ?k - 1)"
    using k by (auto simp: bit_byte algebra_simps intro!: arg_cong [of _ _ "bit start"])
  also have "\<dots> = bit start 31" using k by (intro start_bits) simp_all
  finally have neg: "last (le_bytes ?k start) \<ge> 0x80 \<longleftrightarrow> bit start 31"
    using k by (simp add: last_le_bytes u8_ge_80)
  have "bit (sign_extend (le_bytes ?k start)) n = bit (scast start :: u64) n" if "n < 64" for n
  proof (cases "n < 8 * ?k")
    case True
    then show ?thesis using k that
      by (auto simp: sign_extend_def Let_def neg bit_or_iff bit_le_or_bytes bit_not_iff bit_mask_iff bit_signed_iff)
  next
    case False
    have m: "bit start (min 31 n) = bit start 31"
    proof (cases "n < 32")
      case True
      then have "min 31 n = n" by simp
      moreover have "bit start n = bit start 31" using True False by (intro start_bits) simp_all
      ultimately show ?thesis by (simp only:)
    qed (simp add: min_def)
    show ?thesis using False k that
      by (simp add: sign_extend_def Let_def neg bit_or_iff bit_le_or_bytes bit_not_iff bit_mask_iff bit_signed_iff m)
  qed
  then show ?thesis by (intro bit_word_eqI) simp
qed

lemma encoded_run_decodes:
  assumes "unat siz < 2 ^ 31" and "length buf = 16"
  shows "ntfs_decode_mcb_entry (mcb_bytes start siz @ rest) buf =
    (\<lparr>more_run = True, consumed = of_nat (length (mcb_bytes start siz))\<rparr>,
     le_bytes 8 (ucast siz :: u64) @ le_bytes 8 (scast start :: u64))"
proof -
  note w = width_bounds(1,2) [of start] width_bounds(3,4) [of siz]
  have "\<not> bit (byte (size_bytes siz - 1) siz) 7"
    using size_bits [OF assms(1), of "8 * (size_bytes siz - 1) + 7"] by (simp add: bit_byte)
  then have last: "last (le_bytes (size_bytes siz) siz) < 0x80"
    using w(3) u8_ge_80 [of "byte (size_bytes siz - 1) siz"] by (simp add: last_le_bytes)
  have "ntfs_decode_mcb_entry (of_nat (16 * start_bytes start + size_bytes siz) #
      le_bytes (size_bytes siz) siz @ le_bytes (start_bytes start) start @ rest) buf =
    (\<lparr>more_run = True, consumed = of_nat (1 + length (le_bytes (size_bytes siz) siz) + length (le_bytes (start_bytes start) start))\<rparr>,
     le_bytes 8 (le_or (le_bytes (size_bytes siz) siz) 0 0) @ le_bytes 8 (sign_extend (le_bytes (start_bytes start) start)))"
  proof (rule decode_run [OF assms(2)])
    show "(of_nat (16 * start_bytes start + size_bytes siz) :: u8) AND 0x0F = of_nat (length (le_bytes (size_bytes siz) siz))"
      using header_byte(2) [OF w] by (simp only: length_le_bytes)
    show "drop_bit 4 (of_nat (16 * start_bytes start + size_bytes siz) :: u8) = of_nat (length (le_bytes (start_bytes start) start))"
      using header_byte(3) [OF w] by (simp only: length_le_bytes)
  qed (use w last in simp_all)
  then show ?thesis
    by (simp only: mcb_bytes_def size_decodes [OF assms(1)] start_decodes append_Cons append_assoc list.size length_append length_le_bytes)
      (simp add: add.assoc)
qed

lemma write_le_bytes_loop_eq:
  assumes "i \<le> n" and "x = drop_bit (8 * unat i) v"
  shows "write_le_bytes_loop p n i x m = put_bytes (p + i) (map (\<lambda>k. byte k v) [unat i..<unat n]) m"
  using assms
proof (induction "unat n - unat i" arbitrary: i x m)
  case 0
  then have "i = n" by (simp add: word_le_nat_alt word_unat_eq_iff)
  then show ?case by (subst write_le_bytes_loop.simps) simp
next
  case (Suc d)
  then have lt: "i < n" by (simp add: word_less_nat_alt)
  have i1: "unat (i + 1) = Suc (unat i)" using lt by (rule unat_inc_less)
  have d: "d = unat n - unat (i + 1)" using Suc.hyps(2) i1 by simp
  have le: "i + 1 \<le> n" using lt i1 by (simp add: word_le_nat_alt word_less_nat_alt)
  have x: "drop_bit 8 x = drop_bit (8 * unat (i + 1)) v"
    unfolding Suc.prems(2) drop_bit_drop_bit i1 by (simp add: add.commute)
  have up: "[unat i..<unat n] = unat i # [unat (i + 1)..<unat n]"
    using lt by (simp add: i1 upt_conv_Cons word_less_nat_alt)
  have "write_le_bytes_loop p n i x m = write_le_bytes_loop p n (i + 1) (drop_bit 8 x) (m(p + i := ucast x))"
    using lt by (subst write_le_bytes_loop.simps) simp
  also have "\<dots> = put_bytes (p + (i + 1)) (map (\<lambda>k. byte k v) [unat (i + 1)..<unat n]) (m(p + i := ucast x))"
    by (rule Suc.hyps(1) [OF d le x])
  finally show ?case unfolding up by (simp add: Suc.prems(2) byte_def add.assoc)
qed

lemma write_le_bytes_eq: "write_le_bytes_ptr p v n m = put_bytes p (le_bytes (unat n) v) m"
  using write_le_bytes_loop_eq [of 0 n v v p m] by (simp add: write_le_bytes_ptr_def le_bytes_def)

text \<open>The part of the encoder that writes the entry and its terminator.\<close>

lemma entry_written:
  "(let edi = dest;
        m = m(edi := ucast (push_bit 4 (mcb_start_width start AND 0x0F) OR (mcb_size_width siz AND 0x0F)));
        edi = edi + 1;
        m = write_le_bytes_ptr edi siz (mcb_size_width siz) m;
        edi = edi + mcb_size_width siz;
        m = write_le_bytes_ptr edi start (mcb_start_width start) m;
        edi = edi + mcb_start_width start
    in (need_cld, edi, m(edi := 0))) =
   (need_cld, dest + of_nat (length (mcb_bytes start siz)), put_bytes dest (mcb_bytes start siz @ [0]) m)"
proof -
  note w = width_bounds(1,2) [of start] width_bounds(3,4) [of siz]
  have u: "unat (mcb_start_width start) = start_bytes start" "unat (mcb_size_width siz) = size_bytes siz"
    using w by (simp_all add: mcb_widths unat_of_nat_u32)
  show ?thesis
    unfolding Let_def write_le_bytes_eq u unfolding mcb_widths header_byte(1) [OF w]
    by (simp add: mcb_bytes_def put_bytes_append add.assoc add.left_commute)
qed

text \<open>C6: The two forms of the run decoder agree on every input: the pointer form answers 1 exactly when the
  slice form reports a run, advances the pointer by the number of bytes the slice form consumed, and
  leaves in the 16-byte buffer what the slice form leaves there, on every rejected entry too.\<close>

theorem decode_forms_agree:
  assumes "apart esi 17 buffer 16"
    and "ntfs_decode_mcb_entry (mem_bytes m esi 17) (mem_bytes m buffer 16) = (r, buf)"
  shows "ntfs_decode_mcb_entry_ptr esi buffer m =
    (if more_run r then 1 else 0, esi + consumed r, put_bytes buffer buf m)"
  using assms by (rule decode_ptr_slice)

definition run_witness :: mem where
  "run_witness = put_bytes 0x100 [0x21, 0x18, 0x34, 0xF6, 0] (\<lambda>a. 0xAA)"

theorem decode_forms_agree_witness:
  "ntfs_decode_mcb_entry_ptr 0x100 0x200 run_witness =
    (let (r, buf) = ntfs_decode_mcb_entry (mem_bytes run_witness 0x100 17) (mem_bytes run_witness 0x200 16)
     in (if more_run r then 1 else 0, 0x100 + consumed r, put_bytes 0x200 buf run_witness))
   \<and> more_run (fst (ntfs_decode_mcb_entry (mem_bytes run_witness 0x100 17) (mem_bytes run_witness 0x200 16)))"
proof
  have "apart 0x100 17 0x200 16" by (rule apartI) simp_all
  then show "ntfs_decode_mcb_entry_ptr 0x100 0x200 run_witness =
    (let (r, buf) = ntfs_decode_mcb_entry (mem_bytes run_witness 0x100 17) (mem_bytes run_witness 0x200 16)
     in (if more_run r then 1 else 0, 0x100 + consumed r, put_bytes 0x200 buf run_witness))"
    using decode_forms_agree [of "0x100" "0x200" run_witness]
    by (cases "ntfs_decode_mcb_entry (mem_bytes run_witness 0x100 17) (mem_bytes run_witness 0x200 16)") simp
  show "more_run (fst (ntfs_decode_mcb_entry (mem_bytes run_witness 0x100 17) (mem_bytes run_witness 0x200 16)))"
    by code_simp
qed

lemma create_mcb_cases:
  "ntfs_create_mcb_entry_ptr start siz dest attr frs m =
    (let entry = mcb_bytes start siz @ [0];
         edi = dest + of_nat (length (mcb_bytes start siz))
     in if edi < attr + load_u32 m (attr + 4) then (0, edi, put_bytes dest entry m)
        else
          let sw = load_u32 m (attr + 4);
              m1 = store_u32 (attr + 4) ((sw AND 0xFFFF0000) OR ucast (ucast sw + 8 :: u16)) m;
              new_real = load_u32 m1 (frs + 0x18) + 8
          in if new_real > load_u32 m1 (frs + 0x1C) then (0, dest, m1)
             else (1, edi, put_bytes dest entry (frs_slide_make_room_ptr frs dest new_real (store_u32 (frs + 0x18) new_real m1))))"
proof -
  have e: "dest + mcb_start_width start + 1 + mcb_size_width siz = dest + of_nat (length (mcb_bytes start siz))"
    by (simp add: mcb_widths mcb_bytes_def add.assoc add.left_commute add.commute)
  show ?thesis
    unfolding ntfs_create_mcb_entry_ptr_def Let_def [where s = "mcb_start_width start"] Let_def [where s = "mcb_size_width siz"]
      entry_written e OFF_SIZE_WITH_HEADER_def OFF_RECORD_REAL_SIZE_def OFF_RECORD_ALLOCATED_SIZE_def
    by (simp only: Let_def not_not if_not_P split: if_split) simp
qed

lemma store_load_at: "store_u32 a (load_u32 m b) m x = (if unat (x - a) < 4 then m (b + (x - a)) else m x)"
proof (cases "unat (x - a) < 4")
  case True
  then obtain k where k: "k < 4" "x = a + of_nat k" by (intro that [of "unat (x - a)"]) simp_all
  then consider "k = 0" | "k = 1" | "k = 2" | "k = 3" by linarith
  then show ?thesis by cases (simp_all add: k(2) store_u32_def load_u32_def byte_le32)
next
  case False
  then have "4 \<le> x - a" by (simp add: word_le_nat_alt)
  with False show ?thesis by (simp add: store_u32_other)
qed

text \<open>The slide moves \<open>4 * r\<close> bytes that start at \<open>lo\<close> up by eight bytes.\<close>

lemma slide_loop_at:
  assumes "unat count - unat i = r" and "4 * r + 8 < 2 ^ 32"
  shows "slide_loop count i (lo + of_nat (4 * r) - 4) (lo + of_nat (4 * r) + 4) m x =
    (if unat (x - (lo + 8)) < 4 * r then m (x - 8) else m x)"
  using assms
proof (induction r arbitrary: i m)
  case 0
  then have "\<not> i < count" by (simp add: word_less_nat_alt)
  then show ?case by (subst slide_loop.simps) simp
next
  case (Suc r)
  then have lt: "i < count" by (simp add: word_less_nat_alt)
  let ?a = "lo + 8 + of_nat (4 * r)" and ?b = "lo + of_nat (4 * r)"
  define m1 where "m1 = store_u32 ?a (load_u32 m ?b) m"
  have m1: "m1 x = (if unat (x - ?a) < 4 then m (?b + (x - ?a)) else m x)" for x
    unfolding m1_def by (rule store_load_at)
  have "slide_loop count i (lo + of_nat (4 * Suc r) - 4) (lo + of_nat (4 * Suc r) + 4) m
      = slide_loop count (i + 1) (lo + of_nat (4 * r) - 4) (lo + of_nat (4 * r) + 4) m1"
    using lt by (subst slide_loop.simps) (simp add: m1_def algebra_simps)
  moreover have "slide_loop count (i + 1) (lo + of_nat (4 * r) - 4) (lo + of_nat (4 * r) + 4) m1 x =
      (if unat (x - (lo + 8)) < 4 * r then m1 (x - 8) else m1 x)"
    using Suc.prems lt by (intro Suc.IH) (simp_all add: unat_inc_less)
  moreover have "(if unat (x - (lo + 8)) < 4 * r then m1 (x - 8) else m1 x) =
      (if unat (x - (lo + 8)) < 4 * Suc r then m (x - 8) else m x)"
  proof -
    define k where "k = unat (x - (lo + 8))"
    have x: "x = lo + 8 + of_nat k" by (simp add: k_def)
    have k: "k < 2 ^ 32" unfolding k_def by simp
    have off: "x - ?a = of_nat k - of_nat (4 * r)" by (simp add: x)
    show ?thesis
    proof (cases "k < 4 * r")
      case True
      have "x - 8 - ?a = of_nat k - (8 + of_nat (4 * r))" by (simp add: x algebra_simps)
      also have "\<dots> = - of_nat (4 * r + 8 - k)" using True by (simp add: of_nat_diff)
      finally have u: "unat (x - 8 - ?a) = 2 ^ 32 - (4 * r + 8 - k)"
        using True Suc.prems(2) by (simp only:) (rule unat_minus_of_nat_u32, simp_all)
      have "4 + (4 * r + 8 - k) \<le> 4 + (4 * r + 8)" by simp
      also have "\<dots> \<le> 2 ^ 32" using Suc.prems(2) by simp
      finally have "4 \<le> unat (x - 8 - ?a)" unfolding u by (rule add_le_imp_le_diff)
      then have "\<not> unat (x - 8 - ?a) < 4" by (simp only: not_less)
      then show ?thesis using True by (simp add: m1 k_def [symmetric] del: of_nat_mult)
    next
      case False
      then have "x - ?a = of_nat (k - 4 * r)" unfolding off by (simp add: of_nat_diff)
      moreover have "k - 4 * r < 2 ^ 32" using k by simp
      ultimately have u: "unat (x - ?a) = k - 4 * r" by (simp only: unat_of_nat_u32)
      have "?b + (x - ?a) = x - 8" by simp
      then have "m1 x = (if k - 4 * r < 4 then m (x - 8) else m x)" by (simp only: m1 [of x] u)
      with False show ?thesis by (auto simp: k_def [symmetric])
    qed
  qed
  ultimately show ?case by simp
qed

lemma length_mcb_bytes: "length (mcb_bytes start siz) = 1 + size_bytes siz + start_bytes start"
  by (simp add: mcb_bytes_def)

lemma length_mcb_bytes_bounds: "3 \<le> length (mcb_bytes start siz)" "length (mcb_bytes start siz) \<le> 9"
  using width_bounds(1,2) [of start] width_bounds(3,4) [of siz] by (simp_all add: length_mcb_bytes)



text \<open>The width of a run length of 2 to the 31 is taken as one byte: such a run is read back as length 0.\<close>

lemma size_width_overflow:
  "mcb_size_width 0x80000000 = 1 \<and> le_or (le_bytes (size_bytes 0x80000000) (0x80000000 :: u32)) 0 0 = 0"
  by code_simp

lemma slide_room_at:
  assumes "8 \<le> d" and "d \<le> rl" and "rl + 16 < 2 ^ 31"
  defines "k \<equiv> 4 * ((rl - d) div 4)"
  shows "frs_slide_make_room_ptr frs (frs + of_nat d) (of_nat (rl + 8)) m x =
    (if unat (x - (frs + of_nat (rl - k + 8))) < k then m (x - 8) else m x)"
proof -
  let ?r = "(rl - d) div 4"
  let ?lo = "frs + of_nat (rl - k)"
  have kle: "k \<le> rl" unfolding k_def using mult_div_mod_eq [of 4 "rl - d"] by linarith
  have "(of_nat (rl + 8) - of_nat d - 8 :: u32) = of_nat (rl - d)" using assms(2) by (simp add: of_nat_diff)
  then have c: "(of_nat (rl + 8) - (frs + of_nat d - frs) - 8 :: u32) div 4 = of_nat ?r"
    using of_nat_div_u32 [of "rl - d" 4] assms(3) by simp
  have u: "unat (of_nat ?r :: u32) = ?r"
    using assms(3) by (intro unat_of_nat_u32) (rule le_less_trans [OF div_le_dividend], simp)
  have p: "frs + (of_nat (rl + 8) - 12) = ?lo + of_nat (4 * ?r) - 4" "frs + (of_nat (rl + 8) - 4) = ?lo + of_nat (4 * ?r) + 4"
    using kle by (simp_all add: k_def of_nat_diff)
  have "4 * ?r + 8 < 2 ^ 32" using kle assms(3) unfolding k_def by simp
  then have "slide_loop (of_nat ?r) 0 (?lo + of_nat (4 * ?r) - 4) (?lo + of_nat (4 * ?r) + 4) m x =
      (if unat (x - (?lo + 8)) < 4 * ?r then m (x - 8) else m x)"
    by (intro slide_loop_at) (simp_all add: u)
  moreover have "?lo + 8 = frs + of_nat (rl - k + 8)" by simp
  ultimately show ?thesis
    unfolding frs_slide_make_room_ptr_def Let_def c p by (simp only: k_def)
qed

lemma slide_start:
  fixes d e n :: nat
  assumes "d < e" and "e \<le> n" and "4 dvd n - e"
  shows "d \<le> n - 4 * ((n - d) div 4)" and "n - 4 * ((n - d) div 4) \<le> e" and "4 * ((n - d) div 4) \<le> n"
proof -
  have "n - d = (n - e) + (e - d)" using assms(1,2) by simp
  then have "(n - d) mod 4 = (e - d) mod 4" using assms(3) by (metis dvd_eq_mod_eq_0 mod_add_left_eq add_0)
  then have "(n - d) mod 4 \<le> e - d" by simp
  moreover have "4 * ((n - d) div 4) + (n - d) mod 4 = n - d" by simp
  ultimately show "d \<le> n - 4 * ((n - d) div 4)" and "n - 4 * ((n - d) div 4) \<le> e" and "4 * ((n - d) div 4) \<le> n"
    using assms(1,2) by linarith+
qed

lemma unat_add_offset: "i \<le> j \<Longrightarrow> j < 2 ^ 32 \<Longrightarrow> unat (a + of_nat j - (a + of_nat i) :: u32) = j - i"
  by (simp add: of_nat_diff [symmetric] unat_of_nat_u32 del: of_nat_diff)

lemma unat_sub_offset: "i < j \<Longrightarrow> j - i \<le> 2 ^ 32 \<Longrightarrow> unat (a + of_nat i - (a + of_nat j) :: u32) = 2 ^ 32 - (j - i)"
  using unat_minus_of_nat_u32 [of "j - i"] by (simp add: of_nat_diff)

lemma store_u32_off_other:
  assumes "k < n \<or> n + 4 \<le> k" and "n < 2 ^ 31" and "k < 2 ^ 31"
  shows "store_u32 (a + of_nat n) v m (a + of_nat k) = m (a + of_nat k)"
proof (rule store_u32_at_off)
  fix i :: nat assume "i < 4"
  then show "a + of_nat k \<noteq> a + of_nat (n + i)"
    using of_nat_u32_eq_iff [of k "n + i"] assms by (simp del: of_nat_add) linarith
qed

lemma attr_size_bump:
  assumes "n < 65528"
  shows "((of_nat n :: u32) AND 0xFFFF0000) OR ucast (ucast (of_nat n :: u32) + 8 :: u16) = of_nat (n + 8)"
proof -
  have "(of_nat n :: u32) AND 0xFFFF0000 = 0"
  proof (rule bit_word_eqI)
    fix j assume "j < LENGTH(32)"
    have e: "(0xFFFF0000 :: u32) = NOT (mask 16)" by (simp add: mask_eq_exp_minus_1)
    have "j < 16" if "bit (of_nat n :: u32) j"
      using bit_below [OF that, of 16] assms by (simp add: unat_of_nat_u32)
    then show "bit ((of_nat n :: u32) AND 0xFFFF0000) j = bit (0 :: u32) j"
      unfolding e by (auto simp: bit_and_iff bit_not_iff bit_mask_iff)
  qed
  moreover have "(ucast (of_nat n :: u32) + 8 :: u16) = of_nat (n + 8)" by (simp add: ucast_of_nat_down)
  moreover have "(ucast (of_nat (n + 8) :: u16) :: u32) = of_nat (n + 8)"
  proof -
    have "unat (ucast (of_nat (n + 8) :: u16) :: u32) = unat (of_nat (n + 8) :: u16)" by (rule unat_ucast_up) simp
    also have "\<dots> = n + 8" using assms by (intro unat_of_nat_u16) simp
    also have "\<dots> = unat (of_nat (n + 8) :: u32)" using assms by (intro unat_of_nat_u32 [symmetric]) simp
    finally show ?thesis by (simp only: word_unat_eq_iff)
  qed
  ultimately show ?thesis by simp
qed

lemma frs_offset_le:
  assumes "i \<le> j" and "unat frs + j < 2 ^ 32"
  shows "frs + of_nat i \<le> (frs + of_nat j :: u32)"
proof -
  have u: "unat (frs + of_nat x) = unat frs + x" if "x \<le> j" for x
  proof -
    have "frs + of_nat x = of_nat (unat frs + x)" by simp
    then show ?thesis using that assms(2) by (simp only: unat_of_nat_u32)
  qed
  show ?thesis using u [OF assms(1)] u [of j] assms(1) by (simp only: word_le_nat_alt)
qed

lemma slide_then_entry:
  fixes frs :: u32 and m :: mem
  assumes "8 \<le> d" and "d < e" and "e \<le> rl" and "4 dvd rl - e" and "rl + 16 < 2 ^ 31" and "d + length bs \<le> e + 8"
  defines "m' \<equiv> put_bytes (frs + of_nat d) bs (frs_slide_make_room_ptr frs (frs + of_nat d) (of_nat (rl + 8)) m)"
  shows "i < d \<Longrightarrow> m' (frs + of_nat i) = m (frs + of_nat i)"
    and "e \<le> j \<Longrightarrow> j < rl \<Longrightarrow> m' (frs + of_nat (j + 8)) = m (frs + of_nat j)"
proof -
  define k where "k = 4 * ((rl - d) div 4)"
  have low: "d \<le> rl - k" "rl - k \<le> e" "k \<le> rl" unfolding k_def using slide_start [OF assms(2-4)] by simp_all
  have "d \<le> rl" and n: "length bs \<le> 2 ^ 32" using assms(2,3,5,6) by simp_all
  note slide = slide_room_at [OF assms(1) this(1) assms(5), of frs m, folded k_def]
  show "m' (frs + of_nat i) = m (frs + of_nat i)" if "i < d"
  proof -
    have "unat (frs + of_nat i - (frs + of_nat j)) = 2 ^ 32 - (j - i)" if "d \<le> j" "j < 2 ^ 31" for j
      using \<open>i < d\<close> that by (intro unat_sub_offset) simp_all
    from this [of d] this [of "rl - k + 8"] have
      "\<not> unat (frs + of_nat i - (frs + of_nat (rl - k + 8))) < k" "\<not> unat (frs + of_nat i - (frs + of_nat d)) < length bs"
      using low assms(3,5,6) \<open>d \<le> rl\<close> by (simp_all del: of_nat_add)
    then show ?thesis unfolding m'_def by (simp add: put_bytes_at [OF n] slide del: of_nat_add)
  qed
  show "m' (frs + of_nat (j + 8)) = m (frs + of_nat j)" if "e \<le> j" "j < rl"
  proof -
    have "unat (frs + of_nat (j + 8) - (frs + of_nat (rl - k + 8))) = j - (rl - k)"
      using unat_add_offset [of "rl - k + 8" "j + 8" frs] low that assms(5) by simp
    moreover have "unat (frs + of_nat (j + 8) - (frs + of_nat d)) = j + 8 - d"
      using unat_add_offset [of d "j + 8" frs] that assms(2,5) by simp
    ultimately have c: "unat (frs + of_nat (j + 8) - (frs + of_nat (rl - k + 8))) < k"
      "\<not> unat (frs + of_nat (j + 8) - (frs + of_nat d)) < length bs"
      using low that assms(2,6) by (simp_all del: of_nat_add add_diff_cancel_left)
    have "m' (frs + of_nat (j + 8)) = m (frs + of_nat (j + 8) - 8)"
      unfolding m'_def put_bytes_at [OF n] slide if_not_P [OF c(2)] if_P [OF c(1)] by (rule refl)
    then show ?thesis by simp
  qed
qed

lemma load_u32_below_cong:
  assumes "\<And>i. i < d \<Longrightarrow> m' (frs + of_nat i) = m (frs + of_nat i)" and "f + 4 \<le> d"
  shows "load_u32 m' (frs + of_nat f) = load_u32 m (frs + of_nat f)"
proof (rule load_u32_cong)
  fix x :: u32 assume "x < 4"
  then have "unat x < 4" by (simp add: word_less_nat_alt)
  with assms(1) [of "f + unat x"] assms(2) show "m' (frs + of_nat f + x) = m (frs + of_nat f + x)"
    by (simp add: add.assoc)
qed


definition frs_witness :: mem where
  "frs_witness = put_bytes 0x1070 [0xFF, 0xFE, 0xFD, 0xFC, 0xFB, 0xFA, 0xF9, 0xF8, 1, 2, 3, 4, 5, 6, 7, 8]
     (store_u32 0x1034 0x40 (store_u32 0x1018 0x80 (store_u32 0x101C 0x400 (\<lambda>a. 0))))"

lemma frs_witness_fields:
  "load_u32 frs_witness (0x1000 + of_nat 0x30 + 4) = of_nat 0x40" "load_u32 frs_witness (0x1000 + 0x18) = of_nat 0x80"
  "of_nat (0x80 + 8) \<le> load_u32 frs_witness (0x1000 + 0x1C)"
  by code_simp+

lemma mcb_bytes_small: "length (mcb_bytes 5 6) = 3"
  by code_simp


text \<open>
  Eight bytes of room are one too few for the longest entry at the last byte of an attribute: its terminator
  overwrites the first byte of the next attribute.
\<close>

lemma mcb_extend_overrun:
  "frs_witness 0x1070 = 0xFF \<and>
   fst (ntfs_create_mcb_entry_ptr 0x01000000 0x01000000 0x106F 0x1030 0x1000 frs_witness) = 1 \<and>
   (snd (snd (ntfs_create_mcb_entry_ptr 0x01000000 0x01000000 0x106F 0x1030 0x1000 frs_witness))) 0x1078 = 0"
  by code_simp

end
