(* ===== verification/Ntfs_Usa.thy ===== *)
theory Ntfs_Usa
  imports Prelude
begin

text \<open>
  The NTFS update sequence array, \<^verbatim>\<open>ntfs_usa.rs\<close>: the last word of every 512-byte sector of a
  record on disk holds the update sequence number, and the array in the record holds the words that belong
  there. \<^verbatim>\<open>ntfs_restore_usa\<close> checks the number and puts the words back.
\<close>

section \<open>Model\<close>

definition UPDATE_SEQUENCE_OFFSET :: u32 where "UPDATE_SEQUENCE_OFFSET = 4"
definition UPDATE_SEQUENCE_SIZE :: u32 where "UPDATE_SEQUENCE_SIZE = 6"
definition SECTOR_END_WORD_OFF :: u32 where "SECTOR_END_WORD_OFF = 0x1FE"
definition SECTOR_SIZE :: u32 where "SECTOR_SIZE = 512"

record UsaRestoreResult =
  ok :: bool

function usa_loop :: "u16 \<Rightarrow> u32 \<Rightarrow> u32 \<Rightarrow> u32 \<Rightarrow> mem \<Rightarrow> UsaRestoreResult \<times> mem" where
  "usa_loop usn usa end_word remaining m =
     (if remaining > 0 then
        let cur = load_u16 m end_word
        in if cur \<noteq> usn then (\<lparr>ok = False\<rparr>, m)
           else
             let orig = load_u16 m usa
             in usa_loop usn (usa + 2) (end_word + SECTOR_SIZE) (remaining - 1) (store_u16 end_word orig m)
      else (\<lparr>ok = True\<rparr>, m))"
  by pat_completeness auto
termination
  by (relation "measure (\<lambda>(usn, usa, end_word, remaining, m). unat remaining)") (simp_all add: word_gt_0)

declare usa_loop.simps [simp del]

definition ntfs_restore_usa :: "u32 \<Rightarrow> u32 \<Rightarrow> mem \<Rightarrow> UsaRestoreResult \<times> mem" where
  "ntfs_restore_usa rec siz m =
     (let sectors = drop_bit 9 siz;
          expected_usa = ucast (sectors + 1) :: u16;
          usa_size = load_u16 m (rec + UPDATE_SEQUENCE_SIZE)
      in if usa_size \<noteq> expected_usa then (\<lparr>ok = False\<rparr>, m)
         else
           let usa_off = ucast (load_u16 m (rec + UPDATE_SEQUENCE_OFFSET)) :: u32;
               usa = rec + usa_off;
               usn = load_u16 m usa;
               usa = usa + 2;
               end_word = rec + SECTOR_END_WORD_OFF
           in usa_loop usn usa end_word sectors m)"

definition ntfs_restore_usa_ptr :: "u32 \<Rightarrow> u32 \<Rightarrow> mem \<Rightarrow> u32 \<times> mem" where
  "ntfs_restore_usa_ptr rec siz m =
     (let (r, m') = ntfs_restore_usa rec siz m in (if ok r then 0 else 1, m'))"

section \<open>Restoring the sector ends\<close>

text \<open>The specification: the first \<open>k\<close> sector ends hold the array's words, everything else is unchanged.\<close>

fun restored :: "u32 \<Rightarrow> u32 \<Rightarrow> nat \<Rightarrow> mem \<Rightarrow> mem" where
  "restored usa end_word 0 m = m"
| "restored usa end_word (Suc k) m = restored (usa + 2) (end_word + 512) k (store_u16 end_word (load_u16 m usa) m)"

text \<open>No word of the array is a sector end.\<close>

definition usa_apart :: "u32 \<Rightarrow> u32 \<Rightarrow> nat \<Rightarrow> bool" where
  "usa_apart usa e n \<longleftrightarrow> 512 * n \<le> 2 ^ 32 \<and>
     (\<forall>i < 2 * n. \<forall>j < n. usa + of_nat i \<noteq> e + of_nat (512 * j) \<and> usa + of_nat i \<noteq> e + of_nat (512 * j) + 1)"

lemma usa_apartI:
  assumes "unat usa + 2 * n \<le> unat e" and "unat e + 512 * n \<le> 2 ^ 32"
  shows "usa_apart usa e n"
proof -
  have "apart usa (2 * n) e (512 * n)" using assms by (rule apartI)
  then have "usa + of_nat i \<noteq> e + of_nat (512 * j) \<and> usa + of_nat i \<noteq> e + of_nat (512 * j + 1)" if "i < 2 * n" "j < n" for i j
    using that unfolding apart_def by (simp del: of_nat_mult of_nat_add of_nat_Suc)
  then show ?thesis using assms(2) by (simp add: usa_apart_def add.assoc add.commute [of 1])
qed

lemma usa_apart_step:
  assumes "usa_apart usa e (Suc n)"
  shows "usa_apart (usa + 2) (e + 512) n"
proof -
  have "usa + 2 + of_nat i \<noteq> e + 512 + of_nat (512 * j) \<and> usa + 2 + of_nat i \<noteq> e + 512 + of_nat (512 * j) + 1"
    if "i < 2 * n" "j < n" for i j
    using assms [unfolded usa_apart_def, THEN conjunct2, rule_format, of "i + 2" "Suc j"] that
    by (simp add: add.assoc add.left_commute)
  then show ?thesis using assms by (simp add: usa_apart_def)
qed

text \<open>Sector ends are pairwise distinct.\<close>

lemma ends_distinct:
  assumes "512 * n \<le> 2 ^ 32" and "j < n" and "0 < j" and "b < 2" and "c < 2"
  shows "e + of_nat (512 * j) + of_nat b \<noteq> e + (of_nat c :: u32)"
proof
  assume "e + of_nat (512 * j) + of_nat b = e + (of_nat c :: u32)"
  then have "(of_nat (512 * j + b) :: u32) = of_nat c" by (simp add: add.assoc)
  moreover have "512 * j + b < 2 ^ 32" "c < 2 ^ 32" using assms by linarith+
  ultimately have "512 * j + b = c" using of_nat_u32_eq_iff by blast
  with assms show False by linarith
qed

lemma load_end_store:
  assumes "512 * n \<le> 2 ^ 32" and "j < n" and "0 < j"
  shows "load_u16 (store_u16 e v m) (e + of_nat (512 * j)) = load_u16 m (e + of_nat (512 * j))"
  using ends_distinct [OF assms, of 0 0 e] ends_distinct [OF assms, of 0 1 e] ends_distinct [OF assms, of 1 0 e]
    ends_distinct [OF assms, of 1 1 e]
  by (simp add: load_u16_def store_u16_def)

lemma load_usa_store:
  assumes "usa_apart usa e n" and "i < n" and "0 < n"
  shows "load_u16 (store_u16 e v m) (usa + of_nat (2 * i)) = load_u16 m (usa + of_nat (2 * i))"
  using assms(1) [unfolded usa_apart_def, THEN conjunct2, rule_format, of "2 * i" 0]
    assms(1) [unfolded usa_apart_def, THEN conjunct2, rule_format, of "2 * i + 1" 0] assms(2,3)
  by (simp add: load_u16_def store_u16_def add.assoc add.commute [of 1])

lemma restored_other:
  "(\<And>j. j < k \<Longrightarrow> x \<noteq> e + of_nat (512 * j) \<and> x \<noteq> e + of_nat (512 * j) + 1) \<Longrightarrow> restored usa e k m x = m x"
proof (induction k arbitrary: usa e m)
  case (Suc k)
  have "restored (usa + 2) (e + 512) k (store_u16 e (load_u16 m usa) m) x = store_u16 e (load_u16 m usa) m x"
    using Suc.prems [of "Suc j" for j] by (intro Suc.IH) (simp add: add.assoc)
  also have "\<dots> = m x" using Suc.prems [of 0] by (intro store_u16_other) simp_all
  finally show ?case by simp
qed simp

lemma restored_end:
  "usa_apart usa e n \<Longrightarrow> k \<le> n \<Longrightarrow> j < k \<Longrightarrow>
     load_u16 (restored usa e k m) (e + of_nat (512 * j)) = load_u16 m (usa + of_nat (2 * j))"
proof (induction k arbitrary: usa e n j m)
  case (Suc k)
  then obtain n' where n: "n = Suc n'" by (cases n) auto
  have ap: "usa_apart (usa + 2) (e + 512) n'" using Suc.prems(1) unfolding n by (rule usa_apart_step)
  have lim: "512 * n \<le> 2 ^ 32" using Suc.prems(1) by (simp add: usa_apart_def)
  define m1 where "m1 = store_u16 e (load_u16 m usa) m"
  show ?case
  proof (cases j)
    case 0
    have "restored (usa + 2) (e + 512) k m1 (e + of_nat b) = m1 (e + of_nat b)" if "b < 2" for b
    proof (rule restored_other)
      fix i assume "i < k"
      then show "e + of_nat b \<noteq> e + 512 + of_nat (512 * i) \<and> e + of_nat b \<noteq> e + 512 + of_nat (512 * i) + 1"
        using ends_distinct [OF lim, of "Suc i" 0 b e] ends_distinct [OF lim, of "Suc i" 1 b e] that Suc.prems(2)
        by (simp add: add.assoc)
    qed
    from this [of 0] this [of 1] have "load_u16 (restored (usa + 2) (e + 512) k m1) e = load_u16 m1 e"
      by (simp add: load_u16_def)
    then show ?thesis using 0 by (simp add: m1_def mem_simps)
  next
    case (Suc i)
    have "load_u16 (restored (usa + 2) (e + 512) k m1) (e + 512 + of_nat (512 * i)) = load_u16 m1 (usa + 2 + of_nat (2 * i))"
      using Suc Suc.prems n by (intro Suc.IH [OF ap]) simp_all
    moreover have "load_u16 m1 (usa + of_nat (2 * j)) = load_u16 m (usa + of_nat (2 * j))"
      unfolding m1_def using Suc.prems(2,3) by (intro load_usa_store [OF Suc.prems(1)]) simp_all
    ultimately show ?thesis by (simp add: Suc m1_def add.assoc)
  qed
qed simp

lemma find_upt_Suc: "find P [0..<Suc n] = (if P 0 then Some 0 else map_option Suc (find (\<lambda>j. P (Suc j)) [0..<n]))"
proof -
  have "[0..<Suc n] = 0 # map Suc [0..<n]" by (simp add: map_Suc_upt upt_conv_Cons del: upt_Suc)
  moreover have "find P (map Suc xs) = map_option Suc (find (\<lambda>j. P (Suc j)) xs)" for xs by (induction xs) auto
  ultimately show ?thesis by simp
qed

lemma usa_loop_spec:
  "usa_apart usa e n \<Longrightarrow> usa_loop usn usa e (of_nat n) m =
    (case find (\<lambda>j. load_u16 m (e + of_nat (512 * j)) \<noteq> usn) [0..<n] of
       None \<Rightarrow> (\<lparr>ok = True\<rparr>, restored usa e n m) | Some k \<Rightarrow> (\<lparr>ok = False\<rparr>, restored usa e k m))"
proof (induction n arbitrary: usa e m)
  case 0
  then show ?case by (subst usa_loop.simps) simp
next
  case (Suc n)
  have lim: "512 * Suc n \<le> 2 ^ 32" using Suc.prems by (simp add: usa_apart_def)
  then have nz: "(of_nat (Suc n) :: u32) > 0" using of_nat_u32_eq_iff [of "Suc n" 0] by (simp add: word_gt_0 del: of_nat_Suc)
  show ?case
  proof (cases "load_u16 m e = usn")
    case False
    then show ?thesis using nz by (subst usa_loop.simps) (simp add: find_upt_Suc Let_def del: upt_Suc of_nat_Suc)
  next
    case True
    define m1 where "m1 = store_u16 e (load_u16 m usa) m"
    have keep: "load_u16 m1 (e + 512 + of_nat (512 * j)) = load_u16 m (e + of_nat (512 * Suc j))" if "j < n" for j
      using load_end_store [OF lim, of "Suc j" e "load_u16 m usa" m] that by (simp add: m1_def add.assoc)
    have f: "find (\<lambda>j. load_u16 m1 (e + 512 + of_nat (512 * j)) \<noteq> usn) [0..<n] = find (\<lambda>j. load_u16 m (e + of_nat (512 * Suc j)) \<noteq> usn) [0..<n]"
      by (rule find_cong) (use keep in \<open>simp_all del: of_nat_mult of_nat_Suc\<close>)
    have "usa_loop usn usa e (of_nat (Suc n)) m = usa_loop usn (usa + 2) (e + 512) (of_nat n) m1"
      using nz True by (subst usa_loop.simps) (simp add: Let_def SECTOR_SIZE_def m1_def)
    then show ?thesis
      using Suc.IH [OF usa_apart_step [OF Suc.prems], of m1] True unfolding f find_upt_Suc
      by (simp add: m1_def split: option.splits del: upt_Suc of_nat_Suc)
  qed
qed


text \<open>A two-sector record: the array at offset 40 with the number 0x1234 and two words.\<close>

definition usa_witness :: mem where
  "usa_witness = store_u16 0x1004 40 (store_u16 0x1006 3 (store_u16 0x1028 0x1234 (store_u16 0x102A 0xAAAA
     (store_u16 0x102C 0xBBBB (store_u16 0x11FE 0x1234 (store_u16 0x13FE 0x1234 (\<lambda>a. 0)))))))"


end
