(* ===== verification/Unicode.thy ===== *)
theory Unicode
  imports Prelude
begin

text \<open>
  Characters: the UTF-8 decoder, the UTF-16 encoder and the CP866 tables of \<^verbatim>\<open>unicode.rs\<close> and the case
  folding of \<^verbatim>\<open>casefold.rs\<close>. The decoder shifts the lead byte left one bit at a time and looks at the
  carry; the reference takes it apart with masks.
\<close>

section \<open>Model\<close>

subsection \<open>UTF-8 decoding\<close>

record Utf8DecodeStep =
  codepoint :: u32
  consumed :: nat

definition error_step :: Utf8DecodeStep where
  "error_step = \<lparr>codepoint = 0xFFFD, consumed = 1\<rparr>"

definition cont_ok :: "u8 \<Rightarrow> u8 option" where
  "cont_ok al_in =
     (let al = al_in;
          cf1 = (drop_bit 7 al AND 1 = 1);
          al = push_bit 1 al
      in if \<not> cf1 then None
         else
           let cf2 = (drop_bit 7 al AND 1 = 1);
               al = push_bit 1 al
           in if cf2 then None else Some al)"

text \<open>\<^verbatim>\<open>eax = (eax & 0xffff_ff00) | u32::from(al)\<close>\<close>

definition set_al :: "u32 \<Rightarrow> u8 \<Rightarrow> u32" where
  "set_al eax al = (eax AND 0xFFFFFF00) OR ucast al"

definition read2 :: "u8 list \<Rightarrow> u32 \<Rightarrow> Utf8DecodeStep" where
  "read2 input eax =
     (if length input < 2 then error_step
      else
        let eax = push_bit 5 eax;
            c1 = input ! 1;
            eax = set_al eax c1
        in case cont_ok c1 of
             None \<Rightarrow> error_step
           | Some new_al \<Rightarrow>
               let eax = set_al eax new_al;
                   eax = drop_bit 2 eax
               in \<lparr>codepoint = eax, consumed = 2\<rparr>)"

definition read3 :: "u8 list \<Rightarrow> u32 \<Rightarrow> Utf8DecodeStep" where
  "read3 input eax =
     (if length input < 3 then error_step
      else
        let eax = push_bit 4 eax;
            c1 = input ! 1;
            eax = set_al eax c1
        in case cont_ok c1 of
             None \<Rightarrow> error_step
           | Some new_al \<Rightarrow>
               let eax = set_al eax new_al;
                   eax = push_bit 6 eax;
                   c2 = input ! 2;
                   eax = set_al eax c2
               in case cont_ok c2 of
                    None \<Rightarrow> error_step
                  | Some new_al \<Rightarrow>
                      let eax = set_al eax new_al;
                          eax = drop_bit 2 eax
                      in \<lparr>codepoint = eax, consumed = 3\<rparr>)"

definition read4 :: "u8 list \<Rightarrow> u32 \<Rightarrow> Utf8DecodeStep" where
  "read4 input eax =
     (if length input < 4 then error_step
      else
        let eax = push_bit 3 eax;
            c1 = input ! 1;
            eax = set_al eax c1
        in case cont_ok c1 of
             None \<Rightarrow> error_step
           | Some new_al \<Rightarrow>
               let eax = set_al eax new_al;
                   eax = push_bit 6 eax;
                   c2 = input ! 2;
                   eax = set_al eax c2
               in case cont_ok c2 of
                    None \<Rightarrow> error_step
                  | Some new_al \<Rightarrow>
                      let eax = set_al eax new_al;
                          eax = push_bit 6 eax;
                          c3 = input ! 3;
                          eax = set_al eax c3
                      in case cont_ok c3 of
                           None \<Rightarrow> error_step
                         | Some new_al \<Rightarrow>
                             let eax = set_al eax new_al;
                                 eax = drop_bit 2 eax
                             in \<lparr>codepoint = eax, consumed = 4\<rparr>)"

definition utf8_decode :: "u8 list \<Rightarrow> Utf8DecodeStep option" where
  "utf8_decode input =
     (if input = [] then None
      else
        let eax = ucast (input ! 0) :: u32
        in if (ucast eax :: u8) AND 0x80 = 0 then Some \<lparr>codepoint = eax, consumed = 1\<rparr>
        else
          let al = ucast eax :: u8;
              cf = (drop_bit 6 al AND 1 = 1);
              al = push_bit 2 al;
              eax = set_al eax al
          in if \<not> cf then Some error_step
          else
            let cf = (drop_bit 7 al AND 1 = 1);
                al = push_bit 1 al;
                eax = set_al eax al
            in if \<not> cf then Some (read2 input eax)
            else
              let cf = (drop_bit 7 al AND 1 = 1);
                  al = push_bit 1 al;
                  eax = set_al eax al
              in if \<not> cf then Some (read3 input eax)
              else
                let cf = (drop_bit 7 al AND 1 = 1);
                    al = push_bit 1 al;
                    eax = set_al eax al
                in if \<not> cf then Some (read4 input eax)
                else Some error_step)"

subsection \<open>UTF-16 encoding\<close>

definition utf16_encode :: "u32 \<Rightarrow> u32" where
  "utf16_encode cp =
     (if cp \<ge> 0x110000 then 0xFFFD
      else if cp \<ge> 0x10000 then
        let eax = cp - 0x10000;
            eax = push_bit 6 eax;
            ax = drop_bit 6 (ucast eax :: u16);
            eax = (eax AND 0xFFFF0000) OR ucast ax;
            eax = word_rotr 16 eax
        in eax OR 0xDC00D800
      else if cp \<ge> 0xE000 then cp
      else if cp < 0xD800 then cp
      else 0xFFFD)"

subsection \<open>CP866\<close>

definition f0_table :: "u8 list" where
  "f0_table = [0x01, 0x51, 0x04, 0x54, 0x07, 0x57, 0x0E, 0x5E]"

definition special_f0_table :: "u8 \<Rightarrow> u16" where
  "special_f0_table idx = ucast (f0_table ! unat (idx AND 7)) + 0x400"

definition cp866_decode :: "u32 \<Rightarrow> u32" where
  "cp866_decode ch =
     (let al = ucast ch :: u8
      in if al < 0x80 then if al = 20 then 0xB6 else ucast al
      else if al < 0xB0 then ucast ((ucast al :: u16) + (0x410 - 0x80))
      else if al < 0xE0 then 0x5F
      else if al < 0xF0 then ucast ((ucast al :: u16) + (0x440 - 0xE0))
      else if al < 0xF8 then ucast (special_f0_table (al - 0xF0))
      else 0x5F)"

fun scan_table :: "u8 \<Rightarrow> u8 \<Rightarrow> u8 list \<Rightarrow> u32" where
  "scan_table al ecx [] = 0x5F"
| "scan_table al ecx (t # rest) =
     (let ecx = ecx - 1 in if t = al then ucast (0xF7 - ecx :: u8) else scan_table al ecx rest)"

definition special_40x :: "u16 \<Rightarrow> u32" where
  "special_40x ax = (let al = ucast ax :: u8 in scan_table al 8 f0_table)"

definition cp866_encode :: "u32 \<Rightarrow> u32" where
  "cp866_encode cp =
     (let ax = ucast cp :: u16
      in if ax < 0x80 then ucast (ucast ax :: u8)
      else if ax = 0xB6 then 20
      else if ax < 0x400 then 0x5F
      else if ax < 0x410 then special_40x ax
      else if ax < 0x440 then ucast ((ucast ax :: u8) + 0x70)
      else if ax < 0x450 then ucast ((ucast ax :: u8) + 0xA0)
      else if ax < 0x460 then special_40x ax
      else 0x5F)"

subsection \<open>Case folding\<close>

definition cp866_to_upper :: "u8 \<Rightarrow> u8" where
  "cp866_to_upper ch =
     (if ch < 0x61 then ch
      else if ch \<le> 0x7A then ch - 32
      else if ch < 0xA0 then ch
      else if ch < 0xB0 then ch - 32
      else if ch < 0xE0 then ch
      else if ch < 0xF0 then ch - (0xE0 - 0x90)
      else if ch > 0xF7 then ch
      else ch AND NOT 1)"

definition utf16_to_upper :: "u16 \<Rightarrow> u16" where
  "utf16_to_upper ch =
     (if ch < 0x61 then ch
      else if ch \<le> 0x7A then ch - 32
      else if ch < 0x0430 then ch
      else if ch < 0x0450 then ch - 32
      else if ch \<ge> 0x0460 then ch
      else ch - 80)"

section \<open>The decoder against masks\<close>

definition is_cont :: "u8 \<Rightarrow> bool" where
  "is_cont b \<longleftrightarrow> 0x80 \<le> b \<and> b < 0xC0"

definition low_bits :: "nat \<Rightarrow> u8 \<Rightarrow> u32" where
  "low_bits n b = ucast b AND mask n"

fun utf8_value :: "u8 list \<Rightarrow> (u32 \<times> nat) option" where
  "utf8_value [] = None"
| "utf8_value (b # bs) =
     (if b < 0x80 then Some (ucast b, 1)
      else if 0xC0 \<le> b \<and> b < 0xE0 then
        (case bs of c1 # _ \<Rightarrow> if is_cont c1 then Some (push_bit 6 (low_bits 5 b) OR low_bits 6 c1, 2) else None
         | _ \<Rightarrow> None)
      else if 0xE0 \<le> b \<and> b < 0xF0 then
        (case bs of c1 # c2 # _ \<Rightarrow>
           if is_cont c1 \<and> is_cont c2 then Some (push_bit 12 (low_bits 4 b) OR push_bit 6 (low_bits 6 c1) OR low_bits 6 c2, 3)
           else None
         | _ \<Rightarrow> None)
      else if 0xF0 \<le> b \<and> b < 0xF8 then
        (case bs of c1 # c2 # c3 # _ \<Rightarrow>
           if is_cont c1 \<and> is_cont c2 \<and> is_cont c3 then
             Some (push_bit 18 (low_bits 3 b) OR push_bit 12 (low_bits 6 c1) OR push_bit 6 (low_bits 6 c2) OR low_bits 6 c3, 4)
           else None
         | _ \<Rightarrow> None)
      else None)"

lemma odd_drop_bit_and: "(drop_bit n w AND 1 = 1) = bit w n" for w :: "'a::len word"
  by (simp add: and_one_eq bit_iff_odd_drop_bit odd_iff_mod_2_eq_one)


lemma byte_ranges_nat:
  "(x < 128) = even (x div 128)" "(192 \<le> x) = (odd (x div 128) \<and> odd (x div 64))"
  "(224 \<le> x) = (odd (x div 128) \<and> odd (x div 64) \<and> odd (x div 32))"
  "(240 \<le> x) = (odd (x div 128) \<and> odd (x div 64) \<and> odd (x div 32) \<and> odd (x div 16))"
  "(248 \<le> x) = (odd (x div 128) \<and> odd (x div 64) \<and> odd (x div 32) \<and> odd (x div 16) \<and> odd (x div 8))"
  if "x < 256" for x :: nat
proof -
  define y where "y = x div 8"
  have d: "x div 16 = y div 2" "x div 32 = y div 4" "x div 64 = y div 8" "x div 128 = y div 16" "x div 8 = y"
    by (simp_all add: y_def div_mult2_eq [symmetric])
  have r: "(x < 128) = (y < 16)" "(192 \<le> x) = (24 \<le> y)" "(224 \<le> x) = (28 \<le> y)" "(240 \<le> x) = (30 \<le> y)" "(248 \<le> x) = (31 \<le> y)"
    unfolding y_def by linarith+
  have "list_all (\<lambda>y. (y < 16) = even (y div 16) \<and> (24 \<le> y) = (odd (y div 16) \<and> odd (y div 8))
      \<and> (28 \<le> y) = (odd (y div 16) \<and> odd (y div 8) \<and> odd (y div 4))
      \<and> (30 \<le> y) = (odd (y div 16) \<and> odd (y div 8) \<and> odd (y div 4) \<and> odd (y div 2))
      \<and> (31 \<le> y) = (odd (y div 16) \<and> odd (y div 8) \<and> odd (y div 4) \<and> odd (y div 2) \<and> odd y)) [0..<32]"
    by (simp add: upt_rec)
  moreover have "y \<in> set [0..<32]" using that by (simp add: y_def)
  ultimately show "(x < 128) = even (x div 128)" "(192 \<le> x) = (odd (x div 128) \<and> odd (x div 64))"
    "(224 \<le> x) = (odd (x div 128) \<and> odd (x div 64) \<and> odd (x div 32))"
    "(240 \<le> x) = (odd (x div 128) \<and> odd (x div 64) \<and> odd (x div 32) \<and> odd (x div 16))"
    "(248 \<le> x) = (odd (x div 128) \<and> odd (x div 64) \<and> odd (x div 32) \<and> odd (x div 16) \<and> odd (x div 8))"
    unfolding d r list_all_iff by blast+
qed

lemma u8_bit_ranges:
  "(b < 0x80) = (\<not> bit b 7)" "(0xC0 \<le> b) = (bit b 7 \<and> bit b 6)" "(0xE0 \<le> b) = (bit b 7 \<and> bit b 6 \<and> bit b 5)"
  "(0xF0 \<le> b) = (bit b 7 \<and> bit b 6 \<and> bit b 5 \<and> bit b 4)" "(0xF8 \<le> b) = (bit b 7 \<and> bit b 6 \<and> bit b 5 \<and> bit b 4 \<and> bit b 3)"
  for b :: u8
proof -
  have d: "bit b n \<longleftrightarrow> odd (unat b div 2 ^ n)" for n
    using bit_iff_odd [of "unat b" n] by (simp add: bit_unsigned_iff)
  note r = byte_ranges_nat [OF unat_u8 [of b]]
  show "(b < 0x80) = (\<not> bit b 7)" by (simp add: d word_less_nat_alt r(1))
  show "(0xC0 \<le> b) = (bit b 7 \<and> bit b 6)" by (simp add: d word_le_nat_alt r(2))
  show "(0xE0 \<le> b) = (bit b 7 \<and> bit b 6 \<and> bit b 5)" by (simp add: d word_le_nat_alt r(3))
  show "(0xF0 \<le> b) = (bit b 7 \<and> bit b 6 \<and> bit b 5 \<and> bit b 4)" by (simp add: d word_le_nat_alt r(4))
  show "(0xF8 \<le> b) = (bit b 7 \<and> bit b 6 \<and> bit b 5 \<and> bit b 4 \<and> bit b 3)" by (simp add: d word_le_nat_alt r(5))
qed

lemma u8_bit_less:
  "(b < 0xC0) = (\<not> (bit b 7 \<and> bit b 6))" "(b < 0xE0) = (\<not> (bit b 7 \<and> bit b 6 \<and> bit b 5))"
  "(b < 0xF0) = (\<not> (bit b 7 \<and> bit b 6 \<and> bit b 5 \<and> bit b 4))" "(b < 0xF8) = (\<not> (bit b 7 \<and> bit b 6 \<and> bit b 5 \<and> bit b 4 \<and> bit b 3))"
  "(0x80 \<le> b) = bit b 7" for b :: u8
  using u8_bit_ranges [of b] not_less [of b] by blast+

lemma cont_ok_eq: "cont_ok c = (if is_cont c then Some (push_bit 2 c) else None)"
proof -
  have "push_bit 1 (push_bit 1 c) = push_bit 2 c" by (simp only: push_bit_push_bit one_add_one)
  moreover have "bit (push_bit 1 c) 7 = bit c 6" unfolding bit_push_bit_iff by simp
  ultimately show ?thesis
    unfolding cont_ok_def is_cont_def Let_def odd_drop_bit_and u8_bit_less
    by simp
qed

lemma lead_tests:
  "(b AND 0x80 = 0) = (b < 0x80)" "(drop_bit 6 b AND 1 = 1) = bit b 6"
  "(drop_bit 7 (push_bit 2 b) AND 1 = 1) = bit b 5"
  "(drop_bit 7 (push_bit 3 b) AND 1 = 1) = bit b 4"
  "(drop_bit 7 (push_bit 4 b) AND 1 = 1) = bit b 3" for b :: u8
proof -
  have "(b AND 2 ^ 7 = 0) = (\<not> bit b 7)" by (rule and_exp_eq_0_iff_not_bit)
  then show "(b AND 0x80 = 0) = (b < 0x80)" by (simp add: u8_bit_ranges)
qed (simp_all only: odd_drop_bit_and bit_push_bit_iff, simp_all)

lemma lead_class:
  "\<not> b < 0x80 \<Longrightarrow> (0xC0 \<le> b \<and> b < 0xE0) = (bit b 6 \<and> \<not> bit b 5)"
  "\<not> b < 0x80 \<Longrightarrow> (0xE0 \<le> b \<and> b < 0xF0) = (bit b 6 \<and> bit b 5 \<and> \<not> bit b 4)"
  "\<not> b < 0x80 \<Longrightarrow> (0xF0 \<le> b \<and> b < 0xF8) = (bit b 6 \<and> bit b 5 \<and> bit b 4 \<and> \<not> bit b 3)" for b :: u8
  unfolding u8_bit_ranges u8_bit_less by blast+

lemma hi_mask: "(0xFFFFFF00 :: u32) = NOT (mask 8)"
  by (simp add: mask_eq_exp_minus_1)

lemma bit_set_al: "bit (set_al e b) n \<longleftrightarrow> (if n < 8 then bit b n else bit e n)"
  unfolding set_al_def hi_mask by (auto simp: bit_simps dest: bit_imp_le_length)

lemma set_al_set_al [simp]: "set_al (set_al e a) b = set_al e b"
  by (rule bit_word_eqI) (simp add: bit_set_al)

lemma set_al_ucast [simp]: "set_al (ucast a) b = ucast b" for a :: u8
  by (rule bit_word_eqI) (auto simp: bit_set_al bit_ucast_iff not_less bit_u8_high)

lemma push_push: "push_bit 1 (push_bit 2 b) = push_bit 3 b" "push_bit 1 (push_bit 3 b) = push_bit 4 b"
  "push_bit 1 (push_bit 4 b) = push_bit 5 b" for b :: u8
  by (simp_all only: push_bit_push_bit one_plus_numeral one_add_one add_num_simps)

lemmas utf8_bits = bit_set_al low_bits_def bit_drop_bit_eq bit_push_bit_iff bit_or_iff bit_and_iff bit_mask_iff bit_ucast_iff
  bit_u8_high

lemma value2: "drop_bit 2 (set_al (push_bit 5 (ucast (push_bit 3 b))) (push_bit 2 c1)) = push_bit 6 (low_bits 5 b) OR low_bits 6 c1"
  by (rule u32_eq_listI) (simp add: utf8_bits del: push_bit_Suc drop_bit_Suc)

lemma value3: "drop_bit 2 (set_al (push_bit 6 (set_al (push_bit 4 (ucast (push_bit 4 b))) (push_bit 2 c1))) (push_bit 2 c2))
    = push_bit 12 (low_bits 4 b) OR push_bit 6 (low_bits 6 c1) OR low_bits 6 c2"
  by (rule u32_eq_listI) (simp add: utf8_bits del: push_bit_Suc drop_bit_Suc)

lemma value4: "drop_bit 2 (set_al (push_bit 6 (set_al (push_bit 6 (set_al (push_bit 3 (ucast (push_bit 5 b))) (push_bit 2 c1))) (push_bit 2 c2))) (push_bit 2 c3))
    = push_bit 18 (low_bits 3 b) OR push_bit 12 (low_bits 6 c1) OR push_bit 6 (low_bits 6 c2) OR low_bits 6 c3"
  by (rule u32_eq_listI) (simp add: utf8_bits del: push_bit_Suc drop_bit_Suc)

definition step_of :: "(u32 \<times> nat) option \<Rightarrow> Utf8DecodeStep" where
  "step_of r = (case r of Some (v, n) \<Rightarrow> \<lparr>codepoint = v, consumed = n\<rparr> | None \<Rightarrow> error_step)"

lemma read2_eq: "read2 (b # bs) (ucast (push_bit 3 b)) =
    step_of (case bs of c1 # _ \<Rightarrow> if is_cont c1 then Some (push_bit 6 (low_bits 5 b) OR low_bits 6 c1, 2) else None | _ \<Rightarrow> None)"
  by (cases bs) (simp_all add: read2_def step_of_def cont_ok_eq Let_def value2 del: push_bit_Suc drop_bit_Suc)

lemma read3_eq: "read3 (b # bs) (ucast (push_bit 4 b)) =
    step_of (case bs of c1 # c2 # _ \<Rightarrow>
           if is_cont c1 \<and> is_cont c2 then Some (push_bit 12 (low_bits 4 b) OR push_bit 6 (low_bits 6 c1) OR low_bits 6 c2, 3)
           else None
         | _ \<Rightarrow> None)"
proof (cases bs)
  case (Cons c1 cs)
  then show ?thesis
    by (cases cs) (simp_all add: read3_def step_of_def cont_ok_eq Let_def value3 del: push_bit_Suc drop_bit_Suc)
qed (simp add: read3_def step_of_def)

lemma read4_eq: "read4 (b # bs) (ucast (push_bit 5 b)) =
    step_of (case bs of c1 # c2 # c3 # _ \<Rightarrow>
           if is_cont c1 \<and> is_cont c2 \<and> is_cont c3 then
             Some (push_bit 18 (low_bits 3 b) OR push_bit 12 (low_bits 6 c1) OR push_bit 6 (low_bits 6 c2) OR low_bits 6 c3, 4)
           else None
         | _ \<Rightarrow> None)"
proof (cases bs)
  case (Cons c1 cs)
  show ?thesis
  proof (cases cs)
    case (Cons c2 ds)
    with \<open>bs = c1 # cs\<close> show ?thesis
      by (cases ds) (simp_all add: read4_def step_of_def cont_ok_eq Let_def value4 del: push_bit_Suc drop_bit_Suc)
  qed (simp add: read4_def step_of_def Cons)
qed (simp add: read4_def step_of_def)

lemma utf8_decode_eq: "utf8_decode (b # bs) = Some (step_of (utf8_value (b # bs)))"
proof -
  have u: "(ucast (ucast b :: u32) :: u8) = b" by (rule bit_word_eqI) (simp add: bit_simps)
  show ?thesis
  proof (cases "b < 0x80")
    case True
    then show ?thesis by (simp add: utf8_decode_def Let_def u lead_tests(1) step_of_def)
  next
    case False
    note c = lead_class [OF False]
    show ?thesis
      unfolding utf8_decode_def Let_def nth_Cons_0 u lead_tests set_al_set_al set_al_ucast push_push
      using False by (simp only: list.distinct if_False if_True not_not read2_eq read3_eq read4_eq utf8_value.simps c)
        (simp add: step_of_def)
  qed
qed

text \<open>C14: The shift-and-carry UTF-8 decoder equals the reference that classifies the lead byte by range and takes
  the payload bits with masks, on every input: the code point and the number of bytes consumed agree, and
  a bad lead, a missing or a bad continuation byte gives U+FFFD and one byte consumed.\<close>

theorem utf8_decode_exact:
  "utf8_decode input = (case input of [] \<Rightarrow> None | _ \<Rightarrow> Some (step_of (utf8_value input)))"
  using utf8_decode_eq by (cases input) (simp_all add: utf8_decode_def)

section \<open>Surrogate pairs\<close>

lemma utf16_pair_bits:
  fixes x :: u32
  assumes "unat x < 2 ^ 20"
  shows "word_rotr 16 ((push_bit 6 x AND 0xFFFF0000) OR ucast (drop_bit 6 (ucast (push_bit 6 x) :: u16)))
    = push_bit 16 (x AND mask 10) OR drop_bit 10 x"
proof -
  have x: "\<not> bit x n" if "20 \<le> n" for n
    using bit_below [OF _ assms, of n] that by auto
  have m: "(0xFFFF0000 :: u32) = NOT (mask 16)" by (simp add: mask_eq_exp_minus_1)
  show ?thesis unfolding m
    by (rule u32_eq_listI)
      (simp add: bit_word_rotr_iff bit_or_iff bit_and_iff bit_not_iff bit_mask_iff bit_push_bit_iff bit_drop_bit_eq bit_ucast_iff x
        del: push_bit_Suc drop_bit_Suc)
qed

lemma utf16_pair_halves:
  fixes x :: u32
  assumes "unat x < 2 ^ 20"
  defines "r \<equiv> (push_bit 16 (x AND mask 10) OR drop_bit 10 x) OR 0xDC00D800"
  shows "unat (ucast r :: u16) = 0xD800 + unat x div 1024" and "unat (ucast (drop_bit 16 r) :: u16) = 0xDC00 + unat x mod 1024"
proof -
  have x: "\<not> bit x n" if "20 \<le> n" for n
    using bit_below [OF _ assms(1), of n] that by auto
  define dc d8 :: u32 where "dc = 0xDC00" and "d8 = 0xD800"
  have c: "(0xDC00D800 :: u32) = push_bit 16 dc OR d8" by (simp add: dc_def d8_def)
  have d8: "\<not> bit d8 n" if "16 \<le> n" for n
    using bit_below [of d8 n 16] that by (auto simp: d8_def)
  define k3 k1 :: u16 where "k3 = 0x37" and "k1 = 0x1B"
  have "(ucast r :: u16) = ucast d8 OR ucast (drop_bit 10 x)"
    unfolding r_def c by (rule bit_word_eqI) (auto simp: bit_simps)
  also have "\<dots> = push_bit 11 k1 OR ucast (drop_bit 10 x)" by (simp add: d8_def k1_def)
  also have "\<dots> = push_bit 11 k1 + ucast (drop_bit 10 x)"
    by (rule disjunctive_add [symmetric]) (auto simp: bit_simps x)
  also have "\<dots> = of_nat (0xD800 + unat (drop_bit 10 x))" by (simp add: k1_def)
  also have "unat (drop_bit 10 x) = unat x div 1024" unfolding unat_drop_bit_eq by (simp add: drop_bit_eq_div)
  finally have "(ucast r :: u16) = of_nat (0xD800 + unat x div 1024)" .
  moreover have "unat x div 1024 < 1024" using assms(1) by (simp add: div_less_iff_less_mult)
  ultimately show "unat (ucast r :: u16) = 0xD800 + unat x div 1024" by (simp only: unat_of_nat_u16)
  have "(ucast (drop_bit 16 r) :: u16) = ucast dc OR ucast (x AND mask 10)"
    unfolding r_def c by (rule bit_word_eqI) (auto simp: bit_simps x d8)
  also have "\<dots> = push_bit 10 k3 OR ucast (x AND mask 10)" by (simp add: dc_def k3_def)
  also have "\<dots> = push_bit 10 k3 + ucast (x AND mask 10)"
    by (rule disjunctive_add [symmetric]) (auto simp: bit_simps)
  also have "\<dots> = of_nat (0xDC00 + unat (x AND mask 10))" by (simp add: k3_def)
  also have "unat (x AND mask 10) = unat x mod 1024"
    by (simp add: take_bit_eq_mask [symmetric] unsigned_take_bit_eq) (simp add: take_bit_eq_mod)
  finally have "(ucast (drop_bit 16 r) :: u16) = of_nat (0xDC00 + unat x mod 1024)" .
  moreover have "unat x mod 1024 < 1024" by simp
  ultimately show "unat (ucast (drop_bit 16 r) :: u16) = 0xDC00 + unat x mod 1024" by (simp only: unat_of_nat_u16)
qed

text \<open>C16: A code point above the basic plane is encoded as a surrogate pair from which it can be read back: the low
  half is a high surrogate, the high half a low surrogate, and their payloads give the code point; every
  other scalar value is its own encoding, and surrogates and values above U+10FFFF become U+FFFD.\<close>

theorem utf16_pair_decodes:
  "if unat cp < 0x10000 \<or> 0x110000 \<le> unat cp then
     utf16_encode cp = (if unat cp < 0xD800 \<or> 0xE000 \<le> unat cp \<and> unat cp < 0x10000 then cp else 0xFFFD)
   else
     (let hi = unat (ucast (utf16_encode cp) :: u16); lo = unat (ucast (drop_bit 16 (utf16_encode cp)) :: u16)
      in 0xD800 \<le> hi \<and> hi < 0xDC00 \<and> 0xDC00 \<le> lo \<and> lo < 0xE000
       \<and> 0x10000 + 1024 * (hi - 0xD800) + (lo - 0xDC00) = unat cp)"
proof (cases "unat cp < 0x10000 \<or> 0x110000 \<le> unat cp")
  case True
  then show ?thesis by (auto simp: utf16_encode_def word_le_nat_alt word_less_nat_alt)
next
  case False
  define x where "x = cp - 0x10000"
  have x: "unat x = unat cp - 0x10000" using False by (simp add: x_def unat_sub word_le_nat_alt)
  then have "unat x < 1048576" using False by linarith
  then have small: "unat x < 2 ^ 20" by simp
  have "utf16_encode cp = (push_bit 16 (x AND mask 10) OR drop_bit 10 x) OR 0xDC00D800"
    using False unfolding utf16_pair_bits [OF small, symmetric]
    by (simp add: utf16_encode_def word_le_nat_alt Let_def x_def)
  note h = utf16_pair_halves [OF small, folded this]
  have "unat x div 1024 < 1024" "unat x mod 1024 < 1024" using small by (simp_all add: div_less_iff_less_mult)
  moreover have "0x10000 + 1024 * (unat x div 1024) + unat x mod 1024 = unat cp" using x False by simp
  ultimately show ?thesis using False unfolding Let_def h by simp
qed

section \<open>The code page\<close>

text \<open>C17: Decoding a CP866 byte and encoding it again gives the byte back, for every byte with a character of its
  own (box drawing and the last eight bytes become an underscore). Case folding commutes with decoding:
  folding the byte and then decoding gives the folded code unit. Folding twice is folding once.\<close>

theorem cp866_round_trip_and_case:
  "cp866_encode (cp866_decode (ucast b)) = (if 0xB0 \<le> b \<and> b < 0xE0 \<or> 0xF8 \<le> b then 0x5F else ucast b)
   \<and> utf16_to_upper (ucast (cp866_decode (ucast b))) = ucast (cp866_decode (ucast (cp866_to_upper b)))
   \<and> cp866_to_upper (cp866_to_upper b) = cp866_to_upper b" for b :: u8
  by (rule u8_allI [of "\<lambda>b. cp866_encode (cp866_decode (ucast b)) = (if 0xB0 \<le> b \<and> b < 0xE0 \<or> 0xF8 \<le> b then 0x5F else ucast b)
     \<and> utf16_to_upper (ucast (cp866_decode (ucast b))) = ucast (cp866_decode (ucast (cp866_to_upper b)))
     \<and> cp866_to_upper (cp866_to_upper b) = cp866_to_upper b"]) code_simp

end
