(* ===== verification/Utf_Strings.thy ===== *)
theory Utf_Strings
  imports Unicode
begin

text \<open>
  String conversion: the UTF-16 to UTF-8 encoder with its byte budget and the string loop over it
  (\<^verbatim>\<open>utf16_to_8.rs\<close>), and the CP866 string loop (\<^verbatim>\<open>cp866_to_utf8_string.rs\<close>). The two string
  loops share one contract, the locale \<open>unit_stream\<close>.
\<close>

section \<open>Model\<close>

subsection \<open>One code unit\<close>

record Utf16To8Result =
  res_eax :: u32
  res_ecx :: u32
  res_delta :: u32
  res_sf :: u32

definition pack_sf_eax :: "u32 \<Rightarrow> u32 \<Rightarrow> u32" where
  "pack_sf_eax sf eax = push_bit 31 sf OR (eax AND 0x7FFFFFFF)"

definition unpack_sf_eax :: "u32 \<Rightarrow> u32 \<times> u32" where
  "unpack_sf_eax packed = (drop_bit 31 packed, packed AND 0x7FFFFFFF)"

definition trampoline_sf_from_packed :: "u32 \<Rightarrow> bool" where
  "trampoline_sf_from_packed packed \<longleftrightarrow> sint packed < 0"

definition trampoline_eax_from_packed :: "u32 \<Rightarrow> u32" where
  "trampoline_eax_from_packed packed = packed AND 0x7FFFFFFF"

definition dec_ecx :: "u32 \<Rightarrow> u32 \<times> bool" where
  "dec_ecx ecx = (let r = ecx - 1; sf = (r AND 0x80000000 \<noteq> 0) in (r, sf))"

definition encode_2byte :: "u32 \<Rightarrow> u32 \<times> u8 list" where
  "encode_2byte c =
     (let eax = push_bit 2 c;
          al = ucast (drop_bit 2 (ucast eax :: u8)) :: u32;
          eax = (eax AND 0xFFFFFF00) OR al;
          eax = eax OR 0xC080;
          al = eax AND 0xFF;
          ah = drop_bit 8 eax AND 0xFF;
          eax = (eax AND 0xFFFF0000) OR push_bit 8 al OR ah;
          b0 = ucast (eax AND 0xFF);
          b1 = ucast (drop_bit 8 eax AND 0xFF)
      in (eax, [b0, b1]))"

text \<open>\<^verbatim>\<open>u32::swap_bytes\<close>\<close>

definition swap_bytes_u32 :: "u32 \<Rightarrow> u32" where
  "swap_bytes_u32 x = le32 (byte 3 x) (byte 2 x) (byte 1 x) (byte 0 x)"

definition encode_3byte :: "u32 \<Rightarrow> u32 \<times> u8 list" where
  "encode_3byte c =
     (let eax = push_bit 4 c;
          ax = ucast (drop_bit 2 (ucast eax :: u16)) :: u32;
          eax = (eax AND 0xFFFF0000) OR ax;
          al = ucast (drop_bit 2 (ucast eax :: u8)) :: u32;
          eax = (eax AND 0xFFFFFF00) OR al;
          eax = eax OR 0xE08080;
          eax = swap_bytes_u32 eax;
          eax = drop_bit 8 eax;
          b0 = ucast (eax AND 0xFF);
          eax = drop_bit 8 eax;
          b1 = ucast (eax AND 0xFF);
          b2 = ucast (drop_bit 8 eax AND 0xFF)
      in (eax, [b0, b1, b2]))"

definition utf16_to_8 :: "u16 \<Rightarrow> u32 \<Rightarrow> u32 \<Rightarrow> mem \<Rightarrow> Utf16To8Result \<times> mem" where
  "utf16_to_8 ax dest ecx_in m =
     (let eax = ucast ax :: u32;
          (ecx, sf) = dec_ecx ecx_in
      in if sf then (\<lparr>res_eax = eax, res_ecx = ecx, res_delta = 0, res_sf = 1\<rparr>, m)
      else if eax < 0x80 then
        (\<lparr>res_eax = eax, res_ecx = ecx, res_delta = 1, res_sf = 0\<rparr>, m(dest := ucast eax))
      else
        let (ecx, sf) = dec_ecx ecx
        in if sf then (\<lparr>res_eax = eax, res_ecx = ecx, res_delta = 0, res_sf = 1\<rparr>, m)
        else if eax < 0x800 then
          let (res, bytes) = encode_2byte eax
          in (\<lparr>res_eax = res, res_ecx = ecx, res_delta = 2, res_sf = 0\<rparr>,
              m(dest := bytes ! 0, dest + 1 := bytes ! 1))
        else
          let (ecx, sf) = dec_ecx ecx
          in if sf then (\<lparr>res_eax = eax, res_ecx = ecx, res_delta = 0, res_sf = 1\<rparr>, m)
          else
            let (res, bytes) = encode_3byte eax
            in (\<lparr>res_eax = res, res_ecx = ecx, res_delta = 3, res_sf = 0\<rparr>,
                m(dest := bytes ! 0, dest + 1 := bytes ! 1, dest + 2 := bytes ! 2)))"

text \<open>The pointer form returns the packed word, the advanced destination and the remaining budget.\<close>

definition utf16_to_8_ptr :: "u32 \<Rightarrow> u32 \<Rightarrow> u32 \<Rightarrow> mem \<Rightarrow> u32 \<times> u32 \<times> u32 \<times> mem" where
  "utf16_to_8_ptr ch dest ecx_in m =
     (let (r, m) = utf16_to_8 (ucast ch) dest ecx_in m;
          dest_out = (if res_delta r \<noteq> 0 then dest + res_delta r else dest)
      in (pack_sf_eax (res_sf r) (res_eax r), dest_out, res_ecx r, m))"

section \<open>One unit against the reference\<close>

text \<open>The bytes of a 16-bit unit, a surrogate being encoded like any other unit.\<close>

definition utf8_of :: "u16 \<Rightarrow> u8 list" where
  "utf8_of c =
     (if c < 0x80 then [ucast c]
      else if c < 0x800 then [0xC0 OR ucast (drop_bit 6 c), 0x80 OR ucast (c AND mask 6)]
      else [0xE0 OR ucast (drop_bit 12 c), 0x80 OR ucast (drop_bit 6 c AND mask 6), 0x80 OR ucast (c AND mask 6)])"

lemma dec_ecx_eq: "dec_ecx e = (e - 1, \<not> (0 < unat e \<and> unat e \<le> 2 ^ 31))"
proof -
  have "(e - 1) AND 2 ^ 31 = 0 \<longleftrightarrow> \<not> bit (e - 1) 31" by (rule and_exp_eq_0_iff_not_bit)
  then have a: "(e - 1) AND 0x80000000 = 0 \<longleftrightarrow> \<not> bit (e - 1) 31" by simp
  have "bit (e - 1) 31 \<longleftrightarrow> 2 ^ 31 \<le> unat (e - 1)"
  proof
    assume "bit (e - 1) 31" then show "2 ^ 31 \<le> unat (e - 1)" by (rule bit_imp_exp_le)
  next
    assume *: "2 ^ 31 \<le> unat (e - 1)"
    have "unat (e - 1) < 2 * 2 ^ 31" using unat_u32 [of "e - 1"] by simp
    with * have "unat (e - 1) div 2 ^ 31 = 1" by (simp add: div_nat_eqI)
    then have "bit (unat (e - 1)) 31" by (simp add: bit_iff_odd)
    then show "bit (e - 1) 31" by (simp add: bit_unsigned_iff)
  qed
  also have "\<dots> \<longleftrightarrow> \<not> (0 < unat e \<and> unat e \<le> 2 ^ 31)"
  proof (cases "e = 0")
    case False
    then have "0 < unat e" by (simp add: unat_gt_0)
    then show ?thesis unfolding unat_dec [OF False] by linarith
  qed (simp add: unsigned_minus_1_eq_mask mask_eq_exp_minus_1)
  finally show ?thesis unfolding dec_ecx_def Let_def a by simp
qed

lemma low_mask: "(0xFF :: u32) = mask 8" "(0xFFFF0000 :: u32) = NOT (mask 16)" "(0x7FFFFFFF :: u32) = mask 31"
  by (simp_all add: mask_eq_exp_minus_1)

lemma unit_below: "c < 0x800 \<Longrightarrow> 11 \<le> n \<Longrightarrow> \<not> bit c n" for c :: u16
  using bit_below [of c n 11] by (auto simp: word_less_nat_alt)

lemma marker_bits:
  "bit (0xC080 :: u32) n \<longleftrightarrow> n = 7 \<or> n = 14 \<or> n = 15"
  "bit (0xE08080 :: u32) n \<longleftrightarrow> n = 7 \<or> n = 15 \<or> n = 21 \<or> n = 22 \<or> n = 23"
  "bit (0xC0 :: u8) n \<longleftrightarrow> n = 6 \<or> n = 7" "bit (0x80 :: u8) n \<longleftrightarrow> n = 7" "bit (0xE0 :: u8) n \<longleftrightarrow> n = 5 \<or> n = 6 \<or> n = 7"
proof -
  have e: "(0xC080 :: u32) = 2 ^ 7 OR 2 ^ 14 OR 2 ^ 15" "(0xE08080 :: u32) = 2 ^ 7 OR 2 ^ 15 OR 2 ^ 21 OR 2 ^ 22 OR 2 ^ 23"
    "(0xC0 :: u8) = 2 ^ 6 OR 2 ^ 7" "(0x80 :: u8) = 2 ^ 7" "(0xE0 :: u8) = 2 ^ 5 OR 2 ^ 6 OR 2 ^ 7" by simp_all
  show "bit (0xC080 :: u32) n \<longleftrightarrow> n = 7 \<or> n = 14 \<or> n = 15" "bit (0xE08080 :: u32) n \<longleftrightarrow> n = 7 \<or> n = 15 \<or> n = 21 \<or> n = 22 \<or> n = 23"
    "bit (0xC0 :: u8) n \<longleftrightarrow> n = 6 \<or> n = 7" "bit (0x80 :: u8) n \<longleftrightarrow> n = 7" "bit (0xE0 :: u8) n \<longleftrightarrow> n = 5 \<or> n = 6 \<or> n = 7"
    unfolding e bit_or_iff bit_exp_iff by auto
qed

definition "tag2 = (0xC080 :: u32)"
definition "tag3 = (0xE08080 :: u32)"
definition "lead2 = (0xC0 :: u8)"
definition "lead3 = (0xE0 :: u8)"
definition "follow = (0x80 :: u8)"

lemmas tag_bits = marker_bits [folded tag2_def tag3_def lead2_def lead3_def follow_def]
lemmas tag_folds = tag2_def [symmetric] tag3_def [symmetric] lead2_def [symmetric] lead3_def [symmetric] follow_def [symmetric]

lemmas encode_bits = bit_or_iff bit_and_iff bit_not_iff bit_mask_iff bit_push_bit_iff bit_drop_bit_eq bit_ucast_iff bit_le32 bit_byte
  bit_u16_high tag_bits

lemma encode_2byte_eq:
  assumes "c < (0x800 :: u16)"
  shows "snd (encode_2byte (ucast c)) = [0xC0 OR ucast (drop_bit 6 c), 0x80 OR ucast (c AND mask 6)]"
  unfolding encode_2byte_def Let_def snd_conv hi_mask low_mask list.inject tag_folds
  by (intro conjI; (rule u8_eq_listI)?)
    (simp_all add: encode_bits unit_below [OF assms] del: push_bit_Suc drop_bit_Suc)

lemma encode_3byte_eq:
  "snd (encode_3byte (ucast (c :: u16))) =
     [0xE0 OR ucast (drop_bit 12 c), 0x80 OR ucast (drop_bit 6 c AND mask 6), 0x80 OR ucast (c AND mask 6)]"
  unfolding encode_3byte_def swap_bytes_u32_def Let_def snd_conv hi_mask low_mask list.inject tag_folds
  by (intro conjI; (rule u8_eq_listI)?)
    (simp_all add: encode_bits del: push_bit_Suc drop_bit_Suc)

text \<open>What a call does: the unit is written and the budget charged by its length when the length fits in the
  signed budget, and otherwise nothing is written and the budget is charged until it turns negative. The one
  exception of the 32-bit arithmetic is a budget of exactly -2147483648, which counts as a huge one.\<close>

definition fits :: "u32 \<Rightarrow> nat \<Rightarrow> bool" where
  "fits ecx n \<longleftrightarrow> n \<le> unat ecx \<and> unat ecx \<le> 2 ^ 31"

lemma length_utf8_of: "length (utf8_of c) = (if c < 0x80 then 1 else if c < 0x800 then 2 else 3)"
  by (simp add: utf8_of_def)

lemma fits_dec:
  "fits e (Suc n) \<longleftrightarrow> 0 < unat e \<and> unat e \<le> 2 ^ 31 \<and> fits (e - 1) n"
  by (cases "e = 0") (auto simp: fits_def unat_dec)

lemma fits_zero: "fits e 0 \<longleftrightarrow> unat e \<le> 2 ^ 31"
  by (simp add: fits_def)

lemma dec_ecx_fits: "snd (dec_ecx e) \<longleftrightarrow> \<not> fits e 1" "fst (dec_ecx e) = e - 1"
  unfolding dec_ecx_eq by (auto simp: fits_def)

lemma fits_le: "fits e n \<Longrightarrow> k \<le> n \<Longrightarrow> fits e k"
  by (simp add: fits_def)

lemma fits_dec1: "fits e 1 \<Longrightarrow> fits (e - 1) n \<longleftrightarrow> fits e (Suc n)"
  by (simp add: fits_dec fits_zero)

lemma unit_compare: "(ucast c :: u32) < 0x80 \<longleftrightarrow> c < 0x80" "(ucast c :: u32) < 0x800 \<longleftrightarrow> c < 0x800" for c :: u16
  by (simp_all add: word_less_nat_alt unat_ucast_up)

lemma byte_of_unit: "(ucast (ucast c :: u32) :: u8) = ucast c" for c :: u16
  by (rule bit_word_eqI) (simp add: bit_simps)

lemma fits_steps:
  "fits e 1 \<Longrightarrow> fits (e - 1) 1 \<longleftrightarrow> fits e 2" "fits e 2 \<Longrightarrow> fits (e - 1 - 1) 1 \<longleftrightarrow> fits e 3"
proof -
  show "fits e 1 \<Longrightarrow> fits (e - 1) 1 \<longleftrightarrow> fits e 2" using fits_dec1 [of e 1] by (simp add: eval_nat_numeral)
  assume "fits e 2"
  then show "fits (e - 1 - 1) 1 \<longleftrightarrow> fits e 3"
    using fits_le [of e 2 1] fits_dec1 [of e 1] fits_dec1 [of e 2] fits_dec1 [of "e - 1" 1] by (simp add: eval_nat_numeral)
qed

lemma dec_ecx_pair: "dec_ecx e = (e - 1, \<not> fits e 1)"
  by (simp add: dec_ecx_eq fits_def Suc_le_eq)

lemma utf16_to_8_cases:
  "utf16_to_8 c dest ecx m =
     (let n = length (utf8_of c)
      in if fits ecx n then
        (\<lparr>res_eax = (if n = 1 then ucast c else if n = 2 then fst (encode_2byte (ucast c)) else fst (encode_3byte (ucast c))),
          res_ecx = ecx - of_nat n, res_delta = of_nat n, res_sf = 0\<rparr>, put_bytes dest (utf8_of c) m)
      else
        (\<lparr>res_eax = ucast c, res_ecx = ecx - (if \<not> fits ecx 1 then 1 else if \<not> fits ecx 2 then 2 else 3),
          res_delta = 0, res_sf = 1\<rparr>, m))"
proof -
  consider "c < 0x80" | "\<not> c < 0x80" "c < 0x800" | "\<not> c < 0x80" "\<not> c < 0x800" by blast
  then show ?thesis
  proof cases
    case 1
    then show ?thesis by (simp add: utf16_to_8_def dec_ecx_pair utf8_of_def unit_compare byte_of_unit Let_def)
  next
    case 2
    obtain res where res: "encode_2byte (ucast c) = (res, utf8_of c)"
      using encode_2byte_eq [OF 2(2)] 2 by (cases "encode_2byte (ucast c)") (simp add: utf8_of_def)
    have l: "utf8_of c = [utf8_of c ! 0, utf8_of c ! 1]" using 2 by (simp add: utf8_of_def)
    have p: "put_bytes dest (utf8_of c) m = m(dest := utf8_of c ! 0, dest + 1 := utf8_of c ! 1)" by (subst l) simp
    show ?thesis
      by (cases "fits ecx 1"; cases "fits ecx 2")
        (use 2 fits_le [of ecx 2 1] in \<open>simp_all add: utf16_to_8_def dec_ecx_pair unit_compare length_utf8_of res p fits_steps [unfolded One_nat_def] Let_def\<close>)
  next
    case 3
    obtain res where res: "encode_3byte (ucast c) = (res, utf8_of c)"
      using encode_3byte_eq [of c] 3 by (cases "encode_3byte (ucast c)") (simp add: utf8_of_def)
    have l: "utf8_of c = [utf8_of c ! 0, utf8_of c ! 1, utf8_of c ! 2]" using 3 by (simp add: utf8_of_def)
    have p: "put_bytes dest (utf8_of c) m = m(dest := utf8_of c ! 0, dest + 1 := utf8_of c ! 1, dest + 2 := utf8_of c ! 2)"
      by (subst l) (simp add: add.commute)
    show ?thesis
      by (cases "fits ecx 1"; cases "fits ecx 2"; cases "fits ecx 3")
        (use 3 fits_le [of ecx 2 1] fits_le [of ecx 3 2] in
          \<open>simp_all add: utf16_to_8_def dec_ecx_pair unit_compare length_utf8_of res p fits_steps [unfolded One_nat_def diff_diff_eq one_add_one] Let_def\<close>)
  qed
qed

section \<open>Strings\<close>

record Utf16To8StringResult =
  str_eax :: u32
  str_esi :: u32
  str_edi :: u32
  str_ecx :: u32
  str_sf :: u32
  str_zf :: u32

definition pack_sf_zf_eax :: "u32 \<Rightarrow> u32 \<Rightarrow> u32 \<Rightarrow> u32" where
  "pack_sf_zf_eax sf zf eax = push_bit 31 sf OR push_bit 30 zf OR (eax AND 0x3FFFFFFF)"

definition unpack_sf_zf_eax :: "u32 \<Rightarrow> u32 \<times> u32 \<times> u32" where
  "unpack_sf_zf_eax packed = (drop_bit 31 packed AND 1, drop_bit 30 packed AND 1, packed AND 0x3FFFFFFF)"

definition trampoline_zf_from_packed :: "u32 \<Rightarrow> bool" where
  "trampoline_zf_from_packed packed \<longleftrightarrow> packed AND 0x3FFFFFFF = 0 \<and> packed AND 0x40000000 \<noteq> 0"

definition utf16_to_8_one :: "u16 \<Rightarrow> u32 \<Rightarrow> u32 \<Rightarrow> mem \<Rightarrow> Utf16To8Result \<times> mem" where
  "utf16_to_8_one ch dest ecx m = utf16_to_8 ch dest ecx m"

lemma charge_fits: "fits e n \<Longrightarrow> unat (e - of_nat n) = unat e - n"
proof -
  assume "fits e n"
  then have "n \<le> unat e" by (simp add: fits_def)
  moreover from this have "n < 2 ^ 32" using le_less_trans [OF _ unat_u32] by simp
  ultimately show ?thesis by (simp add: unat_sub word_le_nat_alt unat_of_nat_u32)
qed

lemma utf16_to_8_charges:
  assumes "res_sf (fst (utf16_to_8 c d e m)) = 0"
  shows "unat (res_ecx (fst (utf16_to_8 c d e m))) < unat e"
proof -
  have f: "fits e (length (utf8_of c))" using assms by (simp add: utf16_to_8_cases Let_def split: if_splits)
  moreover have "0 < length (utf8_of c)" by (simp add: length_utf8_of)
  ultimately have "unat e - length (utf8_of c) < unat e" unfolding fits_def by linarith
  then show ?thesis using f by (simp add: utf16_to_8_cases Let_def charge_fits)
qed

text \<open>The loop, entered with the registers of an iteration. It ends because every successful call charges the
  budget by at least one.\<close>

function utf16_string_loop :: "u32 \<Rightarrow> u32 \<Rightarrow> u32 \<Rightarrow> u32 \<Rightarrow> mem \<Rightarrow> Utf16To8StringResult \<times> mem" where
  "utf16_string_loop esi edi ecx eax m =
     (let ax = load_u16 m esi;
          esi = esi + 2;
          eax = (eax AND 0xFFFF0000) OR ucast ax;
          rm = utf16_to_8_one ax edi ecx m;
          r = fst rm
      in if res_sf r \<noteq> 0 then
        (\<lparr>str_eax = eax, str_esi = esi, str_edi = (if res_delta r \<noteq> 0 then edi + res_delta r else edi),
          str_ecx = res_ecx r, str_sf = 1, str_zf = 0\<rparr>, snd rm)
      else
        let edi = (if res_delta r \<noteq> 0 then edi + res_delta r else edi)
        in if eax = 0 then
          (\<lparr>str_eax = 0, str_esi = esi, str_edi = edi, str_ecx = res_ecx r, str_sf = 0, str_zf = 1\<rparr>, snd rm)
        else utf16_string_loop esi edi (res_ecx r) eax (snd rm))"
  by auto

termination
  by (relation "measure (\<lambda>(esi, edi, ecx, eax, m). unat ecx)") (simp_all add: utf16_to_8_one_def utf16_to_8_charges)

declare utf16_string_loop.simps [simp del]

definition utf16_to_8_string :: "u32 \<Rightarrow> u32 \<Rightarrow> u32 \<Rightarrow> mem \<Rightarrow> Utf16To8StringResult \<times> mem" where
  "utf16_to_8_string src dest ecx_in m = utf16_string_loop src dest ecx_in 0 m"

text \<open>The pointer forms return the packed word and the three registers.\<close>

definition utf16_to_8_string_ptr :: "u32 \<Rightarrow> u32 \<Rightarrow> u32 \<Rightarrow> mem \<Rightarrow> u32 \<times> u32 \<times> u32 \<times> u32 \<times> mem" where
  "utf16_to_8_string_ptr src dest ecx_in m =
     (let (r, m) = utf16_to_8_string src dest ecx_in m
      in (pack_sf_zf_eax (str_sf r) (str_zf r) (str_eax r), str_esi r, str_edi r, str_ecx r, m))"

record Cp866ToUtf8StringResult =
  cp_eax :: u32
  cp_esi :: u32
  cp_edi :: u32
  cp_ecx :: u32
  cp_sf :: u32
  cp_zf :: u32

function cp866_string_loop :: "u32 \<Rightarrow> u32 \<Rightarrow> u32 \<Rightarrow> mem \<Rightarrow> Cp866ToUtf8StringResult \<times> mem" where
  "cp866_string_loop esi edi ecx m =
     (let al = m esi;
          esi = esi + 1;
          uni = cp866_decode (ucast al);
          rm = utf16_to_8 (ucast uni) edi ecx m;
          r = fst rm;
          edi = (if res_delta r \<noteq> 0 then edi + res_delta r else edi)
      in if res_sf r \<noteq> 0 then
        (\<lparr>cp_eax = uni, cp_esi = esi, cp_edi = edi, cp_ecx = res_ecx r, cp_sf = 1, cp_zf = 0\<rparr>, snd rm)
      else if uni = 0 then
        (\<lparr>cp_eax = 0, cp_esi = esi, cp_edi = edi, cp_ecx = res_ecx r, cp_sf = 0, cp_zf = 1\<rparr>, snd rm)
      else cp866_string_loop esi edi (res_ecx r) (snd rm))"
  by auto

termination
  by (relation "measure (\<lambda>(esi, edi, ecx, m). unat ecx)") (simp_all add: utf16_to_8_charges)

declare cp866_string_loop.simps [simp del]

definition cp866_to_utf8_string :: "u32 \<Rightarrow> u32 \<Rightarrow> u32 \<Rightarrow> mem \<Rightarrow> Cp866ToUtf8StringResult \<times> mem" where
  "cp866_to_utf8_string src dest ecx_in m = cp866_string_loop src dest ecx_in m"

definition cp866_to_utf8_string_ptr :: "u32 \<Rightarrow> u32 \<Rightarrow> u32 \<Rightarrow> mem \<Rightarrow> u32 \<times> u32 \<times> u32 \<times> u32 \<times> mem" where
  "cp866_to_utf8_string_ptr src dest ecx_in m =
     (let (r, m) = cp866_to_utf8_string src dest ecx_in m
      in (pack_sf_zf_eax (cp_sf r) (cp_zf r) (cp_eax r), cp_esi r, cp_edi r, cp_ecx r, m))"


section \<open>The contract of the string loops\<close>

text \<open>The reference: encode unit after unit while the budget lasts, stop behind the terminator. The result is the
  output, whether the terminator was reached, and the number of units read.\<close>

fun encode_units :: "u16 list \<Rightarrow> nat \<Rightarrow> u8 list \<times> bool \<times> nat" where
  "encode_units [] b = ([], False, 0)"
| "encode_units (c # cs) b =
     (if b < length (utf8_of c) then ([], False, 1)
      else if c = 0 then ([0], True, 1)
      else case encode_units cs (b - length (utf8_of c)) of (bs, ok, k) \<Rightarrow> (utf8_of c @ bs, ok, Suc k))"

lemma encode_units_budget: "length (fst (encode_units us b)) \<le> b"
proof (induction us b rule: encode_units.induct)
  case (2 c cs b)
  then show ?case by (auto split: prod.splits simp: length_utf8_of)
qed simp

lemma encode_units_complete:
  assumes "0 \<notin> set us" and "length (concat (map utf8_of us)) < b"
  shows "encode_units (us @ 0 # rest) b = (concat (map utf8_of us) @ [0], True, Suc (length us))"
  using assms
proof (induction us arbitrary: b)
  case (Cons c us)
  then have "length (concat (map utf8_of us)) < b - length (utf8_of c)" by simp
  with Cons show ?case by simp
qed (simp add: length_utf8_of)

definition spent :: "u32 \<Rightarrow> u32" where
  "spent ecx = ecx - (if \<not> fits ecx 1 then 1 else if \<not> fits ecx 2 then 2 else 3)"

locale unit_stream =
  fixes get :: "mem \<Rightarrow> u32 \<Rightarrow> u16"
    and width :: nat
    and run :: "u32 \<Rightarrow> u32 \<Rightarrow> u32 \<Rightarrow> mem \<Rightarrow> (u32 \<times> u32 \<times> u32 \<times> bool) \<times> mem"
  assumes get_cong: "(\<And>i. i < width \<Longrightarrow> m (a + of_nat i) = m' (a + of_nat i)) \<Longrightarrow> get m a = get m' a"
    and run_full: "\<not> fits ecx (length (utf8_of (get m esi))) \<Longrightarrow>
      run esi edi ecx m = ((esi + of_nat width, edi, spent ecx, False), m)"
    and run_end: "fits ecx 1 \<Longrightarrow> get m esi = 0 \<Longrightarrow>
      run esi edi ecx m = ((esi + of_nat width, edi + 1, ecx - 1, True), put_bytes edi [0] m)"
    and run_next: "fits ecx (length (utf8_of (get m esi))) \<Longrightarrow> get m esi \<noteq> 0 \<Longrightarrow>
      run esi edi ecx m = run (esi + of_nat width) (edi + of_nat (length (utf8_of (get m esi))))
        (ecx - of_nat (length (utf8_of (get m esi)))) (put_bytes edi (utf8_of (get m esi)) m)"
begin

definition units :: "mem \<Rightarrow> u32 \<Rightarrow> nat \<Rightarrow> u16 list" where
  "units m a n = map (\<lambda>i. get m (a + of_nat (width * i))) [0..<n]"

lemma units_Suc: "units m a (Suc n) = get m a # units m (a + of_nat width) n"
proof -
  have "[0..<Suc n] = 0 # map Suc [0..<n]" by (simp add: map_Suc_upt upt_conv_Cons del: upt_Suc)
  then show ?thesis by (simp add: units_def algebra_simps del: upt_Suc)
qed

lemma units_put:
  assumes "apart d k a (width * n)" and "length bs \<le> k"
  shows "units (put_bytes d bs m) a n = units m a n"
proof -
  have "get (put_bytes d bs m) (a + of_nat (width * i)) = get m (a + of_nat (width * i))" if "i < n" for i
  proof (rule get_cong)
    fix j assume "j < width"
    then have "width * i + j < width * Suc i" by simp
    also have "\<dots> \<le> width * n" using that by (intro mult_le_mono2) simp
    finally have l: "width * i + j < width * n" .
    show "put_bytes d bs m (a + of_nat (width * i) + of_nat j) = m (a + of_nat (width * i) + of_nat j)"
    proof (rule put_bytes_other)
      fix x assume "x < length bs"
      then have "d + of_nat x \<noteq> a + of_nat (width * i + j)" using assms l unfolding apart_def by (meson less_le_trans)
      then show "a + of_nat (width * i) + of_nat j \<noteq> d + of_nat x" by (simp add: add.assoc eq_commute [of "d + of_nat x"])
    qed
  qed
  then show ?thesis by (simp add: units_def)
qed

lemma run_encodes:
  assumes "apart edi (unat ecx) esi (width * n)" and "unat ecx < n" and "unat ecx \<le> 2 ^ 31"
    and "encode_units (units m esi n) (unat ecx) = (bs, ok, k)"
  shows "\<exists>left. run esi edi ecx m = ((esi + of_nat (width * k), edi + of_nat (length bs), left, ok), put_bytes edi bs m)
    \<and> (ok \<longrightarrow> left = ecx - of_nat (length bs))"
  using assms
proof (induction n arbitrary: esi edi ecx m bs k)
  case (Suc n)
  define c where "c = get m esi"
  define u where "u = utf8_of c"
  have us: "units m esi (Suc n) = c # units m (esi + of_nat width) n" by (simp add: units_Suc c_def)
  have f: "fits ecx (length u) \<longleftrightarrow> length u \<le> unat ecx" using Suc.prems(3) by (simp add: fits_def)
  consider "\<not> fits ecx (length u)" | "fits ecx (length u)" "c = 0" | "fits ecx (length u)" "c \<noteq> 0" by blast
  then show ?case
  proof cases
    case 1
    then have "bs = []" "ok = False" "k = 1" using Suc.prems(4) f by (simp_all add: us u_def)
    with 1 show ?thesis by (simp add: run_full u_def c_def)
  next
    case 2
    then have "length u = 1" by (simp add: u_def length_utf8_of)
    with 2 have "bs = [0]" "ok = True" "k = 1" using Suc.prems(4) f by (simp_all add: us u_def)
    with 2 \<open>length u = 1\<close> show ?thesis by (simp add: run_end c_def fun_upd_def)
  next
    case 3
    obtain bs' k' where e: "encode_units (units m (esi + of_nat width) n) (unat ecx - length u) = (bs', ok, k')"
      and bs: "bs = u @ bs'" "k = Suc k'"
      using Suc.prems(4) 3 f by (auto simp: us u_def split: prod.splits)
    have pos: "0 < length u" by (simp add: u_def length_utf8_of)
    have c: "unat (ecx - of_nat (length u)) = unat ecx - length u" using 3 by (simp add: charge_fits)
    have a: "apart (edi + of_nat (length u)) (unat ecx - length u) (esi + of_nat width) (width * n)"
      using 3 f by (intro apart_sub [OF Suc.prems(1)]) auto
    have s: "apart edi (length u) (esi + of_nat width) (width * n)"
      using 3 f apart_sub [OF Suc.prems(1), of 0 "length u" width "width * n"] by simp
    have lt: "unat ecx - length u < n" using Suc.prems(2) 3 f pos by linarith
    have "\<exists>left. run (esi + of_nat width) (edi + of_nat (length u)) (ecx - of_nat (length u)) (put_bytes edi u m) =
        ((esi + of_nat width + of_nat (width * k'), edi + of_nat (length u) + of_nat (length bs'), left, ok),
          put_bytes (edi + of_nat (length u)) bs' (put_bytes edi u m))
        \<and> (ok \<longrightarrow> left = ecx - of_nat (length u) - of_nat (length bs'))"
      using Suc.prems(3) by (intro Suc.IH) (simp_all add: c a e lt units_put [OF s])
    with 3 show ?thesis by (simp add: run_next u_def c_def bs put_bytes_append algebra_simps)
  qed
qed simp

lemma run_writes_within: "{x. snd (run esi edi ecx m) x \<noteq> m x} \<subseteq> {x. fits ecx (Suc (unat (x - edi)))}"
proof (induction "unat ecx" arbitrary: esi edi ecx m rule: less_induct)
  case less
  define u where "u = utf8_of (get m esi)"
  have u: "0 < length u" "length u \<le> 3" by (simp_all add: u_def length_utf8_of)
  show ?case
  proof (cases "fits ecx (length u)")
    case False
    then show ?thesis by (simp add: run_full u_def)
  next
    case True
    have first: "put_bytes edi u m x = m x" if "\<not> fits ecx (Suc (unat (x - edi)))" for x
      using that True u by (subst put_bytes_at) (auto simp: fits_def)
    show ?thesis
    proof (cases "get m esi = 0")
      case True
      have "length u = 1" "u = [0]" using True by (simp_all add: u_def utf8_of_def)
      then show ?thesis using first \<open>fits ecx (length u)\<close> True run_end [of ecx m esi edi] by auto
    next
      case nz: False
      have c: "unat (ecx - of_nat (length u)) = unat ecx - length u" using True by (simp add: charge_fits)
      then have lt: "unat (ecx - of_nat (length u)) < unat ecx" using u True unfolding fits_def by linarith
      have sub: "{x. snd (run (esi + of_nat width) (edi + of_nat (length u)) (ecx - of_nat (length u)) (put_bytes edi u m)) x \<noteq> put_bytes edi u m x}
          \<subseteq> {x. fits (ecx - of_nat (length u)) (Suc (unat (x - (edi + of_nat (length u)))))}"
        using less.hyps [OF lt] .
      have "fits ecx (Suc (unat (x - edi)))" if "fits (ecx - of_nat (length u)) (Suc (unat (x - (edi + of_nat (length u)))))" for x
      proof -
        have "unat (x - edi) \<le> unat (x - (edi + of_nat (length u))) + unat (of_nat (length u) :: u32)"
          using unat_plus_simple_le [of "x - (edi + of_nat (length u))" "of_nat (length u)"] by simp
        moreover have "unat (of_nat (length u) :: u32) = length u" using u(2) by (intro unat_of_nat_u32) simp
        moreover have "Suc (unat (x - (edi + of_nat (length u)))) \<le> unat ecx - length u" using that c by (simp add: fits_def)
        ultimately show ?thesis using True unfolding fits_def by linarith
      qed
      moreover have "fits ecx (Suc (unat (x - edi)))
          \<or> fits (ecx - of_nat (length u)) (Suc (unat (x - (edi + of_nat (length u)))))"
        if "snd (run (esi + of_nat width) (edi + of_nat (length u)) (ecx - of_nat (length u)) (put_bytes edi u m)) x \<noteq> m x" for x
        using that subsetD [OF sub, of x] first [of x] by (cases "put_bytes edi u m x = m x") auto
      ultimately have "{x. snd (run (esi + of_nat width) (edi + of_nat (length u)) (ecx - of_nat (length u)) (put_bytes edi u m)) x \<noteq> m x}
          \<subseteq> {x. fits ecx (Suc (unat (x - edi)))}" by blast
      then show ?thesis using run_next [of ecx m esi edi] True nz by (simp add: u_def)
    qed
  qed
qed

end

section \<open>The two string loops\<close>

definition utf16_view :: "u32 \<Rightarrow> u32 \<Rightarrow> u32 \<Rightarrow> mem \<Rightarrow> (u32 \<times> u32 \<times> u32 \<times> bool) \<times> mem" where
  "utf16_view esi edi ecx m =
     (case utf16_to_8_string esi edi ecx m of (r, m') \<Rightarrow> ((str_esi r, str_edi r, str_ecx r, str_sf r = 0), m'))"

definition cp866_view :: "u32 \<Rightarrow> u32 \<Rightarrow> u32 \<Rightarrow> mem \<Rightarrow> (u32 \<times> u32 \<times> u32 \<times> bool) \<times> mem" where
  "cp866_view esi edi ecx m =
     (case cp866_to_utf8_string esi edi ecx m of (r, m') \<Rightarrow> ((cp_esi r, cp_edi r, cp_ecx r, cp_sf r = 0), m'))"

definition cp866_unit :: "mem \<Rightarrow> u32 \<Rightarrow> u16" where
  "cp866_unit m a = ucast (cp866_decode (ucast (m a)))"

lemma high_half: "(ucast (c :: u16) :: u32) AND 0xFFFF0000 = 0"
  unfolding low_mask by (rule bit_word_eqI) (auto simp: bit_simps dest: bit_imp_le_length)

lemma string_loop_eax: "utf16_string_loop esi edi ecx (ucast (c :: u16)) m = utf16_string_loop esi edi ecx 0 m"
  by (subst (1 2) utf16_string_loop.simps) (simp add: high_half)

lemma unit_zero: "(ucast (c :: u16) :: u32) = 0 \<longleftrightarrow> c = 0"
  by (simp add: word_unat_eq_iff unat_ucast_up)

lemma utf16_view_step:
  "utf16_view esi edi ecx m =
     (let c = load_u16 m esi; n = length (utf8_of c)
      in if \<not> fits ecx n then ((esi + 2, edi, spent ecx, False), m)
      else if c = 0 then ((esi + 2, edi + of_nat n, ecx - of_nat n, True), put_bytes edi (utf8_of c) m)
      else utf16_view (esi + 2) (edi + of_nat n) (ecx - of_nat n) (put_bytes edi (utf8_of c) m))"
  by (simp add: utf16_view_def utf16_to_8_string_def utf16_string_loop.simps [of esi] utf16_to_8_one_def utf16_to_8_cases
      Let_def string_loop_eax unit_zero spent_def length_utf8_of)

lemma cp866_decode_unit: "\<exists>y :: u16. cp866_decode x = ucast y"
proof -
  have n: "\<exists>y :: u16. (0xB6 :: u32) = ucast y" "\<exists>y :: u16. (0x5F :: u32) = ucast y"
    by (rule exI [of _ "0xB6"], simp, rule exI [of _ "0x5F"], simp)
  have "(ucast b :: u32) = ucast (ucast b :: u16)" for b :: u8
    by (rule bit_word_eqI) (auto simp: bit_simps dest: bit_imp_le_length)
  then have "\<exists>y :: u16. (ucast b :: u32) = ucast y" for b :: u8 by blast
  with n show ?thesis unfolding cp866_decode_def Let_def by (simp only: split: if_split) blast
qed

lemma cp866_unit_zero: "(ucast (cp866_decode x) :: u16) = 0 \<longleftrightarrow> cp866_decode x = 0"
proof -
  obtain y :: u16 where y: "cp866_decode x = ucast y" using cp866_decode_unit by blast
  have "(ucast (ucast y :: u32) :: u16) = y" by (rule bit_word_eqI) (simp add: bit_simps)
  then show ?thesis by (simp add: y unit_zero)
qed

lemma cp866_view_step:
  "cp866_view esi edi ecx m =
     (let c = cp866_unit m esi; n = length (utf8_of c)
      in if \<not> fits ecx n then ((esi + 1, edi, spent ecx, False), m)
      else if c = 0 then ((esi + 1, edi + of_nat n, ecx - of_nat n, True), put_bytes edi (utf8_of c) m)
      else cp866_view (esi + 1) (edi + of_nat n) (ecx - of_nat n) (put_bytes edi (utf8_of c) m))"
  by (simp add: cp866_view_def cp866_to_utf8_string_def cp866_string_loop.simps [of esi] utf16_to_8_cases
      Let_def cp866_unit_def cp866_unit_zero spent_def length_utf8_of)

interpretation utf16_stream: unit_stream load_u16 2 utf16_view
proof unfold_locales
  fix m m' :: mem and a :: u32
  assume "\<And>i. i < 2 \<Longrightarrow> m (a + of_nat i) = m' (a + of_nat i)"
  from this [of 0] this [of 1] show "load_u16 m a = load_u16 m' a" by (simp add: load_u16_def)
qed (subst utf16_view_step, simp add: utf8_of_def Let_def)+

interpretation cp866_stream: unit_stream cp866_unit 1 cp866_view
proof unfold_locales
  fix m m' :: mem and a :: u32
  assume "\<And>i. i < 1 \<Longrightarrow> m (a + of_nat i) = m' (a + of_nat i)"
  from this [of 0] show "cp866_unit m a = cp866_unit m' a" by (simp add: cp866_unit_def)
qed (subst cp866_view_step, simp add: utf8_of_def Let_def)+

section \<open>Packed results\<close>

lemma pack_masks: "(0x3FFFFFFF :: u32) = mask 30" by (simp add: mask_eq_exp_minus_1)

lemma sint_neg_bit: "sint x < 0 \<longleftrightarrow> bit x 31" for x :: u32
  by (simp add: not_le [symmetric] bit_last_iff [of x, simplified] del: not_le)

lemma packed_sf_eax:
  assumes "sf \<le> 1" and "unat eax < 2 ^ 31"
  shows "unpack_sf_eax (pack_sf_eax sf eax) = (sf, eax)"
    and "trampoline_sf_from_packed (pack_sf_eax sf eax) \<longleftrightarrow> sf = 1"
    and "trampoline_eax_from_packed (pack_sf_eax sf eax) = eax"
proof -
  have s: "bit sf n \<longleftrightarrow> n = 0 \<and> sf = 1" for n
  proof -
    have "sf = 0 \<or> sf = 1" using assms(1) by (auto simp: word_le_nat_alt word_unat_eq_iff)
    then show ?thesis by (auto simp: bit_1_iff)
  qed
  have e: "bit eax n \<Longrightarrow> n < 31" for n by (rule bit_below [OF _ assms(2)])
  have d: "drop_bit 31 (pack_sf_eax sf eax) = sf" and a: "pack_sf_eax sf eax AND mask 31 = eax"
    unfolding pack_sf_eax_def low_mask by (rule bit_word_eqI; auto simp: bit_simps s dest: e)+
  show "unpack_sf_eax (pack_sf_eax sf eax) = (sf, eax)" "trampoline_eax_from_packed (pack_sf_eax sf eax) = eax"
    unfolding unpack_sf_eax_def trampoline_eax_from_packed_def low_mask d a by simp_all
  have "bit (pack_sf_eax sf eax) 31 = bit (drop_bit 31 (pack_sf_eax sf eax)) 0" unfolding bit_drop_bit_eq by simp
  then show "trampoline_sf_from_packed (pack_sf_eax sf eax) \<longleftrightarrow> sf = 1"
    unfolding trampoline_sf_from_packed_def sint_neg_bit d by (simp add: s)
qed

section \<open>Properties of the converters\<close>

definition source_units :: "mem \<Rightarrow> u32 \<Rightarrow> nat \<Rightarrow> u16 list" where
  "source_units m src n = map (\<lambda>i. load_u16 m (src + of_nat (2 * i))) [0..<n]"

definition source_bytes :: "mem \<Rightarrow> u32 \<Rightarrow> nat \<Rightarrow> u16 list" where
  "source_bytes m src n = map (\<lambda>i. cp866_unit m (src + of_nat i)) [0..<n]"

text \<open>C11: The UTF-16 string converter writes the reference encoding of its source, for every budget up to 2 GiB and a
  destination that does not overlap the source: unit after unit while the whole unit fits, the terminator
  included. It reports success exactly when the terminator was written, then with the remaining budget, and
  returns both pointers behind what was read and written. It returns for every source.\<close>

theorem utf16_string_encodes:
  assumes "unat ecx \<le> 2 ^ 31" and "apart dest (unat ecx) src (2 * Suc (unat ecx))"
    and "encode_units (source_units m src (Suc (unat ecx))) (unat ecx) = (bs, ok, k)"
  shows "(case utf16_to_8_string src dest ecx m of (r, m') \<Rightarrow>
      m' = put_bytes dest bs m \<and> str_esi r = src + of_nat (2 * k) \<and> str_edi r = dest + of_nat (length bs)
      \<and> (str_sf r = 0) = ok \<and> (ok \<longrightarrow> str_ecx r = ecx - of_nat (length bs)))"
  using utf16_stream.run_encodes [OF assms(2) _ assms(1), of m bs ok k] assms(3)
  by (simp add: utf16_view_def utf16_stream.units_def source_units_def split: prod.splits)

theorem utf16_string_encodes_witness:
  "(case utf16_to_8_string 0x1000 0x2000 8 (put_bytes 0x1000 [0x41, 0, 0xAC, 0x20, 0, 0] (\<lambda>_. 1)) of (r, m') \<Rightarrow>
      mem_bytes m' 0x2000 5 = [0x41, 0xE2, 0x82, 0xAC, 0] \<and> str_sf r = 0 \<and> str_ecx r = 3)"
proof -
  define m :: mem where "m = put_bytes 0x1000 [0x41, 0, 0xAC, 0x20, 0, 0] (\<lambda>_. 1)"
  define bs :: "u8 list" where "bs = [0x41, 0xE2, 0x82, 0xAC, 0]"
  have u: "unat (8 :: u32) = 8" by simp
  have e: "encode_units (source_units m 0x1000 (Suc (unat (8 :: u32)))) (unat (8 :: u32)) = (bs, True, 3)"
    unfolding m_def bs_def u by code_simp
  have a: "apart 0x2000 (unat (8 :: u32)) 0x1000 (2 * Suc (unat (8 :: u32)))"
    unfolding u by (rule apart_sym, rule apartI) simp_all
  have l: "unat (8 :: u32) \<le> 2 ^ 31" by simp
  have "mem_bytes (put_bytes 0x2000 bs m) 0x2000 (length bs) = bs" by (rule mem_bytes_put_bytes) (simp add: bs_def)
  moreover have "length bs = 5" "(8 :: u32) - of_nat (length bs) = 3" by (simp_all add: bs_def)
  ultimately show ?thesis
    using utf16_string_encodes [OF l a e] unfolding m_def [symmetric] bs_def [symmetric] by (auto split: prod.splits)
qed

text \<open>C15: Neither string converter writes outside its destination buffer: whatever the source, the budget and the
  overlap of the two, every byte that changes lies within the budget behind the destination, and nothing
  changes when the budget is negative.\<close>

theorem string_writes_bounded:
  "{x. snd (utf16_to_8_string src dest ecx m) x \<noteq> m x} \<subseteq> {x. unat (x - dest) < unat ecx \<and> unat ecx \<le> 2 ^ 31}
   \<and> {x. snd (cp866_to_utf8_string src dest ecx m) x \<noteq> m x} \<subseteq> {x. unat (x - dest) < unat ecx \<and> unat ecx \<le> 2 ^ 31}"
proof -
  have "snd (utf16_view src dest ecx m) = snd (utf16_to_8_string src dest ecx m)"
    "snd (cp866_view src dest ecx m) = snd (cp866_to_utf8_string src dest ecx m)"
    by (simp_all add: utf16_view_def cp866_view_def split: prod.splits)
  then show ?thesis
    using utf16_stream.run_writes_within [of src dest ecx m] cp866_stream.run_writes_within [of src dest ecx m]
    by (simp add: fits_def Suc_le_eq)
qed

lemma cp866_loop_done: "cp_sf (fst (cp866_string_loop esi edi ecx m)) = 0 \<Longrightarrow>
    cp_eax (fst (cp866_string_loop esi edi ecx m)) = 0 \<and> cp_zf (fst (cp866_string_loop esi edi ecx m)) = 1"
proof (induction esi edi ecx m rule: cp866_string_loop.induct)
  case (1 esi edi ecx m)
  define rm where "rm = utf16_to_8 (ucast (cp866_decode (ucast (m esi)))) edi ecx m"
  define edi' where "edi' = (if res_delta (fst rm) \<noteq> 0 then edi + res_delta (fst rm) else edi)"
  note folds = rm_def [symmetric] edi'_def [symmetric]
  note step = cp866_string_loop.simps [of esi edi ecx m, unfolded Let_def, unfolded folds]
  note IH = 1(1) [OF refl refl refl refl refl refl, unfolded folds]
  show ?case
  proof (cases "res_sf (fst rm) \<noteq> 0 \<or> cp866_decode (ucast (m esi)) = 0")
    case True
    then show ?thesis using 1(2) unfolding step by (auto split: if_splits)
  next
    case False
    then show ?thesis using 1(2) IH unfolding step by simp
  qed
qed

lemma length_utf8_list: "length us \<le> length (concat (map utf8_of us))"
proof (induction us)
  case (Cons c us)
  have "0 < length (utf8_of c)" by (simp add: length_utf8_of)
  with Cons show ?case by (simp del: length_greater_0_conv)
qed simp

lemma u8_u32_u8 [simp]: "(ucast (ucast b :: u32) :: u8) = b" for b :: u8
  by (rule bit_word_eqI) (simp add: bit_simps)

text \<open>The tables as functions on numbers, range by range.\<close>

definition f0_nat :: "nat \<Rightarrow> nat" where
  "f0_nat n = 0x400 + [0x01, 0x51, 0x04, 0x54, 0x07, 0x57, 0x0E, 0x5E] ! (n - 0xF0)"

definition decode_nat :: "nat \<Rightarrow> nat" where
  "decode_nat n =
     (if n < 0x80 then if n = 20 then 0xB6 else n
      else if n < 0xB0 then n + 0x390 else if n < 0xE0 then 0x5F
      else if n < 0xF0 then n + 0x360 else if n < 0xF8 then f0_nat n else 0x5F)"

lemma u16_add_const: "unat b + unat k < 65536 \<Longrightarrow> unat (ucast b + k :: u16) = unat b + unat k" for b :: u8
  by (simp add: unat_word_ariths unat_ucast_up)

lemma byte_f0_cases:
  fixes b :: u8
  assumes "0xF0 \<le> unat b" and "unat b < 0xF8"
  obtains "b = 0xF0" | "b = 0xF1" | "b = 0xF2" | "b = 0xF3" | "b = 0xF4" | "b = 0xF5" | "b = 0xF6" | "b = 0xF7"
proof -
  from assms consider "unat b = 240" | "unat b = 241" | "unat b = 242" | "unat b = 243" | "unat b = 244" | "unat b = 245"
    | "unat b = 246" | "unat b = 247" by linarith
  then show thesis by cases (rule that; simp add: word_unat_eq_iff)+
qed

lemma unat_cp866_decode: "unat (cp866_decode (ucast b)) = decode_nat (unat b)" for b :: u8
proof (cases "0xF0 \<le> unat b \<and> unat b < 0xF8")
  case True
  then show ?thesis
    by (auto elim!: byte_f0_cases simp: cp866_decode_def decode_nat_def special_f0_table_def f0_table_def f0_nat_def)
next
  case False
  then show ?thesis
    using u16_add_const [of b "0x390"] u16_add_const [of b "0x360"]
    by (auto simp: cp866_decode_def decode_nat_def word_less_nat_alt Let_def unat_ucast_up word_unat_eq_iff)
qed

lemma cp866_decode_zero: "cp866_decode (ucast b) = 0 \<longleftrightarrow> b = 0" for b :: u8
proof -
  have "decode_nat n = 0 \<longleftrightarrow> n = 0" for n by (simp add: decode_nat_def f0_nat_def)
  then show ?thesis using unat_cp866_decode [of b] by (metis unat_eq_zero)
qed

lemma cp866_units:
  assumes "mem_bytes m src (Suc (length s)) = s @ [0]" and "length s < n"
  shows "\<exists>rest. cp866_stream.units m src n = map (\<lambda>b. ucast (cp866_decode (ucast b))) s @ 0 # rest"
proof -
  have at: "m (src + of_nat i) = (s @ [0]) ! i" if "i < Suc (length s)" for i
    using nth_mem_bytes [OF that, of m src] assms(1) by simp
  obtain k where n: "n = Suc (length s) + k" using assms(2) less_iff_Suc_add [of "length s" n] by auto
  have "map (\<lambda>i. cp866_unit m (src + of_nat (1 * i))) [0..<length s] = map (\<lambda>b. ucast (cp866_decode (ucast b))) s"
    by (rule nth_equalityI) (simp_all add: cp866_unit_def at nth_append)
  moreover have "cp866_unit m (src + of_nat (1 * length s)) = 0" using at [of "length s"] by (simp add: cp866_unit_def cp866_unit_zero cp866_decode_zero [of 0, simplified])
  ultimately show ?thesis
    unfolding cp866_stream.units_def n upt_add_eq_append [OF le0] by simp
qed

text \<open>C18: The CP866 converter turns a terminated string into the UTF-8 encoding of its characters, when the encoding
  and its terminator fit in the budget and the buffers do not overlap: the packed result has the zero flag
  set and the sign flag clear, and all registers are behind the string.\<close>

theorem cp866_string_converts:
  assumes "mem_bytes m src (Suc (length s)) = s @ [0]" and "0 \<notin> set s"
    and "out = concat (map (\<lambda>b. utf8_of (ucast (cp866_decode (ucast b)))) s) @ [0]"
    and "length out \<le> unat ecx" and "unat ecx \<le> 2 ^ 31" and "apart dest (unat ecx) src (Suc (unat ecx))"
  shows "\<exists>p. cp866_to_utf8_string_ptr src dest ecx m =
      (p, src + of_nat (Suc (length s)), dest + of_nat (length out), ecx - of_nat (length out), put_bytes dest out m)
    \<and> trampoline_zf_from_packed p \<and> \<not> trampoline_sf_from_packed p"
proof -
  let ?us = "map (\<lambda>b. ucast (cp866_decode (ucast b))) s :: u16 list"
  have o: "out = concat (map utf8_of ?us) @ [0]" by (simp add: assms(3) comp_def)
  have "length s < length out" using length_utf8_list [of ?us] by (simp add: o less_Suc_eq_le)
  then have l: "length s < Suc (unat ecx)" using assms(4) by linarith
  obtain rest where "cp866_stream.units m src (Suc (unat ecx)) = ?us @ 0 # rest" using cp866_units [OF assms(1) l] by blast
  moreover have "0 \<notin> set ?us" using assms(2) by (auto simp: cp866_unit_zero cp866_decode_zero image_iff dest!: sym [of 0])
  ultimately have e: "encode_units (cp866_stream.units m src (Suc (unat ecx))) (unat ecx) = (out, True, Suc (length s))"
    using assms(4) encode_units_complete [of ?us "unat ecx" rest] by (simp add: o del: map_map)
  obtain r m' where r: "cp866_to_utf8_string src dest ecx m = (r, m')" by fastforce
  have v: "cp_esi r = src + of_nat (Suc (length s))" "cp_edi r = dest + of_nat (length out)"
      "cp_ecx r = ecx - of_nat (length out)" "cp_sf r = 0" "m' = put_bytes dest out m"
    using cp866_stream.run_encodes [OF _ _ assms(5) e, of dest] assms(6) r by (simp_all add: cp866_view_def)
  then have "cp_eax r = 0" "cp_zf r = 1"
    using cp866_loop_done [of src dest ecx m] r by (simp_all add: cp866_to_utf8_string_def)
  then have "cp866_to_utf8_string_ptr src dest ecx m = (pack_sf_zf_eax 0 1 0, src + of_nat (Suc (length s)),
      dest + of_nat (length out), ecx - of_nat (length out), put_bytes dest out m)"
    by (simp add: cp866_to_utf8_string_ptr_def r v)
  moreover have "trampoline_zf_from_packed (pack_sf_zf_eax 0 1 0)" "\<not> trampoline_sf_from_packed (pack_sf_zf_eax 0 1 0)"
    by code_simp+
  ultimately show ?thesis by blast
qed

theorem cp866_string_converts_witness:
  "\<exists>p. cp866_to_utf8_string_ptr 0x1000 0x2000 8 (put_bytes 0x1000 [0x8F, 0x41, 0] (\<lambda>_. 1)) =
      (p, 0x1003, 0x2004, 4, put_bytes 0x2000 [0xD0, 0x9F, 0x41, 0] (put_bytes 0x1000 [0x8F, 0x41, 0] (\<lambda>_. 1)))
    \<and> trampoline_zf_from_packed p \<and> \<not> trampoline_sf_from_packed p"
proof -
  define m :: mem where "m = put_bytes 0x1000 [0x8F, 0x41, 0] (\<lambda>_. 1)"
  define s :: "u8 list" where "s = [0x8F, 0x41]"
  define out :: "u8 list" where "out = [0xD0, 0x9F, 0x41, 0]"
  have u: "unat (8 :: u32) = 8" by simp
  have "mem_bytes m 0x1000 (length (s @ [0])) = s @ [0]" unfolding m_def s_def by (subst mem_bytes_put_bytes [symmetric]) simp_all
  then have 1: "mem_bytes m 0x1000 (Suc (length s)) = s @ [0]" by simp
  have 2: "0 \<notin> set s" by (simp add: s_def)
  have 3: "out = concat (map (\<lambda>b. utf8_of (ucast (cp866_decode (ucast b)))) s) @ [0]" unfolding out_def s_def by code_simp
  have 4: "length out \<le> unat (8 :: u32)" by (simp add: out_def)
  have 5: "unat (8 :: u32) \<le> 2 ^ 31" by simp
  have 6: "apart 0x2000 (unat (8 :: u32)) 0x1000 (Suc (unat (8 :: u32)))"
    unfolding u by (rule apart_sym, rule apartI) simp_all
  have "(0x1000 :: u32) + of_nat (Suc (length s)) = 0x1003" "(0x2000 :: u32) + of_nat (length out) = 0x2004"
    "(8 :: u32) - of_nat (length out) = 4" by (simp_all add: s_def out_def)
  then show ?thesis using cp866_string_converts [OF 1 2 3 4 5 6] unfolding m_def [symmetric] out_def [symmetric] by simp
qed

end
