(* ===== verification/Utf8_Reader.thy ===== *)
theory Utf8_Reader
  imports Utf_Strings
begin

text \<open>
  The reader \<^verbatim>\<open>utf8to16.rs\<close>: it skips stray continuation bytes, gathers a sequence in the register
  and returns one UTF-16 unit. The slice form cannot read past its slice (the index would panic, here
  \<open>None\<close>); the pointer form reads memory until it meets a byte that ends a sequence, and is a
  partial function, \<open>None\<close> when it does not return.
\<close>

section \<open>Model\<close>

record Utf8To16Result =
  u_eax :: u32
  u_consumed :: nat

definition got :: "u32 \<Rightarrow> nat \<Rightarrow> Utf8To16Result" where
  "got eax esi = \<lparr>u_eax = eax AND 0xFFFF00FF, u_consumed = esi\<rparr>"

definition shl_al_cf :: "u8 \<Rightarrow> nat \<Rightarrow> u8 \<times> bool" where
  "shl_al_cf al count = (push_bit count al, drop_bit (8 - count) (ucast al :: u32) AND 1 = 1)"

text \<open>\<^verbatim>\<open>eax = (eax & 0xffff_0000) | u32::from(ax)\<close> and the same for the high byte of \<^verbatim>\<open>ax\<close>\<close>

definition set_ax :: "u32 \<Rightarrow> u16 \<Rightarrow> u32" where
  "set_ax eax ax = (eax AND 0xFFFF0000) OR ucast ax"

definition set_ah :: "u32 \<Rightarrow> u8 \<Rightarrow> u32" where
  "set_ah eax ah = (eax AND 0xFFFF00FF) OR push_bit 8 (ucast ah)"

function utf8to16_gather :: "u8 list \<Rightarrow> nat \<Rightarrow> u32 \<Rightarrow> Utf8To16Result option" where
  "utf8to16_gather input esi eax =
     (let ax = push_bit 8 (ucast eax :: u16);
          eax = set_ax eax ax
      in if esi \<ge> length input then None
      else
        let al2 = input ! esi;
            esi = esi + 1;
            eax = set_al eax al2
        in if (ucast eax :: u8) AND 0x80 = 0 then Some (got eax esi)
        else
          let (al3, cf_cont) = shl_al_cf (ucast eax) 2;
              eax = set_al eax al3
          in if cf_cont then utf8to16_gather input esi eax
          else
            let ah = drop_bit 2 (ucast (drop_bit 8 eax) :: u8);
                eax = set_ah eax ah;
                ax_in = ucast eax :: u16;
                cf_ax = (drop_bit 13 ax_in AND 1 = 1);
                ax_out = push_bit 3 ax_in;
                eax = set_ax eax ax_out
            in if \<not> cf_ax then
              let ax_fin = drop_bit 5 (ucast eax :: u16);
                  eax = set_ax eax ax_fin
              in Some \<lparr>u_eax = eax, u_consumed = esi\<rparr>
            else
              let eax = push_bit 3 eax
              in if esi \<ge> length input then None
              else
                let al4 = input ! esi;
                    esi = esi + 1;
                    eax = set_al eax al4
                in if (ucast eax :: u8) AND 0x80 = 0 then Some (got eax esi)
                else
                  let (al5, cf_again) = shl_al_cf (ucast eax) 2;
                      eax = set_al eax al5
                  in if cf_again then utf8to16_gather input esi eax
                  else Some \<lparr>u_eax = drop_bit 2 eax, u_consumed = esi\<rparr>)"
  by auto

termination
  by (relation "measure (\<lambda>(input, esi, eax). length input - esi)") auto

declare utf8to16_gather.simps [simp del]

function utf8to16_from :: "u8 list \<Rightarrow> nat \<Rightarrow> u32 \<Rightarrow> Utf8To16Result option" where
  "utf8to16_from input esi eax =
     (if esi \<ge> length input then None
      else
        let al0 = input ! esi;
            esi = esi + 1;
            eax = set_al eax al0
        in if (ucast eax :: u8) AND 0x80 = 0 then Some (got eax esi)
        else
          let (al1, cf_lead) = shl_al_cf (ucast eax) 2;
              eax = set_al eax al1
          in if \<not> cf_lead then utf8to16_from input esi eax
          else utf8to16_gather input esi eax)"
  by auto

termination
  by (relation "measure (\<lambda>(input, esi, eax). length input - esi)") auto

declare utf8to16_from.simps [simp del]

definition utf8to16 :: "u8 list \<Rightarrow> u32 \<Rightarrow> Utf8To16Result option" where
  "utf8to16 input initial_eax = utf8to16_from input 0 initial_eax"

text \<open>The pointer form returns the advanced pointer and \<^verbatim>\<open>EAX\<close>.\<close>

partial_function (option) utf8to16_gather_ptr :: "mem \<Rightarrow> u32 \<Rightarrow> u32 \<Rightarrow> (u32 \<times> u32) option" where
  "utf8to16_gather_ptr m esi eax =
     (let ax = push_bit 8 (ucast eax :: u16);
          eax = set_ax eax ax;
          al2 = m esi;
          esi = esi + 1;
          eax = set_al eax al2
      in if (ucast eax :: u8) AND 0x80 = 0 then Some (esi, eax AND 0xFFFF00FF)
      else
        let (al3, cf_cont) = shl_al_cf (ucast eax) 2;
            eax = set_al eax al3
        in if cf_cont then utf8to16_gather_ptr m esi eax
        else
          let ah = drop_bit 2 (ucast (drop_bit 8 eax) :: u8);
              eax = set_ah eax ah;
              ax_in = ucast eax :: u16;
              cf_ax = (drop_bit 13 ax_in AND 1 = 1);
              ax_out = push_bit 3 ax_in;
              eax = set_ax eax ax_out
          in if \<not> cf_ax then
            let ax_fin = drop_bit 5 (ucast eax :: u16);
                eax = set_ax eax ax_fin
            in Some (esi, eax)
          else
            let eax = push_bit 3 eax;
                al4 = m esi;
                esi = esi + 1;
                eax = set_al eax al4
            in if (ucast eax :: u8) AND 0x80 = 0 then Some (esi, eax AND 0xFFFF00FF)
            else
              let (al5, cf_again) = shl_al_cf (ucast eax) 2;
                  eax = set_al eax al5
              in if cf_again then utf8to16_gather_ptr m esi eax
              else Some (esi, drop_bit 2 eax))"

partial_function (option) utf8to16_ptr :: "mem \<Rightarrow> u32 \<Rightarrow> u32 \<Rightarrow> (u32 \<times> u32) option" where
  "utf8to16_ptr m esi eax =
     (let al0 = m esi;
          esi = esi + 1;
          eax = set_al eax al0
      in if (ucast eax :: u8) AND 0x80 = 0 then Some (esi, eax AND 0xFFFF00FF)
      else
        let (al1, cf_lead) = shl_al_cf (ucast eax) 2;
            eax = set_al eax al1
        in if \<not> cf_lead then utf8to16_ptr m esi eax
        else utf8to16_gather_ptr m esi eax)"

section \<open>Bits of the register\<close>

lemma low_of_set_al [simp]: "(ucast (set_al e b) :: u8) = b"
  by (rule bit_word_eqI) (simp add: bit_ucast_iff bit_set_al)

lemma high_masks: "(0xFFFF00FF :: u32) = NOT (push_bit 8 (mask 8))"
  by (simp add: mask_eq_exp_minus_1)

lemma bit_set_ax: "bit (set_ax e a) n \<longleftrightarrow> (if n < 16 then bit a n else bit e n)"
  unfolding set_ax_def low_mask by (auto simp: bit_simps dest: bit_imp_le_length)

lemma bit_set_ah: "bit (set_ah e a) n \<longleftrightarrow> (if 8 \<le> n \<and> n < 16 then bit a (n - 8) else bit e n)"
  unfolding set_ah_def high_masks by (auto simp: bit_simps dest: bit_imp_le_length)

lemma shl_al_cf_eq: "shl_al_cf b 2 = (push_bit 2 b, bit b 6)"
  unfolding shl_al_cf_def odd_drop_bit_and by (simp add: bit_ucast_iff)

lemma sign_bit: "(b AND 0x80 = 0) = (\<not> bit b 7)" for b :: u8
  by (simp only: lead_tests u8_bit_ranges)

section \<open>The two forms agree\<close>

text \<open>The register inside the gather loop: after the shift and the load, after the folding of a pair of bytes, and
  whether the pair is complete.\<close>

definition reg_load :: "u32 \<Rightarrow> u8 \<Rightarrow> u32" where
  "reg_load eax b = set_al (set_ax eax (push_bit 8 (ucast eax))) b"

definition reg_shift :: "u32 \<Rightarrow> u8 \<Rightarrow> u32" where
  "reg_shift eax b = set_al eax (push_bit 2 b)"

definition reg_pair :: "u32 \<Rightarrow> u32" where
  "reg_pair eax = set_ah eax (drop_bit 2 (ucast (drop_bit 8 eax)))"

definition reg_shl3 :: "u32 \<Rightarrow> u32" where
  "reg_shl3 eax = set_ax eax (push_bit 3 (ucast eax))"

definition gather_tail :: "u32 \<Rightarrow> u8 \<Rightarrow> u32" where
  "gather_tail eax b = reg_pair (reg_shift (reg_load eax b) b)"

lemma carry13: "(drop_bit 13 (ucast e :: u16) AND 1 = 1) = bit e 13" for e :: u32
  unfolding odd_drop_bit_and by (simp add: bit_ucast_iff)

lemmas reg_eqs = Let_def shl_al_cf_eq sign_bit carry13 prod.case low_of_set_al
  reg_load_def reg_shift_def reg_pair_def reg_shl3_def gather_tail_def

lemma gather_eq:
  "utf8to16_gather input esi eax =
     (if esi \<ge> length input then None
      else let b = input ! esi; e = reg_load eax b; t = gather_tail eax b
        in if \<not> bit b 7 then Some (got e (Suc esi))
        else if bit b 6 then utf8to16_gather input (Suc esi) (reg_shift e b)
        else if \<not> bit t 13 then
          Some \<lparr>u_eax = set_ax (reg_shl3 t) (drop_bit 5 (ucast (reg_shl3 t))), u_consumed = Suc esi\<rparr>
        else if Suc esi \<ge> length input then None
        else let b' = input ! Suc esi; e' = set_al (push_bit 3 (reg_shl3 t)) b'
          in if \<not> bit b' 7 then Some (got e' (Suc (Suc esi)))
          else if bit b' 6 then utf8to16_gather input (Suc (Suc esi)) (reg_shift e' b')
          else Some \<lparr>u_eax = drop_bit 2 (reg_shift e' b'), u_consumed = Suc (Suc esi)\<rparr>)"
  by (subst utf8to16_gather.simps)
    (simp only: reg_eqs Suc_eq_plus1)

lemma gather_ptr_eq:
  "utf8to16_gather_ptr m esi eax =
     (let b = m esi; e = reg_load eax b; t = gather_tail eax b
      in if \<not> bit b 7 then Some (esi + 1, e AND 0xFFFF00FF)
      else if bit b 6 then utf8to16_gather_ptr m (esi + 1) (reg_shift e b)
      else if \<not> bit t 13 then Some (esi + 1, set_ax (reg_shl3 t) (drop_bit 5 (ucast (reg_shl3 t))))
      else let b' = m (esi + 1); e' = set_al (push_bit 3 (reg_shl3 t)) b'
        in if \<not> bit b' 7 then Some (esi + 1 + 1, e' AND 0xFFFF00FF)
        else if bit b' 6 then utf8to16_gather_ptr m (esi + 1 + 1) (reg_shift e' b')
        else Some (esi + 1 + 1, drop_bit 2 (reg_shift e' b')))"
  by (subst utf8to16_gather_ptr.simps)
    (simp only: reg_eqs)

lemma gather_forms:
  assumes "utf8to16_gather input esi eax = Some r"
    and "\<And>i. i < length input \<Longrightarrow> m (p + of_nat i) = input ! i"
  shows "utf8to16_gather_ptr m (p + of_nat esi) eax = Some (p + of_nat (u_consumed r), u_eax r)"
  using assms
proof (induction "length input - esi" arbitrary: esi eax rule: less_induct)
  case less
  note m = less.prems(2)
  have esi: "esi < length input" using less.prems(1) by (subst (asm) gather_eq) (simp split: if_splits)
  have s: "p + of_nat esi + 1 = p + of_nat (Suc esi)" "p + of_nat (Suc esi) + 1 = p + of_nat (Suc (Suc esi))" by simp_all
  have IH: "utf8to16_gather input k x = Some r \<Longrightarrow> utf8to16_gather_ptr m (p + of_nat k) x = Some (p + of_nat (u_consumed r), u_eax r)"
    if "esi < k" for k x using less.hyps [of k x] less.prems(2) esi that by (simp add: diff_less_mono2)
  show ?case
    using less.prems(1) esi unfolding gather_ptr_eq [of m "p + of_nat esi"] gather_eq [of input esi] s Let_def
    by (auto simp: m IH got_def simp del: of_nat_Suc split: if_splits)
qed

lemma from_forms:
  assumes "utf8to16_from input esi eax = Some r"
    and "\<And>i. i < length input \<Longrightarrow> m (p + of_nat i) = input ! i"
  shows "utf8to16_ptr m (p + of_nat esi) eax = Some (p + of_nat (u_consumed r), u_eax r)"
  using assms
proof (induction "length input - esi" arbitrary: esi eax rule: less_induct)
  case less
  have esi: "esi < length input" using less.prems(1) by (subst (asm) utf8to16_from.simps) (simp split: if_splits)
  have s: "p + of_nat esi + 1 = p + of_nat (Suc esi)" by simp
  have IH: "utf8to16_from input k x = Some r \<Longrightarrow> utf8to16_ptr m (p + of_nat k) x = Some (p + of_nat (u_consumed r), u_eax r)"
    if "esi < k" for k x using less.hyps [of k x] less.prems(2) esi that by (simp add: diff_less_mono2)
  show ?case
    using less.prems(1) esi
    unfolding utf8to16_ptr.simps [of m "p + of_nat esi"] utf8to16_from.simps [of input esi] s Let_def shl_al_cf_eq
    by (auto simp: less.prems(2) IH got_def gather_forms [OF _ less.prems(2)] simp del: of_nat_Suc split: if_splits)
qed

section \<open>Reading back what the encoder writes\<close>

lemmas reg_bits = reg_load_def reg_shift_def reg_pair_def reg_shl3_def gather_tail_def
  bit_set_al bit_set_ax bit_set_ah bit_ucast_iff bit_push_bit_iff bit_drop_bit_eq

lemma tail_carry: "bit (gather_tail (reg_shift e b0) b1) 13 \<longleftrightarrow> bit b0 5"
  by (simp add: reg_bits del: push_bit_Suc drop_bit_Suc)

lemma pair_value:
  "(ucast (set_ax (reg_shl3 (gather_tail (reg_shift e b0) b1)) (drop_bit 5 (ucast (reg_shl3 (gather_tail (reg_shift e b0) b1))))) :: u16)
     = push_bit 6 (ucast b0 AND mask 5) OR (ucast b1 AND mask 6)"
  by (rule u16_eq_listI) (simp add: reg_bits bit_or_iff bit_and_iff bit_mask_iff bit_u8_high del: push_bit_Suc drop_bit_Suc)

lemma triple_value:
  "(ucast (drop_bit 2 (reg_shift (set_al (push_bit 3 (reg_shl3 (gather_tail (reg_shift e b0) b1))) b2) b2)) :: u16)
     = push_bit 12 (ucast b0 AND mask 4) OR push_bit 6 (ucast b1 AND mask 6) OR (ucast b2 AND mask 6)"
  by (rule u16_eq_listI) (simp add: reg_bits bit_or_iff bit_and_iff bit_mask_iff bit_u8_high del: push_bit_Suc drop_bit_Suc)

lemma got_value: "(ucast (u_eax (got (set_al e b) n)) :: u16) = ucast b" "u_consumed (got e n) = n"
  unfolding got_def high_masks by (auto intro!: bit_word_eqI simp: bit_simps bit_set_al not_less bit_u8_high)

lemma sequence_bits:
  "bit (0x80 OR ucast (x AND mask 6) :: u8) 7" "\<not> bit (0x80 OR ucast (x AND mask 6) :: u8) 6" for x :: u16
  by (simp_all add: bit_or_iff bit_ucast_iff bit_and_iff bit_mask_iff marker_bits)

lemma lead_bits:
  "c < 0x800 \<Longrightarrow> bit (0xC0 OR ucast (drop_bit 6 c) :: u8) 7 \<and> bit (0xC0 OR ucast (drop_bit 6 c) :: u8) 6
     \<and> \<not> bit (0xC0 OR ucast (drop_bit 6 c) :: u8) 5"
  "bit (0xE0 OR ucast (drop_bit 12 c) :: u8) 7 \<and> bit (0xE0 OR ucast (drop_bit 12 c) :: u8) 6 \<and> bit (0xE0 OR ucast (drop_bit 12 c) :: u8) 5"
  for c :: u16
  using unit_below [of c 11]
  by (simp_all add: bit_or_iff bit_ucast_iff bit_drop_bit_eq marker_bits del: drop_bit_Suc)

lemma payload_bits:
  "c < 0x800 \<Longrightarrow> push_bit 6 (ucast (0xC0 OR ucast (drop_bit 6 c) :: u8) AND mask 5) OR (ucast (0x80 OR ucast (c AND mask 6) :: u8) AND mask 6) = c"
  "push_bit 12 (ucast (0xE0 OR ucast (drop_bit 12 c) :: u8) AND mask 4)
     OR push_bit 6 (ucast (0x80 OR ucast (drop_bit 6 c AND mask 6) :: u8) AND mask 6)
     OR (ucast (0x80 OR ucast (c AND mask 6) :: u8) AND mask 6) = c" for c :: u16
  unfolding tag_folds
  by (rule u16_eq_listI, simp add: encode_bits bit_u8_high unit_below del: push_bit_Suc drop_bit_Suc)+

lemma from_lead:
  assumes "esi < length input" and "bit (input ! esi) 7"
  shows "utf8to16_from input esi eax = (if bit (input ! esi) 6 then utf8to16_gather input (Suc esi) (reg_shift eax (input ! esi))
    else utf8to16_from input (Suc esi) (reg_shift eax (input ! esi)))"
  using assms by (subst utf8to16_from.simps) (simp add: Let_def sign_bit shl_al_cf_eq reg_shift_def del: push_bit_Suc)

lemma from_unit:
  assumes "esi + length (utf8_of c) \<le> length input"
    and "\<And>i. i < length (utf8_of c) \<Longrightarrow> input ! (esi + i) = utf8_of c ! i"
  shows "\<exists>e. utf8to16_from input esi eax = Some \<lparr>u_eax = e, u_consumed = esi + length (utf8_of c)\<rparr> \<and> ucast e = c"
proof -
  consider "c < 0x80" | "\<not> c < 0x80" "c < 0x800" | "\<not> c < 0x80" "\<not> c < 0x800" by blast
  then show ?thesis
  proof cases
    case 1
    have u: "utf8_of c = [ucast c]" using 1 by (simp add: utf8_of_def)
    have "\<not> bit (ucast c :: u8) 7" using 1 bit_below [of c 7 7] by (auto simp: bit_ucast_iff word_less_nat_alt)
    moreover have "(ucast (ucast c :: u8) :: u16) = c"
      using 1 bit_below [of c _ 7] by (intro bit_word_eqI) (fastforce simp: bit_ucast_iff word_less_nat_alt)
    ultimately show ?thesis using assms assms(2) [of 0] got_value(1) [of eax "ucast c" "Suc esi"]
      by (subst utf8to16_from.simps) (auto simp: u Let_def sign_bit got_def)
  next
    case 2
    define b0 b1 :: u8 where "b0 = 0xC0 OR ucast (drop_bit 6 c)" and "b1 = 0x80 OR ucast (c AND mask 6)"
    have u: "utf8_of c = [b0, b1]" using 2 by (simp add: utf8_of_def b0_def b1_def)
    have r: "input ! esi = b0" "input ! Suc esi = b1" using assms(2) [of 0] assms(2) [of 1] by (simp_all add: u)
    have bits: "bit b0 7" "bit b0 6" "\<not> bit b0 5" "bit b1 7" "\<not> bit b1 6"
      using lead_bits(1) [OF 2(2)] sequence_bits [of c] by (simp_all add: b0_def b1_def)
    show ?thesis using assms(1) payload_bits(1) [OF 2(2)] pair_value [of eax b0 b1]
      by (simp add: from_lead r bits gather_eq [of _ "Suc esi"] u tail_carry Let_def b0_def [symmetric] b1_def [symmetric])
  next
    case 3
    define b0 b1 b2 :: u8 where "b0 = 0xE0 OR ucast (drop_bit 12 c)"
      and "b1 = 0x80 OR ucast (drop_bit 6 c AND mask 6)" and "b2 = 0x80 OR ucast (c AND mask 6)"
    have u: "utf8_of c = [b0, b1, b2]" using 3 by (simp add: utf8_of_def b0_def b1_def b2_def)
    have r: "input ! esi = b0" "input ! Suc esi = b1" "input ! Suc (Suc esi) = b2"
      using assms(2) [of 0] assms(2) [of 1] assms(2) [of 2] by (simp_all add: u)
    have bits: "bit b0 7" "bit b0 6" "bit b0 5" "bit b1 7" "\<not> bit b1 6" "bit b2 7" "\<not> bit b2 6"
      using lead_bits(2) [of c] sequence_bits [of c] sequence_bits [of "drop_bit 6 c"] by (simp_all add: b0_def b1_def b2_def)
    show ?thesis using assms(1) payload_bits(2) [of c] triple_value [of eax b0 b1 b2]
      by (simp add: from_lead r bits gather_eq [of _ "Suc esi"] u tail_carry Let_def b0_def [symmetric] b1_def [symmetric] b2_def [symmetric])
  qed
qed

lemma from_skip:
  assumes "list_all is_cont pre" and "\<And>i. i < length pre \<Longrightarrow> input ! (esi + i) = pre ! i" and "esi + length pre \<le> length input"
  shows "\<exists>e. utf8to16_from input esi eax = utf8to16_from input (esi + length pre) e"
  using assms
proof (induction pre arbitrary: esi eax)
  case (Cons b pre)
  have b: "input ! esi = b" using Cons.prems(2) [of 0] by simp
  have "bit b 7" "\<not> bit b 6" using Cons.prems(1) by (simp_all add: is_cont_def u8_bit_less)
  then have "utf8to16_from input esi eax = utf8to16_from input (Suc esi) (reg_shift eax b)"
    using Cons.prems(3) by (simp add: from_lead b)
  moreover have "\<exists>e. utf8to16_from input (Suc esi) (reg_shift eax b) = utf8to16_from input (Suc esi + length pre) e"
    using Cons.prems(1,3) Cons.prems(2) [of "Suc _"] by (intro Cons.IH) auto
  ultimately show ?case by simp
qed auto

lemma decode_unit: "utf8_decode (utf8_of c @ rest) = Some \<lparr>codepoint = ucast c, consumed = length (utf8_of c)\<rparr>"
proof -
  consider "c < 0x80" | "\<not> c < 0x80" "c < 0x800" | "\<not> c < 0x80" "\<not> c < 0x800" by blast
  then show ?thesis
  proof cases
    case 1
    have "(ucast c :: u8) < 0x80" using 1 by (simp add: word_less_nat_alt unsigned_ucast_eq take_bit_nat_eq_self)
    moreover have "(ucast (ucast c :: u8) :: u32) = ucast c"
      using 1 bit_below [of c _ 7] by (intro bit_word_eqI) (fastforce simp: bit_ucast_iff word_less_nat_alt)
    ultimately show ?thesis using 1 by (simp add: utf8_of_def utf8_decode_eq step_of_def)
  next
    case 2
    define b0 b1 :: u8 where "b0 = 0xC0 OR ucast (drop_bit 6 c)" and "b1 = 0x80 OR ucast (c AND mask 6)"
    have u: "utf8_of c = [b0, b1]" using 2 by (simp add: utf8_of_def b0_def b1_def)
    have bits: "bit b0 7" "bit b0 6" "\<not> bit b0 5" "bit b1 7" "\<not> bit b1 6"
      using lead_bits(1) [OF 2(2)] sequence_bits [of c] by (simp_all add: b0_def b1_def)
    have "push_bit 6 (low_bits 5 b0) OR low_bits 6 b1 = ucast c"
      unfolding b0_def b1_def tag_folds using 2
      by (intro u32_eq_listI) (simp add: encode_bits low_bits_def bit_u8_high unit_below del: push_bit_Suc drop_bit_Suc)
    with bits show ?thesis by (simp add: u utf8_decode_eq step_of_def is_cont_def u8_bit_ranges u8_bit_less)
  next
    case 3
    define b0 b1 b2 :: u8 where "b0 = 0xE0 OR ucast (drop_bit 12 c)"
      and "b1 = 0x80 OR ucast (drop_bit 6 c AND mask 6)" and "b2 = 0x80 OR ucast (c AND mask 6)"
    have u: "utf8_of c = [b0, b1, b2]" using 3 by (simp add: utf8_of_def b0_def b1_def b2_def)
    have "\<not> bit b0 4" by (simp add: b0_def bit_or_iff bit_ucast_iff bit_drop_bit_eq marker_bits bit_u16_high del: drop_bit_Suc)
    then have bits: "bit b0 7" "bit b0 6" "bit b0 5" "\<not> bit b0 4" "bit b1 7" "\<not> bit b1 6" "bit b2 7" "\<not> bit b2 6"
      using lead_bits(2) [of c] sequence_bits [of c] sequence_bits [of "drop_bit 6 c"] by (simp_all add: b0_def b1_def b2_def)
    have "push_bit 12 (low_bits 4 b0) OR push_bit 6 (low_bits 6 b1) OR low_bits 6 b2 = ucast c"
      unfolding b0_def b1_def b2_def tag_folds
      by (rule u32_eq_listI) (simp add: encode_bits low_bits_def bit_u8_high del: push_bit_Suc drop_bit_Suc)
    with bits show ?thesis by (simp add: u utf8_decode_eq step_of_def is_cont_def u8_bit_ranges u8_bit_less)
  qed
qed



text \<open>The pointer form of the reader returns wherever the slice form does on the bytes at the pointer, with the
  same register and the pointer advanced by the bytes consumed.\<close>

theorem utf8to16_forms_agree:
  assumes "utf8to16 (mem_bytes m p n) eax = Some r"
  shows "utf8to16_ptr m p eax = Some (p + of_nat (u_consumed r), u_eax r)"
  using from_forms [of "mem_bytes m p n" 0 eax r m p] assms by (simp add: utf8to16_def nth_mem_bytes)

theorem utf8to16_forms_agree_witness: "utf8to16_ptr (put_bytes 16 [0xD0, 0x90] (\<lambda>_. 0)) 16 0 = Some (18, 0x410)"
proof -
  have "utf8to16 (mem_bytes (put_bytes 16 [0xD0, 0x90] (\<lambda>_. 0)) 16 2) 0 = Some \<lparr>u_eax = 0x410, u_consumed = 2\<rparr>" by code_simp
  from utf8to16_forms_agree [OF this] show ?thesis by simp
qed

end
