(* ===== verification/Spec2Isabelle.thy ===== *)
theory Spec2Isabelle
  imports Coff Xfs Unpack_Safe Range_Coder Io_Ports Phys_Bitmap Fs_Time Hashes Inet_Checksum Gates Paging Slot_Search Ntfs_Runs Ntfs_Usa Utf8_Reader
begin

text \<open>
  KolibriOS Reloaded moves leaf routines of an assembly kernel (\<^verbatim>\<open>src/kernel\<close>) to Rust, one routine at a time. The crate
  \<^verbatim>\<open>src/rust_kernel/kolibri_utils\<close> holds the Rust leaves; each is compiled to a blob without relocations and called
  from a trampoline in the assembly. This library models the leaves and proves what they promise. File names
  below are those of \<^verbatim>\<open>src/rust_kernel/kolibri_utils/src\<close>.

  \<^bold>\<open>The model.\<close> The target is 32-bit x86, so a pointer or \<^verbatim>\<open>usize\<close> is a 32-bit word, every integer is a word of
  its own width and arithmetic wraps, as the sources ask for with \<^verbatim>\<open>wrapping_add\<close> and as plain operators do in the
  release build the kernel links. Code over raw pointers is a function on one flat memory, so aliasing between its arguments is part of
  the model. Code over slices is a function on lists; an index that would panic is \<open>None\<close>. A \<^verbatim>\<open>while\<close> loop
  with a counter is a total function with the counter as its measure; a loop that need not end is a partial function
  whose value \<open>None\<close> means that it does not return, and the theorems say when it does. Nothing is bounded by fuel. What a leaf gets from the
  assembly (clock port, name resolver) is an argument of its definition. Flags of the processor that a leaf
  reproduces are booleans or the packed word the trampoline unpacks.

  \<^bold>\<open>Shared theories.\<close> \<^verbatim>\<open>Prelude\<close> has words, bytes, loads and stores, byte lists in memory, and the separation
  predicate \<open>apart\<close>. \<^verbatim>\<open>Bit_Table\<close> and \<^verbatim>\<open>Scan\<close> hold the contracts that several components satisfy: a table of bits,
  a counted search loop, a walk along next pointers.

  \<^bold>\<open>Memory and ports.\<close> \<^verbatim>\<open>Phys_Bitmap\<close> (\<^verbatim>\<open>phys_bitmap.rs\<close>, \<^verbatim>\<open>release_bitmap_page.rs\<close>): the state record has the
  map, the cursor, the limit and the counter; over every sequence of calls the counter equals the number of free pages, a
  single page is always the lowest free one and a run the first that fits. \<^verbatim>\<open>Io_Ports\<close> (\<^verbatim>\<open>io_access.rs\<close>,
  \<^verbatim>\<open>port_area.rs\<close>): the reservation table refines a list of reservations, and after any calls a thread
  may use exactly the ports it reserved. \<^verbatim>\<open>Paging\<close> (\<^verbatim>\<open>get_pg_addr.rs\<close>, \<^verbatim>\<open>v86_get_lin_addr.rs\<close>,
  \<^verbatim>\<open>usb_td_to_virt.rs\<close>): translation and its inverse over the list of descriptor pages.

  \<^bold>\<open>Checks of user input.\<close> \<^verbatim>\<open>Gates\<close> (\<^verbatim>\<open>userspace.rs\<close>, \<^verbatim>\<open>fs_operation_safe.rs\<close>, \<^verbatim>\<open>app_header.rs\<close>): which
  regions, strings, file requests and program headers are accepted. \<^verbatim>\<open>Slot_Search\<close> (\<^verbatim>\<open>pid_to_slot.rs\<close>,
  \<^verbatim>\<open>socket_check.rs\<close>, \<^verbatim>\<open>net_ptr_to_num4.rs\<close>, \<^verbatim>\<open>ipv4_find_fragment_slot.rs\<close>, \<^verbatim>\<open>ahci_find_cmdslot.rs\<close>): table
  lookups as instances of the search contracts.

  \<^bold>\<open>Loading programs.\<close> \<^verbatim>\<open>Coff\<close> (\<^verbatim>\<open>coff_get_align.rs\<close>, \<^verbatim>\<open>get_coff_sym.rs\<close>, \<^verbatim>\<open>get_proc_ex.rs\<close>, \<^verbatim>\<open>fix_coff_symbols.rs\<close>,
  \<^verbatim>\<open>coff_reloc.rs\<close>, \<^verbatim>\<open>rebase_coff.rs\<close>): symbol resolution and relocation change the named dwords by the right amounts and
  nothing else, provided the patched dwords are disjoint and outside the tables. \<^verbatim>\<open>Cstrings\<close> (\<^verbatim>\<open>string.rs\<close>, \<^verbatim>\<open>memmove.rs\<close>): string scans,
  comparison and the forward copy. \<^verbatim>\<open>Lzma\<close>, \<^verbatim>\<open>Unpack\<close> (\<^verbatim>\<open>unpack.rs\<close>): the decompressor; \<^verbatim>\<open>Lzma_Frame\<close> and
  \<^verbatim>\<open>Unpack_Safe\<close> show that it ends and where it writes on any stream, \<^verbatim>\<open>Range_Coder\<close> that its bit-tree
  decoder inverts a reference encoder.

  \<^bold>\<open>File systems.\<close> \<^verbatim>\<open>Ntfs_Runs\<close> (\<^verbatim>\<open>ntfs_mcb.rs\<close>, \<^verbatim>\<open>ntfs_create_mcb.rs\<close>) and \<^verbatim>\<open>Ntfs_Usa\<close> (\<^verbatim>\<open>ntfs_usa.rs\<close>): an
  encoded data run decodes to itself, growing an attribute keeps what follows it, and the fixup restores the
  sector ends or reports a torn record. \<^verbatim>\<open>Xfs\<close> (\<^verbatim>\<open>xfs_extent.rs\<close>, \<^verbatim>\<open>xfs_hash_lookup.rs\<close>, \<^verbatim>\<open>xfs_node_hash.rs\<close>,
  \<^verbatim>\<open>xfs_get_last_dirblock.rs\<close>, \<^verbatim>\<open>xfs_blkrel2sectabs.rs\<close>): extents, and the two-level directory search. \<^verbatim>\<open>Hashes\<close>
  (\<^verbatim>\<open>crc.rs\<close>, \<^verbatim>\<open>exfat_checksum.rs\<close>, \<^verbatim>\<open>xfs_hashname.rs\<close>): which changes each hash notices. \<^verbatim>\<open>Calendar\<close> and \<^verbatim>\<open>Fs_Time\<close>
  (\<^verbatim>\<open>time.rs\<close>, \<^verbatim>\<open>fs_get_time.rs\<close>, \<^verbatim>\<open>fs_read_cmos.rs\<close>, \<^verbatim>\<open>ntfs_get_time.rs\<close>, \<^verbatim>\<open>ext_write_time.rs\<close>, \<^verbatim>\<open>ext_read_all_times.rs\<close>): round trips
  between the kernel's seconds and every on-disk format.

  \<^bold>\<open>Text and network.\<close> \<^verbatim>\<open>Unicode\<close>, \<^verbatim>\<open>Utf_Strings\<close>, \<^verbatim>\<open>Utf8_Reader\<close> (\<^verbatim>\<open>unicode.rs\<close>, \<^verbatim>\<open>casefold.rs\<close>, \<^verbatim>\<open>utf16_to_8.rs\<close>,
  \<^verbatim>\<open>cp866_to_utf8_string.rs\<close>, \<^verbatim>\<open>utf8to16.rs\<close>): the converters against reference encodings, and their byte budgets.
  \<^verbatim>\<open>Inet_Checksum\<close> (\<^verbatim>\<open>checksum.rs\<close>): the sum modulo 65535, and that a packet with its checksum verifies.

  \<^bold>\<open>What the proofs found.\<close> The leap day of 2100, a clock mask, a checksum of zero, a region that ends at
  the top of the address space, a request size that wraps, two overruns of the run encoder and a match that is copied past
  the announced length of the output; a lemma beside each component states the case.

  \<^bold>\<open>Not modelled.\<close> Leaves that mainly call back into the assembly (\<^verbatim>\<open>ext_set_file_info.rs\<close>,
  \<^verbatim>\<open>ntfs_set_file_info.rs\<close>, \<^verbatim>\<open>ipv4_output.rs\<close>, \<^verbatim>\<open>exfat_find_lfn.rs\<close>, \<^verbatim>\<open>get_inode_location.rs\<close>) or
  poll devices (\<^verbatim>\<open>ahci_port_wait.rs\<close>); the drawing and input leaves (\<^verbatim>\<open>blit_32.rs\<close>, \<^verbatim>\<open>draw_char.rs\<close>, \<^verbatim>\<open>font.rs\<close>,
  \<^verbatim>\<open>geometry.rs\<close>, \<^verbatim>\<open>window.rs\<close>, \<^verbatim>\<open>mouse.rs\<close>, \<^verbatim>\<open>hotkey.rs\<close>); \<^verbatim>\<open>fat_name.rs\<close>, \<^verbatim>\<open>partition.rs\<close>, \<^verbatim>\<open>ntfs_bootsec.rs\<close>,
  \<^verbatim>\<open>ipv4_route.rs\<close>, \<^verbatim>\<open>tcp.rs\<close>, the ISO 9660 leaves and a few one-expression helpers. \<^verbatim>\<open>ffi.rs\<close> only forwards to the
  leaves. Functions compiled for the tests, the host tools under \<^verbatim>\<open>src/tools\<close> and the assembly kernel are
  outside the model.
\<close>

end
